(* ===== verification/Prelude.thy ===== *)
theory Prelude
  imports Main "HOL-Library.Word" "HOL-Library.Monad_Syntax"
begin

text \<open>
  Shared vocabulary of the development: the machine integers of the SH-2 build of libyaul
  (ILP32, big endian), the assertion trap, and the facts on words, lists and the option monad
  that the component theories rely on.

  Conventions used by every theory.
  \<^item> An unsigned C integer of width \<open>w\<close> is a \<open>w word\<close>; a signed one is the same word, read with
    \<open>sint\<close> where the source compares or promotes it as a signed value.
  \<^item> A pointer is an address, a \<open>32 word\<close>; \<open>NULL\<close> is \<open>0\<close>. A pointer to a struct the caller owns
    is the struct itself, or an \<open>option\<close> of it where the code tests it against \<open>NULL\<close>.
  \<^item> The value \<open>None\<close> of a function into \<open>option\<close> stands for "the C function has no defined
    result": a failed \<open>assert\<close> (which never returns, see \<open>libyaul/lib/stdlib/assert.c\<close>), an access
    outside an array, or a loop that does not end. A theorem that an operation works always
    states that its value is \<open>Some\<close> of something.
\<close>

unbundle bit_operations_syntax

type_synonym u8 = "8 word"
type_synonym u16 = "16 word"
type_synonym u32 = "32 word"
type_synonym s8 = "8 word"
type_synonym s16 = "16 word"
type_synonym s32 = "32 word"

named_theorems word_nat
named_theorems c_exec

section \<open>Assertions\<close>

definition assert_c :: "bool \<Rightarrow> unit option" where
  "assert_c b = (if b then Some () else None)"

lemma assert_c_True [simp]: "assert_c True = Some ()"
  by (simp add: assert_c_def)

lemma assert_c_False [simp]: "assert_c False = None"
  by (simp add: assert_c_def)

lemma assert_c_bind_eq_Some [simp]:
  "(assert_c b \<bind> f) = Some x \<longleftrightarrow> b \<and> f () = Some x"
  by (simp add: assert_c_def)

lemma assert_c_bind_if: "b \<Longrightarrow> (assert_c b \<bind> f) = f ()"
  by simp

section \<open>Array accesses\<close>

definition read_at :: "'a list \<Rightarrow> u32 \<Rightarrow> 'a option" where
  "read_at xs i = (if unat i < length xs then Some (xs ! unat i) else None)"

definition write_at :: "'a list \<Rightarrow> u32 \<Rightarrow> 'a \<Rightarrow> 'a list option" where
  "write_at xs i v = (if unat i < length xs then Some (xs[unat i := v]) else None)"

lemma read_at_Some [simp]: "unat i < length xs \<Longrightarrow> read_at xs i = Some (xs ! unat i)"
  by (simp add: read_at_def)

lemma write_at_Some [simp]: "unat i < length xs \<Longrightarrow> write_at xs i v = Some (xs[unat i := v])"
  by (simp add: write_at_def)

section \<open>Words as natural numbers\<close>

lemma unat_add_nowrap [word_nat]:
  fixes a b :: u32
  shows "unat a + unat b < 2 ^ 32 \<Longrightarrow> unat (a + b) = unat a + unat b"
  by (simp add: unat_word_ariths)

lemma unat_mult_nowrap [word_nat]:
  fixes a b :: u32
  shows "unat a * unat b < 2 ^ 32 \<Longrightarrow> unat (a * b) = unat a * unat b"
  by (simp add: unat_word_ariths)

lemma unat_of_nat32 [word_nat]: "n < 2 ^ 32 \<Longrightarrow> unat (of_nat n :: u32) = n"
  by (simp add: unat_of_nat take_bit_nat_eq_self)

lemma unat_lt32: "unat (x :: u32) < 2 ^ 32"
  using unsigned_less [of x] by simp

lemma unat_Suc_less:
  fixes i n :: u32
  assumes "i < n"
  shows "unat (i + 1) = Suc (unat i)"
proof -
  have "unat i < unat n" using assms by (simp add: word_less_nat_alt)
  moreover have "unat n < 2 ^ 32" using unsigned_less [of n] by simp
  ultimately have "unat i + 1 < 2 ^ 32" by linarith
  then show ?thesis by (simp add: unat_word_ariths)
qed

lemma unat_pred:
  fixes n :: u32
  assumes "n \<noteq> 0"
  shows "unat (n - 1) = unat n - 1"
  using assms by (simp add: unat_minus_one)

text \<open>The bits of a constant mask, by evaluation of the 32 positions.\<close>

lemma bit_u32_const:
  assumes "list_all (\<lambda>n. bit (c :: u32) n = Q n) [0..<32]"
  shows "bit c n \<longleftrightarrow> n < 32 \<and> Q n"
proof (cases "n < 32")
  case True
  then have "n \<in> set [0..<32]" by simp
  with assms have "bit c n = Q n" unfolding list_all_iff by blast
  with True show ?thesis by simp
next
  case False
  then show ?thesis using bit_imp_le_length [of c n] by auto
qed

section \<open>Lists\<close>

lemma count_list_update:
  assumes "i < length xs" and "xs ! i \<noteq> v"
  shows "count_list (xs[i := v]) v = Suc (count_list xs v)"
  using assms
proof (induction xs arbitrary: i)
  case Nil
  then show ?case by simp
next
  case (Cons x xs)
  then show ?case by (cases i) auto
qed

lemma count_list_update_away:
  assumes "i < length xs" and "xs ! i = v" and "w \<noteq> v"
  shows "count_list (xs[i := w]) v = count_list xs v - 1"
  using assms
proof (induction xs arbitrary: i)
  case Nil
  then show ?case by simp
next
  case (Cons x xs)
  show ?case
  proof (cases i)
    case 0
    with Cons.prems show ?thesis by simp
  next
    case (Suc j)
    with Cons have IH: "count_list (xs[j := w]) v = count_list xs v - 1" by simp
    have "xs ! j = v" "j < length xs" using Cons.prems Suc by auto
    then have "v \<in> set xs" by (metis nth_mem)
    then have "0 < count_list xs v" by (metis count_list_0_iff gr0I)
    with IH Suc show ?thesis by simp
  qed
qed

lemma count_list_replicate_other: "x \<noteq> y \<Longrightarrow> count_list (replicate n x) y = 0"
  by (induction n) auto

lemma count_list_pos_nth: "i < length xs \<Longrightarrow> 0 < count_list xs (xs ! i)"
  by (metis count_list_0_iff gr0I nth_mem)

lemma count_list_le_length: "count_list xs v \<le> length xs"
  by (induction xs) auto

lemma fold_update_all:
  "length xs = n \<Longrightarrow> fold (\<lambda>i ys. ys[i := v]) [0..<n] xs = replicate n v"
proof -
  assume len: "length xs = n"
  have "k \<le> n \<Longrightarrow> fold (\<lambda>i ys. ys[i := v]) [0..<k] xs = replicate k v @ drop k xs" for k
  proof (induction k)
    case 0
    then show ?case by simp
  next
    case (Suc k)
    then have d: "drop k xs = xs ! k # drop (Suc k) xs"
      by (simp add: Cons_nth_drop_Suc len)
    from Suc have "fold (\<lambda>i ys. ys[i := v]) [0..<Suc k] xs
        = (replicate k v @ drop k xs)[k := v]"
      by simp
    also have "\<dots> = replicate k v @ v # drop (Suc k) xs"
      by (simp add: d list_update_append)
    also have "\<dots> = replicate (Suc k) v @ drop (Suc k) xs"
      by (simp add: replicate_app_Cons_same)
    finally show ?case .
  qed
  from this [of n] len show ?thesis by simp
qed

end
