(* ===== verification/Memb.thy ===== *)
theory Memb
  imports Prelude
begin

text \<open>
  The fixed-size block pool of \<open>libyaul/kernel/mm/memb.c\<close>: a static array of \<open>m_bnum\<close> blocks of
  \<open>m_bsize\<close> bytes with one availability mark per block, a next-fit index \<open>m_bidx\<close> and a count
  \<open>m_size\<close>. The state is the \<^theory_text>\<open>record\<close> \<open>memb\<close> with the fields of \<open>memb_t\<close>; \<open>m_bytes\<close> holds the
  bytes of the pool, which \<open>memb_init\<close> clears. The theory ends with the interface \<open>block_pool\<close>
  that clients of a pool rely on, and its interpretation on this implementation.
\<close>

section \<open>State\<close>

datatype memb_ref_type = MEMB_REF_AVAILABLE | MEMB_REF_RESERVED

record memb =
  m_bsize :: u32
  m_bnum :: u32
  m_breftype :: "memb_ref_type list"
  m_bidx :: u32
  m_size :: u32
  m_bpool :: u32
  m_bytes :: "u8 list"

text \<open>The static initialiser: zero-filled marks (\<open>MEMB_REF_AVAILABLE\<close> is 0) and index 0.\<close>

definition MEMB :: "u32 \<Rightarrow> u32 \<Rightarrow> u32 \<Rightarrow> memb" where
  "MEMB bsize num pool = \<lparr>
     m_bsize = bsize, m_bnum = num,
     m_breftype = replicate (unat num) MEMB_REF_AVAILABLE,
     m_bidx = 0, m_size = 0, m_bpool = pool,
     m_bytes = replicate (unat num * unat bsize) 0 \<rparr>"

section \<open>Operations\<close>

definition MEMB_PTR_BOUND :: "memb \<Rightarrow> u32 \<Rightarrow> bool" where
  "MEMB_PTR_BOUND mb ptr \<longleftrightarrow>
     m_bpool mb \<le> ptr \<and> ptr < m_bpool mb + m_bnum mb * m_bsize mb"

definition incr_block_index :: "memb \<Rightarrow> memb" where
  "incr_block_index mb =
     (let mb = (if m_bnum mb - 1 \<le> m_bidx mb then mb\<lparr>m_bidx := 0\<rparr> else mb)
      in mb\<lparr>m_bidx := m_bidx mb + 1\<rparr>)"

definition memb_init :: "memb \<Rightarrow> memb" where
  "memb_init mb =
     (let mb = mb\<lparr>m_breftype := fold (\<lambda>bidx refs. refs[bidx := MEMB_REF_AVAILABLE])
                                  [0..<unat (m_bnum mb)] (m_breftype mb)\<rparr>;
          mb = mb\<lparr>m_size := 0\<rparr>;
          n = unat (m_bsize mb * m_bnum mb)
      in mb\<lparr>m_bytes := replicate n 0 @ drop n (m_bytes mb)\<rparr>)"

text \<open>The first-fit loop of \<open>memb_alloc\<close>: the flag says whether a block was found at \<open>m_bidx\<close>.\<close>

partial_function (option) alloc_scan :: "u32 \<Rightarrow> memb \<Rightarrow> (memb \<times> bool) option" where
  "alloc_scan cur_bidx mb =
     (let mb = incr_block_index mb; bidx = m_bidx mb in
      read_at (m_breftype mb) bidx \<bind> (\<lambda>ref.
        if ref = MEMB_REF_AVAILABLE then Some (mb, True)
        else if cur_bidx \<noteq> bidx then alloc_scan cur_bidx mb
        else Some (mb, False)))"

declare alloc_scan.simps [code]

definition allocate_block :: "memb \<Rightarrow> u32 \<Rightarrow> u32 \<times> memb" where
  "allocate_block mb bidx =
     (let block = m_bpool mb + bidx * m_bsize mb;
          mb = mb\<lparr>m_breftype := (m_breftype mb)[unat bidx := MEMB_REF_RESERVED]\<rparr>;
          mb = incr_block_index mb;
          mb = mb\<lparr>m_size := m_size mb + 1\<rparr>
      in (block, mb))"

definition memb_alloc_at :: "memb \<Rightarrow> (u32 \<times> memb) option" where
  "memb_alloc_at mb =
     (if m_bnum mb \<le> m_bidx mb then Some (0, mb)
      else read_at (m_breftype mb) (m_bidx mb) \<bind> (\<lambda>ref.
        if ref = MEMB_REF_AVAILABLE then Some (allocate_block mb (m_bidx mb))
        else alloc_scan (m_bidx mb) mb \<bind> (\<lambda>(mb, found).
          if found then Some (allocate_block mb (m_bidx mb)) else Some (0, mb))))"

fun memb_alloc :: "memb option \<Rightarrow> (u32 \<times> memb option) option" where
  "memb_alloc None = Some (0, None)"
| "memb_alloc (Some mb) = map_option (apsnd Some) (memb_alloc_at mb)"

text \<open>The walk of \<open>memb_free\<close> over the blocks; the result is the C return value (0 or -1).\<close>

function free_scan :: "memb \<Rightarrow> u32 \<Rightarrow> u32 \<Rightarrow> u32 \<Rightarrow> (int \<times> memb) option" where
  "free_scan mb addr bidx block =
     (if bidx < m_bnum mb then
        if block = addr then
          read_at (m_breftype mb) bidx \<bind> (\<lambda>ref.
            if ref = MEMB_REF_AVAILABLE then Some (-1, mb)
            else
              let mb = mb\<lparr>m_breftype := (m_breftype mb)[unat bidx := MEMB_REF_AVAILABLE]\<rparr>;
                  mb = mb\<lparr>m_size := m_size mb - 1\<rparr>
              in Some (0, mb\<lparr>m_bidx := (if m_size mb = 0 then 0 else bidx)\<rparr>))
        else free_scan mb addr (bidx + 1) (block + m_bsize mb)
      else Some (-1, mb))"
  by pat_completeness auto
termination
proof (relation "measure (\<lambda>(mb, addr, bidx, block). unat (m_bnum mb) - unat bidx)")
  fix mb :: memb and addr bidx block :: u32
  assume lt: "bidx < m_bnum mb"
  then have "unat bidx < unat (m_bnum mb)" by (simp add: word_less_nat_alt)
  moreover have "unat (bidx + 1) = Suc (unat bidx)" using lt by (rule unat_Suc_less)
  ultimately show "((mb, addr, bidx + 1, block + m_bsize mb), (mb, addr, bidx, block))
      \<in> measure (\<lambda>(mb, addr, bidx, block). unat (m_bnum mb) - unat bidx)"
    by simp
qed simp

declare free_scan.simps [simp del]

fun memb_free :: "memb option \<Rightarrow> u32 \<Rightarrow> (int \<times> memb option) option" where
  "memb_free None addr = Some (-1, None)"
| "memb_free (Some mb) addr =
     (if \<not> MEMB_PTR_BOUND mb addr then Some (-1, Some mb)
      else map_option (apsnd Some) (free_scan mb addr 0 (m_bpool mb)))"

fun memb_size :: "memb option \<Rightarrow> int" where
  "memb_size None = -1"
| "memb_size (Some mb) = sint (m_size mb)"

definition memb_bounds :: "memb \<Rightarrow> u32 \<Rightarrow> bool" where
  "memb_bounds mb addr = MEMB_PTR_BOUND mb addr"

section \<open>Well-formed pools\<close>

text \<open>
  What every pool declared with \<open>MEMB\<close> satisfies and every operation keeps: one mark per block,
  the pool does not run over the end of the address space, \<open>m_size\<close> counts the reserved blocks,
  and index 0 is only ever the next index while block 0 is available. The last fact is what
  makes the search loop of \<open>memb_alloc\<close> end, since \<open>_incr_block_index\<close> never produces 0.
\<close>

definition memb_ok :: "memb \<Rightarrow> bool" where
  "memb_ok mb \<longleftrightarrow>
     0 < unat (m_bnum mb) \<and> 0 < unat (m_bsize mb) \<and> 0 < unat (m_bpool mb) \<and>
     unat (m_bpool mb) + unat (m_bnum mb) * unat (m_bsize mb) < 2 ^ 32 \<and>
     length (m_breftype mb) = unat (m_bnum mb) \<and>
     unat (m_size mb) = count_list (m_breftype mb) MEMB_REF_RESERVED \<and>
     (unat (m_bidx mb) < unat (m_bnum mb) \<or> unat (m_bnum mb) = 1 \<and> unat (m_bidx mb) = 1) \<and>
     (m_bidx mb = 0 \<longrightarrow> m_breftype mb ! 0 = MEMB_REF_AVAILABLE)"

definition block_addr :: "memb \<Rightarrow> nat \<Rightarrow> u32" where
  "block_addr mb i = m_bpool mb + of_nat i * m_bsize mb"

definition memb_live :: "memb \<Rightarrow> u32 set" where
  "memb_live mb = block_addr mb ` {i. i < length (m_breftype mb) \<and> m_breftype mb ! i = MEMB_REF_RESERVED}"

lemma memb_okD:
  assumes "memb_ok mb"
  shows "0 < unat (m_bnum mb)" "0 < unat (m_bsize mb)" "0 < unat (m_bpool mb)"
    "unat (m_bpool mb) + unat (m_bnum mb) * unat (m_bsize mb) < 2 ^ 32"
    "length (m_breftype mb) = unat (m_bnum mb)"
    "unat (m_size mb) = count_list (m_breftype mb) MEMB_REF_RESERVED"
    "m_bidx mb = 0 \<Longrightarrow> m_breftype mb ! 0 = MEMB_REF_AVAILABLE"
  using assms by (auto simp: memb_ok_def)

lemma MEMB_ok:
  assumes "0 < unat num" "0 < unat bsize" "0 < unat pool"
    and "unat pool + unat num * unat bsize < 2 ^ 32"
  shows "memb_ok (MEMB bsize num pool)"
  using assms by (simp add: memb_ok_def MEMB_def count_list_replicate_other)

lemma memb_live_MEMB [simp]: "memb_live (MEMB bsize num pool) = {}"
  by (auto simp: memb_live_def MEMB_def)

lemma neq_available [simp]: "r \<noteq> MEMB_REF_AVAILABLE \<longleftrightarrow> r = MEMB_REF_RESERVED"
  by (cases r) auto

lemma neq_reserved [simp]: "r \<noteq> MEMB_REF_RESERVED \<longleftrightarrow> r = MEMB_REF_AVAILABLE"
  by (cases r) auto

subsection \<open>Addresses of blocks\<close>

lemma unat_block_addr:
  assumes ok: "memb_ok mb" and i: "i < unat (m_bnum mb)"
  shows "unat (block_addr mb i) = unat (m_bpool mb) + i * unat (m_bsize mb)"
proof -
  have "i < 2 ^ 32" using i unat_lt32 [of "m_bnum mb"] by linarith
  then have ui: "unat (of_nat i :: u32) = i" by (rule unat_of_nat32)
  have "i * unat (m_bsize mb) \<le> unat (m_bnum mb) * unat (m_bsize mb)"
    using i by simp
  with memb_okD(4) [OF ok]
  have s: "unat (m_bpool mb) + i * unat (m_bsize mb) < 2 ^ 32" by linarith
  then have "unat (of_nat i * m_bsize mb) = i * unat (m_bsize mb)"
    using unat_mult_nowrap [of "of_nat i" "m_bsize mb"] ui by simp
  with s show ?thesis
    unfolding block_addr_def by (subst unat_add_nowrap) simp_all
qed

lemma block_addr_inj:
  assumes ok: "memb_ok mb" and "i < unat (m_bnum mb)" "j < unat (m_bnum mb)"
    and "block_addr mb i = block_addr mb j"
  shows "i = j"
proof -
  have "i * unat (m_bsize mb) = j * unat (m_bsize mb)"
    using assms unat_block_addr [OF ok, of i] unat_block_addr [OF ok, of j]
    by (metis add_left_cancel)
  with memb_okD(2) [OF ok] show ?thesis by simp
qed

lemma block_addr_nonzero:
  assumes ok: "memb_ok mb" and i: "i < unat (m_bnum mb)"
  shows "block_addr mb i \<noteq> 0"
  using unat_block_addr [OF ok i] memb_okD(3) [OF ok] by (auto simp: unat_eq_0)

lemma block_addr_bound:
  assumes ok: "memb_ok mb" and i: "i < unat (m_bnum mb)"
  shows "MEMB_PTR_BOUND mb (block_addr mb i)"
proof -
  let ?p = "unat (m_bpool mb)" and ?n = "unat (m_bnum mb)" and ?s = "unat (m_bsize mb)"
  have lim: "?p + ?n * ?s < 2 ^ 32" by (rule memb_okD(4) [OF ok])
  have "unat (m_bnum mb * m_bsize mb) = ?n * ?s"
    using lim by (intro unat_mult_nowrap) linarith
  then have e: "unat (m_bpool mb + m_bnum mb * m_bsize mb) = ?p + ?n * ?s"
    using lim by (subst unat_add_nowrap) simp_all
  have "i * ?s < ?n * ?s" using i memb_okD(2) [OF ok] by simp
  with e unat_block_addr [OF ok i] show ?thesis
    by (simp add: MEMB_PTR_BOUND_def word_le_nat_alt word_less_nat_alt)
qed

lemma block_addr_update [simp]:
  "block_addr (mb\<lparr>m_bidx := a\<rparr>) i = block_addr mb i"
  "block_addr (mb\<lparr>m_breftype := b\<rparr>) i = block_addr mb i"
  "block_addr (mb\<lparr>m_size := c\<rparr>) i = block_addr mb i"
  by (simp_all add: block_addr_def)

subsection \<open>The search loop\<close>

lemma incr_block_index_eq:
  assumes n: "0 < unat (m_bnum mb)"
  shows "incr_block_index mb =
    mb\<lparr>m_bidx := (if unat (m_bnum mb) - 1 \<le> unat (m_bidx mb) then 1 else m_bidx mb + 1)\<rparr>"
proof -
  have "m_bnum mb \<noteq> 0" using n by auto
  then have "unat (m_bnum mb - 1) = unat (m_bnum mb) - 1" by (rule unat_pred)
  then show ?thesis by (simp add: incr_block_index_def word_le_nat_alt)
qed

definition scan_path :: "nat \<Rightarrow> nat \<Rightarrow> nat \<Rightarrow> nat set" where
  "scan_path n j c = (if j < c then {j<..c} else {j<..<n} \<union> {1..c})"

lemma scan_path_full: "1 \<le> c \<Longrightarrow> c < n \<Longrightarrow> scan_path n c c = {1..<n}"
  by (auto simp: scan_path_def)

lemma alloc_scan_result:
  assumes "length (m_breftype mb) = unat (m_bnum mb)"
    and "1 \<le> unat (m_bidx mb)" "unat (m_bidx mb) < unat (m_bnum mb)"
    and "1 \<le> unat cur" "unat cur < unat (m_bnum mb)"
  shows "\<exists>i found. alloc_scan cur mb = Some (mb\<lparr>m_bidx := i\<rparr>, found) \<and>
           1 \<le> unat i \<and> unat i < unat (m_bnum mb) \<and>
           (if found then m_breftype mb ! unat i = MEMB_REF_AVAILABLE
            else \<forall>k \<in> scan_path (unat (m_bnum mb)) (unat (m_bidx mb)) (unat cur).
                   m_breftype mb ! k = MEMB_REF_RESERVED)"
  using assms
proof (induction "if unat (m_bidx mb) < unat cur then unat cur - unat (m_bidx mb)
                  else unat (m_bnum mb) - 1 - unat (m_bidx mb) + unat cur"
       arbitrary: mb rule: less_induct)
  case less
  let ?n = "unat (m_bnum mb)" and ?j = "unat (m_bidx mb)" and ?c = "unat cur"
  define i where "i = (if ?n - 1 \<le> ?j then 1 else m_bidx mb + 1)"
  have lt: "m_bidx mb < m_bnum mb" using less.prems by (simp add: word_less_nat_alt)
  have ui: "unat i = (if ?n - 1 \<le> ?j then 1 else Suc ?j)"
    using unat_Suc_less [OF lt] by (simp add: i_def)
  have inc: "incr_block_index mb = mb\<lparr>m_bidx := i\<rparr>"
    using less.prems by (simp add: incr_block_index_eq i_def)
  have n2: "2 \<le> ?n" using less.prems by linarith
  have i1: "1 \<le> unat i" "unat i < ?n"
    using n2 less.prems by (auto simp: ui split: if_splits)
  have rd: "read_at (m_breftype mb) i = Some (m_breftype mb ! unat i)"
    using i1 less.prems by simp
  have unf: "alloc_scan cur mb =
     (if m_breftype mb ! unat i = MEMB_REF_AVAILABLE then Some (mb\<lparr>m_bidx := i\<rparr>, True)
      else if cur \<noteq> i then alloc_scan cur (mb\<lparr>m_bidx := i\<rparr>)
      else Some (mb\<lparr>m_bidx := i\<rparr>, False))"
    by (subst alloc_scan.simps) (simp add: inc rd Let_def)
  have ci: "cur = i \<longleftrightarrow> ?c = unat i" by (simp add: word_unat_eq_iff)
  consider (avail) "m_breftype mb ! unat i = MEMB_REF_AVAILABLE"
    | (stop) "m_breftype mb ! unat i = MEMB_REF_RESERVED" "cur = i"
    | (go) "m_breftype mb ! unat i = MEMB_REF_RESERVED" "cur \<noteq> i"
    using neq_available by blast
  then show ?case
  proof cases
    case avail
    with unf i1 show ?thesis
      by (intro exI [of _ i] exI [of _ True]) simp
  next
    case stop
    have "scan_path ?n ?j ?c \<subseteq> {unat i}"
      using stop ui less.prems by (auto simp: scan_path_def split: if_splits)
    with unf i1 stop show ?thesis
      by (intro exI [of _ i] exI [of _ False]) auto
  next
    case go
    let ?mb = "mb\<lparr>m_bidx := i\<rparr>"
    have "\<exists>k found. alloc_scan cur ?mb = Some (?mb\<lparr>m_bidx := k\<rparr>, found) \<and>
           1 \<le> unat k \<and> unat k < unat (m_bnum ?mb) \<and>
           (if found then m_breftype ?mb ! unat k = MEMB_REF_AVAILABLE
            else \<forall>k \<in> scan_path (unat (m_bnum ?mb)) (unat (m_bidx ?mb)) ?c.
                   m_breftype ?mb ! k = MEMB_REF_RESERVED)"
    proof (rule less.hyps)
      show "(if unat (m_bidx ?mb) < ?c then ?c - unat (m_bidx ?mb)
             else unat (m_bnum ?mb) - 1 - unat (m_bidx ?mb) + ?c)
          < (if ?j < ?c then ?c - ?j else ?n - 1 - ?j + ?c)"
        using go ci ui less.prems by (auto split: if_splits)
    qed (use i1 less.prems in simp_all)
    then obtain k found where k: "alloc_scan cur ?mb = Some (mb\<lparr>m_bidx := k\<rparr>, found)"
        "1 \<le> unat k" "unat k < ?n"
        "if found then m_breftype mb ! unat k = MEMB_REF_AVAILABLE
         else \<forall>k \<in> scan_path ?n (unat i) ?c. m_breftype mb ! k = MEMB_REF_RESERVED"
      by (auto cong: if_cong)
    have "scan_path ?n ?j ?c \<subseteq> insert (unat i) (scan_path ?n (unat i) ?c)"
      using go ci ui less.prems by (auto simp: scan_path_def split: if_splits)
    with unf go k show ?thesis
      by (intro exI [of _ k] exI [of _ found]) auto
  qed
qed

subsection \<open>Allocation\<close>

lemma allocate_block_spec:
  assumes ok: "memb_ok mb" and i: "unat bidx < unat (m_bnum mb)"
    and av: "m_breftype mb ! unat bidx = MEMB_REF_AVAILABLE"
  shows "fst (allocate_block (mb\<lparr>m_bidx := bidx\<rparr>) bidx) = block_addr mb (unat bidx)"
    and "m_breftype (snd (allocate_block (mb\<lparr>m_bidx := bidx\<rparr>) bidx))
           = (m_breftype mb)[unat bidx := MEMB_REF_RESERVED]"
    and "block_addr (snd (allocate_block (mb\<lparr>m_bidx := bidx\<rparr>) bidx)) = block_addr mb"
    and "memb_ok (snd (allocate_block (mb\<lparr>m_bidx := bidx\<rparr>) bidx))"
    and "m_bidx (snd (allocate_block (mb\<lparr>m_bidx := bidx\<rparr>) bidx)) \<noteq> 0"
    and "m_bnum (snd (allocate_block (mb\<lparr>m_bidx := bidx\<rparr>) bidx)) = m_bnum mb"
proof -
  let ?refs = "(m_breftype mb)[unat bidx := MEMB_REF_RESERVED]"
  let ?n = "unat (m_bnum mb)"
  define nidx where "nidx = (if ?n - 1 \<le> unat bidx then 1 else bidx + 1)"
  have n: "0 < ?n" and len: "length (m_breftype mb) = ?n"
    and sz: "unat (m_size mb) = count_list (m_breftype mb) MEMB_REF_RESERVED"
    using memb_okD [OF ok] by auto
  have eq: "allocate_block (mb\<lparr>m_bidx := bidx\<rparr>) bidx =
      (m_bpool mb + bidx * m_bsize mb,
       mb\<lparr>m_breftype := ?refs, m_bidx := nidx, m_size := m_size mb + 1\<rparr>)"
    using n by (simp add: allocate_block_def incr_block_index_eq nidx_def Let_def)
  then show "fst (allocate_block (mb\<lparr>m_bidx := bidx\<rparr>) bidx) = block_addr mb (unat bidx)"
    by (simp add: block_addr_def)
  from eq show "m_breftype (snd (allocate_block (mb\<lparr>m_bidx := bidx\<rparr>) bidx)) = ?refs"
    by simp
  from eq show "block_addr (snd (allocate_block (mb\<lparr>m_bidx := bidx\<rparr>) bidx)) = block_addr mb"
    by (simp add: block_addr_def fun_eq_iff)
  have cnt: "count_list ?refs MEMB_REF_RESERVED = Suc (unat (m_size mb))"
    using av i len sz by (simp add: count_list_update)
  then have "Suc (unat (m_size mb)) \<le> ?n"
    using count_list_le_length [of ?refs MEMB_REF_RESERVED] len by simp
  then have "unat (m_size mb) + unat (1 :: u32) < 2 ^ 32"
    using unat_lt32 [of "m_bnum mb"] by simp
  then have usz: "unat (m_size mb + 1) = Suc (unat (m_size mb))"
    using unat_add_nowrap [of "m_size mb" 1] by simp
  have lt: "bidx < m_bnum mb" using i by (simp add: word_less_nat_alt)
  have uni: "unat nidx = (if ?n - 1 \<le> unat bidx then 1 else Suc (unat bidx))"
    using unat_Suc_less [OF lt] by (simp add: nidx_def)
  then have "unat nidx < ?n \<or> ?n = 1 \<and> unat nidx = 1" and nz: "nidx \<noteq> 0"
    using n i by (auto split: if_splits)
  with ok eq cnt usz len show "memb_ok (snd (allocate_block (mb\<lparr>m_bidx := bidx\<rparr>) bidx))"
    by (simp add: memb_ok_def)
  from eq nz show "m_bidx (snd (allocate_block (mb\<lparr>m_bidx := bidx\<rparr>) bidx)) \<noteq> 0"
    "m_bnum (snd (allocate_block (mb\<lparr>m_bidx := bidx\<rparr>) bidx)) = m_bnum mb" by simp_all
qed

lemma memb_alloc_cases:
  assumes ok: "memb_ok mb"
  obtains (full) idx where "memb_alloc_at mb = Some (0, mb\<lparr>m_bidx := idx\<rparr>)"
      and "memb_ok (mb\<lparr>m_bidx := idx\<rparr>)" and "idx \<noteq> 0"
      and "\<And>i. i < unat (m_bnum mb) \<Longrightarrow> 1 \<le> i \<or> i = unat (m_bidx mb)
             \<Longrightarrow> m_breftype mb ! i = MEMB_REF_RESERVED"
  | (got) bidx where "memb_alloc_at mb = Some (allocate_block (mb\<lparr>m_bidx := bidx\<rparr>) bidx)"
      and "unat bidx < unat (m_bnum mb)" and "m_breftype mb ! unat bidx = MEMB_REF_AVAILABLE"
      and "1 \<le> unat bidx \<or> bidx = m_bidx mb" and "m_bidx mb = 0 \<Longrightarrow> bidx = 0"
proof (cases "m_bnum mb \<le> m_bidx mb")
  case True
  then have "unat (m_bnum mb) = 1" "unat (m_bidx mb) = 1"
    using ok by (auto simp: memb_ok_def word_le_nat_alt)
  with True ok show thesis
    by (intro full [of "m_bidx mb"]) (auto simp: memb_alloc_at_def)
next
  case False
  then have lt: "unat (m_bidx mb) < unat (m_bnum mb)"
    by (simp add: word_le_nat_alt not_le)
  then have rd: "read_at (m_breftype mb) (m_bidx mb) = Some (m_breftype mb ! unat (m_bidx mb))"
    using memb_okD(5) [OF ok] by simp
  show thesis
  proof (cases "m_breftype mb ! unat (m_bidx mb) = MEMB_REF_AVAILABLE")
    case True
    with False rd lt show thesis
      by (intro got [of "m_bidx mb"]) (simp_all add: memb_alloc_at_def)
  next
    case res: False
    then have nz: "m_bidx mb \<noteq> 0" using memb_okD(7) [OF ok] by auto
    then have ge: "1 \<le> unat (m_bidx mb)" by (simp add: Suc_le_eq unat_gt_0)
    obtain i found where sc: "alloc_scan (m_bidx mb) mb = Some (mb\<lparr>m_bidx := i\<rparr>, found)"
      and i: "1 \<le> unat i" "unat i < unat (m_bnum mb)"
      and res': "if found then m_breftype mb ! unat i = MEMB_REF_AVAILABLE
        else \<forall>k \<in> {1..<unat (m_bnum mb)}. m_breftype mb ! k = MEMB_REF_RESERVED"
      using alloc_scan_result [OF memb_okD(5) [OF ok] ge lt ge lt] scan_path_full [OF ge lt]
      by (auto cong: if_cong)
    show thesis
    proof (cases found)
      case True
      with False rd res sc i res' nz show thesis
        by (intro got [of i]) (simp_all add: memb_alloc_at_def)
    next
      case nf: False
      have i0: "i \<noteq> 0" using i by auto
      with ok i have "memb_ok (mb\<lparr>m_bidx := i\<rparr>)" by (simp add: memb_ok_def)
      moreover have "memb_alloc_at mb = Some (0, mb\<lparr>m_bidx := i\<rparr>)"
        using False rd res sc nf by (simp add: memb_alloc_at_def)
      moreover have "\<And>k. k < unat (m_bnum mb) \<Longrightarrow> 1 \<le> k \<or> k = unat (m_bidx mb)
          \<Longrightarrow> m_breftype mb ! k = MEMB_REF_RESERVED"
        using nf res' ge by auto
      ultimately show thesis using i0 by (intro full [of i])
    qed
  qed
qed

text \<open>The number of blocks that the search of \<open>memb_alloc\<close> can still find.\<close>

definition memb_room :: "memb \<Rightarrow> nat" where
  "memb_room mb = card {i. i < unat (m_bnum mb) \<and> (1 \<le> i \<or> i = unat (m_bidx mb)) \<and> m_breftype mb ! i = MEMB_REF_AVAILABLE}"

lemma memb_alloc_room:
  assumes ok: "memb_ok mb" and r: "memb_alloc_at mb = Some (p, mb')"
  shows "p = 0 \<longleftrightarrow> memb_room mb = 0" "memb_room mb' = memb_room mb - 1"
proof -
  let ?S = "\<lambda>mb. {i. i < unat (m_bnum mb) \<and> (1 \<le> i \<or> i = unat (m_bidx mb)) \<and> m_breftype mb ! i = MEMB_REF_AVAILABLE}"
  have "(p = 0 \<longleftrightarrow> memb_room mb = 0) \<and> memb_room mb' = memb_room mb - 1"
    using ok
  proof (cases rule: memb_alloc_cases)
    case (full idx)
    have "?S mb = {}" using full(4) by auto
    then have room: "memb_room mb = 0" unfolding memb_room_def by (simp only: card.empty)
    have "1 \<le> unat idx" using full(3) by (simp add: Suc_le_eq unat_gt_0)
    then have "?S (mb\<lparr>m_bidx := idx\<rparr>) = {}" using full(4) by auto
    then have "memb_room (mb\<lparr>m_bidx := idx\<rparr>) = 0" unfolding memb_room_def by (simp only: card.empty)
    then show ?thesis using room full(1) r by simp
  next
    case (got bidx)
    note spec = allocate_block_spec [OF ok got(2,3)]
    have e: "p = block_addr mb (unat bidx)" "mb' = snd (allocate_block (mb\<lparr>m_bidx := bidx\<rparr>) bidx)"
      using got(1) r spec(1) by (metis fst_conv option.inject, metis snd_conv option.inject)
    have b: "unat bidx \<in> ?S mb" using got(2,3,4) by auto
    have idx: "1 \<le> unat (m_bidx mb')" using spec(5) e(2) by (simp add: Suc_le_eq unat_gt_0)
    have len: "length (m_breftype mb) = unat (m_bnum mb)" by (rule memb_okD(5) [OF ok])
    have pos: "1 \<le> i" if "i \<in> ?S mb - {unat bidx}" for i
    proof (rule ccontr)
      assume "\<not> 1 \<le> i"
      then have "i = 0" "unat (m_bidx mb) = 0" using that by auto
      then show False using that got(5) by (simp add: unat_eq_0)
    qed
    have S: "?S mb' = ?S mb - {unat bidx}"
    proof (intro set_eqI iffI)
      fix i assume "i \<in> ?S mb'"
      then show "i \<in> ?S mb - {unat bidx}"
        using idx len spec(2,6) e(2) got(2) by (auto simp: nth_list_update split: if_splits)
    next
      fix i assume "i \<in> ?S mb - {unat bidx}"
      then show "i \<in> ?S mb'" using pos [of i] len spec(2,6) e(2) by auto
    qed
    have "memb_room mb' = memb_room mb - 1" unfolding memb_room_def S by (rule card_Diff_singleton [OF b])
    moreover have "memb_room mb \<noteq> 0" using b by (auto simp: memb_room_def)
    ultimately show ?thesis using e(1) block_addr_nonzero [OF ok got(2)] by simp
  qed
  then show "p = 0 \<longleftrightarrow> memb_room mb = 0" "memb_room mb' = memb_room mb - 1" by auto
qed

lemma memb_live_update:
  assumes ok: "memb_ok mb" and i: "i < unat (m_bnum mb)"
    and refs: "m_breftype mb' = (m_breftype mb)[i := r]" and addr: "block_addr mb' = block_addr mb"
  shows "memb_live mb' = (if r = MEMB_REF_RESERVED then insert (block_addr mb i) (memb_live mb)
                          else memb_live mb - {block_addr mb i})"
proof -
  have len: "length (m_breftype mb) = unat (m_bnum mb)" by (rule memb_okD(5) [OF ok])
  let ?S = "{k. k < length (m_breftype mb) \<and> m_breftype mb ! k = MEMB_REF_RESERVED}"
  have live': "memb_live mb' = block_addr mb ` (if r = MEMB_REF_RESERVED then insert i ?S else ?S - {i})"
    using i len by (auto simp: memb_live_def refs addr nth_list_update)
  have inj: "inj_on (block_addr mb) {k. k < unat (m_bnum mb)}"
    by (rule inj_onI) (use block_addr_inj [OF ok] in auto)
  have "block_addr mb ` (?S - {i}) = block_addr mb ` ?S - block_addr mb ` {i}"
    using inj_on_image_set_diff [OF inj, of ?S "{i}"] i len by auto
  with live' show ?thesis by (auto simp: memb_live_def)
qed

lemma block_addr_live_iff:
  assumes ok: "memb_ok mb" and i: "i < unat (m_bnum mb)"
  shows "block_addr mb i \<in> memb_live mb \<longleftrightarrow> m_breftype mb ! i = MEMB_REF_RESERVED"
  using block_addr_inj [OF ok] i memb_okD(5) [OF ok] by (auto simp: memb_live_def)

subsection \<open>Release\<close>

lemma free_scan_miss:
  assumes ok: "memb_ok mb" and "\<forall>k. i \<le> k \<longrightarrow> k < unat (m_bnum mb) \<longrightarrow> block_addr mb k \<noteq> a"
    and "i \<le> unat (m_bnum mb)"
  shows "free_scan mb a (of_nat i) (block_addr mb i) = Some (-1, mb)"
  using assms
proof (induction "unat (m_bnum mb) - i" arbitrary: i)
  case 0
  then have "i = unat (m_bnum mb)" by simp
  then show ?case by (subst free_scan.simps) simp
next
  case (Suc d)
  then have i: "i < unat (m_bnum mb)" by simp
  then have "unat (of_nat i :: u32) = i"
    using unat_lt32 [of "m_bnum mb"] by (intro unat_of_nat32) linarith
  with i have lt: "of_nat i < m_bnum mb" by (simp add: word_less_nat_alt)
  have nx: "(of_nat i :: u32) + 1 = of_nat (Suc i)" "block_addr mb i + m_bsize mb = block_addr mb (Suc i)"
    by (simp_all add: block_addr_def algebra_simps)
  have "block_addr mb i \<noteq> a" using Suc.prems i by auto
  then have "free_scan mb a (of_nat i) (block_addr mb i)
      = free_scan mb a (of_nat (Suc i)) (block_addr mb (Suc i))"
    using lt nx by (subst free_scan.simps) (simp add: add.commute)
  also have "\<dots> = Some (-1, mb)"
    using Suc i by (intro Suc.hyps(1)) auto
  finally show ?case .
qed

lemma free_scan_hit:
  assumes ok: "memb_ok mb" and "i \<le> k" and k: "k < unat (m_bnum mb)"
  shows "free_scan mb (block_addr mb k) (of_nat i) (block_addr mb i) =
    (if m_breftype mb ! k = MEMB_REF_AVAILABLE then Some (-1, mb)
     else Some (0, mb\<lparr>m_breftype := (m_breftype mb)[k := MEMB_REF_AVAILABLE],
                      m_size := m_size mb - 1,
                      m_bidx := (if m_size mb - 1 = 0 then 0 else of_nat k)\<rparr>))"
  using assms(2)
proof (induction "k - i" arbitrary: i)
  case 0
  with k have [simp]: "i = k" by simp
  have u: "unat (of_nat k :: u32) = k"
    using k unat_lt32 [of "m_bnum mb"] by (intro unat_of_nat32) linarith
  with k have "of_nat k < m_bnum mb" by (simp add: word_less_nat_alt)
  with u k show ?case
    by (subst free_scan.simps) (simp add: memb_okD(5) [OF ok] Let_def)
next
  case (Suc d)
  then have ik: "i < k" and i: "i < unat (m_bnum mb)" using k by auto
  then have "unat (of_nat i :: u32) = i"
    using unat_lt32 [of "m_bnum mb"] by (intro unat_of_nat32) linarith
  with i have lt: "of_nat i < m_bnum mb" by (simp add: word_less_nat_alt)
  have nx: "(of_nat i :: u32) + 1 = of_nat (Suc i)" "block_addr mb i + m_bsize mb = block_addr mb (Suc i)"
    by (simp_all add: block_addr_def algebra_simps)
  have "block_addr mb i \<noteq> block_addr mb k" using block_addr_inj [OF ok i k] ik by auto
  then have "free_scan mb (block_addr mb k) (of_nat i) (block_addr mb i)
      = free_scan mb (block_addr mb k) (of_nat (Suc i)) (block_addr mb (Suc i))"
    using lt nx by (subst free_scan.simps) (simp add: add.commute)
  also have "\<dots> = (if m_breftype mb ! k = MEMB_REF_AVAILABLE then Some (-1, mb)
     else Some (0, mb\<lparr>m_breftype := (m_breftype mb)[k := MEMB_REF_AVAILABLE],
                      m_size := m_size mb - 1,
                      m_bidx := (if m_size mb - 1 = 0 then 0 else of_nat k)\<rparr>))"
    using Suc ik by (intro Suc.hyps(1)) auto
  finally show ?case .
qed

lemma freed_ok:
  assumes ok: "memb_ok mb" and k: "k < unat (m_bnum mb)"
    and res: "m_breftype mb ! k = MEMB_REF_RESERVED"
  shows "memb_ok (mb\<lparr>m_breftype := (m_breftype mb)[k := MEMB_REF_AVAILABLE],
                     m_size := m_size mb - 1,
                     m_bidx := (if m_size mb - 1 = 0 then 0 else of_nat k)\<rparr>)"
proof -
  let ?refs = "(m_breftype mb)[k := MEMB_REF_AVAILABLE]"
  have len: "length (m_breftype mb) = unat (m_bnum mb)" by (rule memb_okD(5) [OF ok])
  have pos: "0 < unat (m_size mb)"
    using count_list_pos_nth [of k "m_breftype mb"] res k len memb_okD(6) [OF ok] by simp
  then have "m_size mb \<noteq> 0" by auto
  then have sz: "unat (m_size mb - 1) = count_list ?refs MEMB_REF_RESERVED"
    using unat_pred memb_okD(6) [OF ok] count_list_update_away [of k "m_breftype mb"] k len res
    by simp
  have uk: "unat (of_nat k :: u32) = k"
    using k unat_lt32 [of "m_bnum mb"] by (intro unat_of_nat32) linarith
  have "?refs ! 0 = MEMB_REF_AVAILABLE" if "m_size mb - 1 = 0 \<or> (of_nat k :: u32) = 0"
    using that
  proof
    assume "m_size mb - 1 = 0"
    then have "count_list ?refs MEMB_REF_RESERVED = 0" using sz by simp
    then have "MEMB_REF_RESERVED \<notin> set ?refs" by (simp add: count_list_0_iff)
    moreover have "?refs ! 0 \<in> set ?refs" using k len by (intro nth_mem) simp
    ultimately show ?thesis by (metis neq_reserved)
  next
    assume "(of_nat k :: u32) = 0"
    then have "k = 0" using uk by simp
    then show ?thesis using k len by simp
  qed
  then show ?thesis using ok sz uk k len by (auto simp: memb_ok_def)
qed

lemma memb_free_cases:
  assumes ok: "memb_ok mb"
  shows "a \<notin> memb_live mb \<Longrightarrow> memb_free (Some mb) a = Some (-1, Some mb)"
    and "a \<in> memb_live mb \<Longrightarrow>
      \<exists>mb'. memb_free (Some mb) a = Some (0, Some mb') \<and> memb_ok mb' \<and>
            memb_live mb' = memb_live mb - {a} \<and> block_addr mb' = block_addr mb"
proof -
  have start: "free_scan mb a 0 (m_bpool mb) = free_scan mb a (of_nat 0) (block_addr mb 0)"
    by (simp add: block_addr_def)
  have len: "length (m_breftype mb) = unat (m_bnum mb)" by (rule memb_okD(5) [OF ok])
  {
    assume nl: "a \<notin> memb_live mb"
    show "memb_free (Some mb) a = Some (-1, Some mb)"
    proof (cases "\<exists>k < unat (m_bnum mb). a = block_addr mb k")
      case True
      then obtain k where k: "k < unat (m_bnum mb)" "a = block_addr mb k" by blast
      with nl have "m_breftype mb ! k = MEMB_REF_AVAILABLE"
        using block_addr_live_iff [OF ok k(1)] by (metis neq_reserved)
      then have "free_scan mb a (of_nat 0) (block_addr mb 0) = Some (-1, mb)"
        using k by (subst k(2), subst free_scan_hit [OF ok]) simp_all
      with start show ?thesis by simp
    next
      case False
      then have "free_scan mb a (of_nat 0) (block_addr mb 0) = Some (-1, mb)"
        by (intro free_scan_miss [OF ok]) auto
      with start show ?thesis by simp
    qed
  next
    assume "a \<in> memb_live mb"
    then obtain k where k: "k < unat (m_bnum mb)" "a = block_addr mb k"
      and res: "m_breftype mb ! k = MEMB_REF_RESERVED"
      using len by (auto simp: memb_live_def)
    let ?mb = "mb\<lparr>m_breftype := (m_breftype mb)[k := MEMB_REF_AVAILABLE],
                  m_size := m_size mb - 1,
                  m_bidx := (if m_size mb - 1 = 0 then 0 else of_nat k)\<rparr>"
    have addr: "block_addr ?mb = block_addr mb" by (simp add: block_addr_def fun_eq_iff)
    have "free_scan mb a (of_nat 0) (block_addr mb 0) = Some (0, ?mb)"
      using k res by (subst k(2), subst free_scan_hit [OF ok]) simp_all
    then have "memb_free (Some mb) a = Some (0, Some ?mb)"
      using k start block_addr_bound [OF ok k(1)] by simp
    moreover have "memb_ok ?mb" by (rule freed_ok [OF ok k(1) res])
    moreover have "memb_live ?mb = memb_live mb - {a}"
      using memb_live_update [OF ok k(1) _ addr] k by simp
    ultimately show "\<exists>mb'. memb_free (Some mb) a = Some (0, Some mb') \<and> memb_ok mb' \<and>
            memb_live mb' = memb_live mb - {a} \<and> block_addr mb' = block_addr mb"
      using addr by blast
  }
qed

section \<open>What a client of a pool relies on\<close>

text \<open>
  The interface a user of a fixed-size pool sees: an allocation always returns, never hands out
  a live block and keeps the others; a release succeeds exactly on live blocks. Runs of
  allocations and releases are described once, for every implementation.
\<close>

fun pool_alloc_n :: "('s \<Rightarrow> ('p \<times> 's) option) \<Rightarrow> nat \<Rightarrow> 's \<Rightarrow> ('p list \<times> 's) option" where
  "pool_alloc_n alloc 0 s = Some ([], s)"
| "pool_alloc_n alloc (Suc n) s =
     alloc s \<bind> (\<lambda>(p, s). pool_alloc_n alloc n s \<bind> (\<lambda>(ps, s). Some (p # ps, s)))"

fun pool_free_all :: "('s \<Rightarrow> 'p \<Rightarrow> (bool \<times> 's) option) \<Rightarrow> 'p list \<Rightarrow> 's \<Rightarrow> (bool list \<times> 's) option" where
  "pool_free_all free [] s = Some ([], s)"
| "pool_free_all free (p # ps) s =
     free s p \<bind> (\<lambda>(b, s). pool_free_all free ps s \<bind> (\<lambda>(bs, s). Some (b # bs, s)))"

locale block_pool =
  fixes ok :: "'s \<Rightarrow> bool"
    and alloc :: "'s \<Rightarrow> ('p \<times> 's) option"
    and free :: "'s \<Rightarrow> 'p \<Rightarrow> (bool \<times> 's) option"
    and null :: 'p
    and live :: "'s \<Rightarrow> 'p set"
    and room :: "'s \<Rightarrow> nat"
  assumes alloc_returns: "ok s \<Longrightarrow> \<exists>p s'. alloc s = Some (p, s') \<and> ok s'"
    and alloc_fresh: "ok s \<Longrightarrow> alloc s = Some (p, s') \<Longrightarrow> p \<noteq> null
          \<Longrightarrow> p \<notin> live s \<and> live s' = insert p (live s)"
    and alloc_full: "ok s \<Longrightarrow> alloc s = Some (null, s') \<Longrightarrow> live s' = live s"
    and alloc_room: "ok s \<Longrightarrow> alloc s = Some (p, s') \<Longrightarrow> (p = null \<longleftrightarrow> room s = 0) \<and> room s' = room s - 1"
    and free_returns: "ok s \<Longrightarrow>
          \<exists>s'. free s p = Some (p \<in> live s, s') \<and> ok s' \<and> live s' = live s - {p}"
begin

lemma alloc_n_spec:
  assumes "ok s"
  shows "\<exists>ps s'. pool_alloc_n alloc n s = Some (ps, s') \<and> ok s' \<and> length ps = n \<and>
           distinct (filter (\<lambda>p. p \<noteq> null) ps) \<and>
           length (filter (\<lambda>p. p \<noteq> null) ps) = min n (room s) \<and>
           set ps - {null} \<subseteq> live s' \<and> (set ps - {null}) \<inter> live s = {} \<and>
           live s' = live s \<union> (set ps - {null})"
  using assms
proof (induction n arbitrary: s)
  case 0
  then show ?case by simp
next
  case (Suc n)
  obtain p s1 where a: "alloc s = Some (p, s1)" "ok s1"
    using alloc_returns [OF Suc.prems] by blast
  obtain ps s' where r: "pool_alloc_n alloc n s1 = Some (ps, s')" "ok s'" "length ps = n"
      "distinct (filter (\<lambda>p. p \<noteq> null) ps)" "length (filter (\<lambda>p. p \<noteq> null) ps) = min n (room s1)"
      "(set ps - {null}) \<inter> live s1 = {}" "live s' = live s1 \<union> (set ps - {null})"
    using Suc.IH [OF a(2)] by blast
  note room = alloc_room [OF Suc.prems a(1)]
  show ?case
  proof (cases "p = null")
    case True
    with a r alloc_full [OF Suc.prems] room show ?thesis
      by (intro exI [of _ "p # ps"] exI [of _ s']) auto
  next
    case False
    with a alloc_fresh [OF Suc.prems]
    have "p \<notin> live s" "live s1 = insert p (live s)" by auto
    with a r False room show ?thesis
      by (intro exI [of _ "p # ps"] exI [of _ s']) auto
  qed
qed

lemma free_all_spec:
  assumes "ok s" and "distinct ps" and "set ps \<subseteq> live s"
  shows "\<exists>s'. pool_free_all free ps s = Some (replicate (length ps) True, s') \<and> ok s' \<and>
           live s' = live s - set ps"
  using assms
proof (induction ps arbitrary: s)
  case Nil
  then show ?case by simp
next
  case (Cons p ps)
  obtain s1 where f: "free s p = Some (p \<in> live s, s1)" "ok s1" "live s1 = live s - {p}"
    using free_returns [OF Cons.prems(1)] by blast
  have sub: "set ps \<subseteq> live s1" using Cons.prems f by auto
  obtain s' where r: "pool_free_all free ps s1 = Some (replicate (length ps) True, s')" "ok s'"
      "live s' = live s1 - set ps"
    using Cons.IH [OF f(2) _ sub] Cons.prems by auto
  show ?case
    using f r Cons.prems by (intro exI [of _ s']) auto
qed

lemma alloc_n_free_all:
  assumes ok: "ok s" and run: "pool_alloc_n alloc n s = Some (ps, s1)"
  shows "\<exists>s2. pool_free_all free (filter (\<lambda>p. p \<noteq> null) ps) s1
            = Some (replicate (length (filter (\<lambda>p. p \<noteq> null) ps)) True, s2) \<and>
          ok s2 \<and> live s2 = live s"
proof -
  let ?qs = "filter (\<lambda>p. p \<noteq> null) ps"
  have r: "ok s1" "distinct ?qs" "set ps - {null} \<subseteq> live s1"
      "(set ps - {null}) \<inter> live s = {}" "live s1 = live s \<union> (set ps - {null})"
    using alloc_n_spec [OF ok, of n] run by auto
  then obtain s2 where s2: "pool_free_all free ?qs s1 = Some (replicate (length ?qs) True, s2)"
      "ok s2" "live s2 = live s1 - set ?qs"
    using free_all_spec [of s1 ?qs] by auto
  moreover have "live s1 - set ?qs = live s" using r by auto
  ultimately show ?thesis by auto
qed

end

text \<open>\<open>memb_release\<close> reads the C return value of \<open>memb_free\<close> as success (0) or failure (-1).\<close>

definition memb_release :: "memb \<Rightarrow> u32 \<Rightarrow> (bool \<times> memb) option" where
  "memb_release mb addr = memb_free (Some mb) addr \<bind> (\<lambda>(ret, mb').
     case mb' of None \<Rightarrow> None | Some mb' \<Rightarrow> Some (ret = 0, mb'))"

lemma memb_alloc_at_spec:
  assumes ok: "memb_ok mb"
  shows "\<exists>p mb'. memb_alloc_at mb = Some (p, mb') \<and> memb_ok mb' \<and>
    (if p = 0
     then memb_live mb' = memb_live mb \<and>
       (\<forall>i < unat (m_bnum mb). 1 \<le> i \<or> i = unat (m_bidx mb) \<longrightarrow>
          m_breftype mb ! i = MEMB_REF_RESERVED)
     else p \<notin> memb_live mb \<and> memb_live mb' = insert p (memb_live mb) \<and>
       (\<exists>i < unat (m_bnum mb). p = block_addr mb i \<and> m_breftype mb ! i = MEMB_REF_AVAILABLE))"
  using ok
proof (cases rule: memb_alloc_cases)
  case (full idx)
  then show ?thesis by (auto simp: memb_live_def intro!: exI [of _ "mb\<lparr>m_bidx := idx\<rparr>"])
next
  case (got bidx)
  let ?r = "allocate_block (mb\<lparr>m_bidx := bidx\<rparr>) bidx"
  note spec = allocate_block_spec [OF ok got(2,3)]
  have "memb_live (snd ?r) = insert (block_addr mb (unat bidx)) (memb_live mb)"
    using memb_live_update [OF ok got(2) spec(2,3)] by simp
  moreover have "block_addr mb (unat bidx) \<notin> memb_live mb"
    using block_addr_live_iff [OF ok got(2)] got(3) by simp
  moreover have "memb_alloc_at mb = Some (block_addr mb (unat bidx), snd ?r)"
    using got(1) spec(1) by (metis prod.collapse)
  ultimately show ?thesis
    using got(2,3) spec(4) block_addr_nonzero [OF ok got(2)]
    by (intro exI [of _ "block_addr mb (unat bidx)"] exI [of _ "snd ?r"]) auto
qed

interpretation memb_pool: block_pool memb_ok memb_alloc_at memb_release 0 memb_live memb_room
proof unfold_locales
  fix mb p mb'
  assume ok: "memb_ok mb"
  show "\<exists>p mb'. memb_alloc_at mb = Some (p, mb') \<and> memb_ok mb'"
    using memb_alloc_at_spec [OF ok] by blast
  show "p \<notin> memb_live mb \<and> memb_live mb' = insert p (memb_live mb)"
    if "memb_alloc_at mb = Some (p, mb')" "p \<noteq> 0"
    using memb_alloc_at_spec [OF ok] that by auto
  show "memb_live mb' = memb_live mb" if "memb_alloc_at mb = Some (0, mb')"
    using memb_alloc_at_spec [OF ok] that by auto
  show "(p = 0 \<longleftrightarrow> memb_room mb = 0) \<and> memb_room mb' = memb_room mb - 1" if "memb_alloc_at mb = Some (p, mb')"
    using memb_alloc_room [OF ok that] by blast
  show "\<exists>mb'. memb_release mb p = Some (p \<in> memb_live mb, mb') \<and> memb_ok mb' \<and>
           memb_live mb' = memb_live mb - {p}"
    using memb_free_cases [OF ok, of p] ok
    by (cases "p \<in> memb_live mb") (auto simp: memb_release_def simp del: memb_free.simps)
qed

section \<open>Properties\<close>

text \<open>C2: On a well-formed pool \<open>memb_alloc\<close> always returns. It returns NULL exactly when every
  block of index 1 or more and the block at the next-fit index are reserved, leaving the set of
  live blocks as it was; otherwise it returns the address of a block that was available, which
  is now live, and no other block changes state. The pool stays well-formed.\<close>

theorem memb_alloc_correct:
  assumes "memb_ok mb"
  shows "\<exists>p mb'. memb_alloc (Some mb) = Some (p, Some mb') \<and> memb_ok mb' \<and>
    (p = 0 \<longleftrightarrow> (\<forall>i < unat (m_bnum mb). 1 \<le> i \<or> i = unat (m_bidx mb) \<longrightarrow>
                    m_breftype mb ! i = MEMB_REF_RESERVED)) \<and>
    (if p = 0 then memb_live mb' = memb_live mb
     else p \<notin> memb_live mb \<and> memb_live mb' = insert p (memb_live mb) \<and>
       (\<exists>i < unat (m_bnum mb). p = block_addr mb i))"
  using assms
proof (cases rule: memb_alloc_cases)
  case (full idx)
  then show ?thesis by (auto simp: memb_live_def)
next
  case (got bidx)
  have "\<not> (\<forall>i < unat (m_bnum mb). 1 \<le> i \<or> i = unat (m_bidx mb) \<longrightarrow>
            m_breftype mb ! i = MEMB_REF_RESERVED)"
    using got by auto
  moreover obtain p mb' where "memb_alloc_at mb = Some (p, mb')" "memb_ok mb'" "p \<noteq> 0"
      "p \<notin> memb_live mb" "memb_live mb' = insert p (memb_live mb)"
      "\<exists>i < unat (m_bnum mb). p = block_addr mb i"
    using memb_alloc_at_spec [OF assms] got by (auto split: if_splits)
  ultimately show ?thesis by auto
qed

theorem memb_alloc_correct_witness:
  "memb_ok (MEMB 4 3 0x1000) \<and>
   (\<exists>p mb'. memb_alloc (Some (MEMB 4 3 0x1000)) = Some (p, Some mb') \<and> memb_ok mb' \<and> p \<noteq> 0)"
proof -
  have ok: "memb_ok (MEMB 4 3 0x1000)" by (rule MEMB_ok) simp_all
  have "\<not> (\<forall>i < unat (m_bnum (MEMB 4 3 0x1000)).
            1 \<le> i \<or> i = unat (m_bidx (MEMB 4 3 0x1000)) \<longrightarrow>
            m_breftype (MEMB 4 3 0x1000) ! i = MEMB_REF_RESERVED)"
    by (auto simp: MEMB_def intro!: exI [of _ 1])
  with memb_alloc_correct [OF ok] ok show ?thesis by blast
qed

text \<open>C7: On a well-formed pool \<open>memb_free\<close> returns 0 exactly on the address of a live block, which
  then stops being live; on any other address (outside the pool, inside a block, or a block that
  is already available, so a double free too) it returns -1 and changes nothing.\<close>

theorem memb_free_correct:
  assumes "memb_ok mb"
  shows "\<exists>ret mb'. memb_free (Some mb) addr = Some (ret, Some mb') \<and> memb_ok mb' \<and>
    (if addr \<in> memb_live mb then ret = 0 \<and> memb_live mb' = memb_live mb - {addr}
     else ret = -1 \<and> mb' = mb)"
  using memb_free_cases [OF assms, of addr] assms by (cases "addr \<in> memb_live mb") (auto simp del: memb_free.simps)

theorem memb_free_correct_witness:
  "memb_ok (MEMB 4 3 0x1000) \<and>
   memb_free (Some (MEMB 4 3 0x1000)) 0x1004 = Some (-1, Some (MEMB 4 3 0x1000))"
proof -
  have ok: "memb_ok (MEMB 4 3 0x1000)" by (rule MEMB_ok) simp_all
  with memb_free_correct [OF ok, of "0x1004"] show ?thesis by (auto simp del: memb_free.simps)
qed

text \<open>C8: A run of \<open>n\<close> allocations on a well-formed pool returns. It yields as many blocks as the search
  can find, \<open>n\<close> at most: the search finds the available blocks of index 1 or more, and block 0
  if it starts there; the other results are NULL. The blocks are pairwise distinct, none of them was live before, and releasing exactly these succeeds each time
  and restores the set of live blocks.\<close>

theorem memb_alloc_free_roundtrip:
  assumes "memb_ok mb"
  shows "\<exists>ps mb1 mb2. pool_alloc_n memb_alloc_at n mb = Some (ps, mb1) \<and> length ps = n \<and>
     length (filter (\<lambda>p. p \<noteq> 0) ps) = min n (card {i. i < unat (m_bnum mb) \<and>
       (1 \<le> i \<or> i = unat (m_bidx mb)) \<and> m_breftype mb ! i = MEMB_REF_AVAILABLE}) \<and>
     distinct (filter (\<lambda>p. p \<noteq> 0) ps) \<and> (set ps - {0}) \<inter> memb_live mb = {} \<and>
     pool_free_all memb_release (filter (\<lambda>p. p \<noteq> 0) ps) mb1
       = Some (replicate (length (filter (\<lambda>p. p \<noteq> 0) ps)) True, mb2) \<and>
     memb_ok mb2 \<and> memb_live mb2 = memb_live mb"
proof -
  obtain ps mb1 where r: "pool_alloc_n memb_alloc_at n mb = Some (ps, mb1)" "length ps = n"
      "distinct (filter (\<lambda>p. p \<noteq> 0) ps)" "length (filter (\<lambda>p. p \<noteq> 0) ps) = min n (memb_room mb)"
      "(set ps - {0}) \<inter> memb_live mb = {}"
    using memb_pool.alloc_n_spec [OF assms, of n] by blast
  with memb_pool.alloc_n_free_all [OF assms r(1)] show ?thesis unfolding memb_room_def by blast
qed

theorem memb_alloc_free_roundtrip_witness:
  "memb_ok (MEMB 4 3 0x1000) \<and>
   (\<exists>ps mb1 mb2. pool_alloc_n memb_alloc_at 5 (MEMB 4 3 0x1000) = Some (ps, mb1) \<and>
     length (filter (\<lambda>p. p \<noteq> 0) ps) = 3 \<and>
     pool_free_all memb_release (filter (\<lambda>p. p \<noteq> 0) ps) mb1 = Some (replicate 3 True, mb2) \<and> memb_live mb2 = {})"
proof -
  have ok: "memb_ok (MEMB 4 3 0x1000)" by (rule MEMB_ok) simp_all
  have "{i. i < unat (m_bnum (MEMB 4 3 0x1000)) \<and> (1 \<le> i \<or> i = unat (m_bidx (MEMB 4 3 0x1000))) \<and>
      m_breftype (MEMB 4 3 0x1000) ! i = MEMB_REF_AVAILABLE} = {..<3}"
    by (auto simp: MEMB_def)
  then have c: "min 5 (card {i. i < unat (m_bnum (MEMB 4 3 0x1000)) \<and> (1 \<le> i \<or> i = unat (m_bidx (MEMB 4 3 0x1000))) \<and>
      m_breftype (MEMB 4 3 0x1000) ! i = MEMB_REF_AVAILABLE}) = 3"
    by simp
  obtain ps mb1 mb2 where r: "pool_alloc_n memb_alloc_at 5 (MEMB 4 3 0x1000) = Some (ps, mb1)"
      "length (filter (\<lambda>p. p \<noteq> 0) ps) = 3"
      "pool_free_all memb_release (filter (\<lambda>p. p \<noteq> 0) ps) mb1
        = Some (replicate (length (filter (\<lambda>p. p \<noteq> 0) ps)) True, mb2)" "memb_live mb2 = {}"
    using memb_alloc_free_roundtrip [OF ok, of 5] unfolding c memb_live_MEMB by blast
  show ?thesis using ok r(1,2) r(3) [unfolded r(2)] r(4) by blast
qed

text \<open>C36: A block can be lost. In every well-formed pool whose block 0 is available while all others are
  reserved, and whose next-fit index is not 0, all requests return NULL, however many, and block 0
  stays available: \<open>_incr_block_index\<close> wraps to index 1 and the search never visits index 0.\<close>

theorem memb_alloc_misses_block_0:
  assumes "memb_ok mb" "m_bidx mb \<noteq> 0" "m_breftype mb = MEMB_REF_AVAILABLE # replicate k MEMB_REF_RESERVED"
  shows "\<exists>mb'. pool_alloc_n memb_alloc_at n mb = Some (replicate n 0, mb') \<and> memb_ok mb' \<and>
    block_addr mb 0 \<notin> memb_live mb'"
proof -
  have k: "unat (m_bnum mb) = Suc k" using memb_okD(5) [OF assms(1)] assms(3) by simp
  have "unat (m_bidx mb) \<noteq> 0" using assms(2) by (simp add: unat_eq_0)
  then have "{i. i < unat (m_bnum mb) \<and> (1 \<le> i \<or> i = unat (m_bidx mb)) \<and> m_breftype mb ! i = MEMB_REF_AVAILABLE} = {}"
    using k assms(3) by (auto simp: nth_Cons')
  then have "memb_room mb = 0" by (simp add: memb_room_def)
  then obtain ps mb' where r: "pool_alloc_n memb_alloc_at n mb = Some (ps, mb')" "memb_ok mb'" "length ps = n"
      "filter (\<lambda>p. p \<noteq> 0) ps = []" "memb_live mb' = memb_live mb \<union> (set ps - {0})"
    using memb_pool.alloc_n_spec [OF assms(1), of n] by auto
  then have ps: "ps = replicate n 0" by (auto simp: filter_empty_conv intro!: replicate_eqI)
  then have "memb_live mb' = memb_live mb" using r(5) by auto
  moreover have "block_addr mb 0 \<notin> memb_live mb" using block_addr_live_iff [OF assms(1), of 0] k assms(3) by simp
  ultimately show ?thesis using r(1,2) ps by auto
qed

text \<open>A client gets there: three allocations, the release of the first and of the last block, another
  allocation.\<close>

definition lost_block_run :: "memb \<Rightarrow> memb option" where
  "lost_block_run mb =
     memb_alloc_at mb \<bind> (\<lambda>(p0, mb). memb_alloc_at mb \<bind> (\<lambda>(p1, mb). memb_alloc_at mb \<bind> (\<lambda>(p2, mb).
     memb_release mb p0 \<bind> (\<lambda>(_, mb). memb_release mb p2 \<bind> (\<lambda>(_, mb).
     memb_alloc_at mb \<bind> (\<lambda>(_, mb). Some mb))))))"

theorem memb_alloc_misses_block_0_witness:
  "\<exists>mb mb'. lost_block_run (MEMB 4 3 0x1000) = Some mb \<and>
    pool_alloc_n memb_alloc_at 7 mb = Some (replicate 7 0, mb') \<and> block_addr mb 0 \<notin> memb_live mb'"
proof -
  have "map_option (\<lambda>mb. (m_bsize mb, m_bnum mb, m_bpool mb, m_size mb, m_bidx mb = 0, m_bidx mb < 3, m_breftype mb))
      (lost_block_run (MEMB 4 3 0x1000)) =
    Some (4, 3, 0x1000, 2, False, True, [MEMB_REF_AVAILABLE, MEMB_REF_RESERVED, MEMB_REF_RESERVED])"
    by code_simp
  then obtain mb where mb: "lost_block_run (MEMB 4 3 0x1000) = Some mb" "m_bsize mb = 4" "m_bnum mb = 3"
      "m_bpool mb = 0x1000" "m_size mb = 2" "m_bidx mb \<noteq> 0" "m_bidx mb < 3"
      "m_breftype mb = MEMB_REF_AVAILABLE # replicate 2 MEMB_REF_RESERVED"
    by (auto simp: numeral_2_eq_2)
  moreover have "count_list (replicate 2 MEMB_REF_RESERVED) MEMB_REF_RESERVED = 2" by code_simp
  then have "memb_ok mb" using mb(2-8) by (simp add: memb_ok_def word_less_nat_alt)
  ultimately show ?thesis using memb_alloc_misses_block_0 [of mb 2 7] by blast
qed

end
