(* ===== verification/Callback_List.thy ===== *)
theory Callback_List
  imports Prelude
begin

text \<open>
  Callback lists: \<open>libyaul/kernel/sys/callback-list.c\<close> and \<open>callback-list.h\<close>. A list is an array of
  \<open>count\<close> slots; a slot is free while its handler is \<open>_default_handler\<close>, a function that does
  nothing. The interrupt dispatchers, the SCU-DMA levels and the VDP synchronisation code keep
  their user callbacks in such slots.

  A function pointer is \<open>NULL\<close>, \<open>_default_handler\<close> or the address of a user function. What a user
  function does is not part of these files: it is a parameter of the operations that call one,
  which receives the current list (a handler may add or remove callbacks) and the rest of the
  program's state. Pointers to lists and slots are never \<open>NULL\<close> here: the functions assert it.
\<close>

section \<open>Data\<close>

datatype callback_handler = Null_handler | Default_handler | User_handler u32

record callback =
  handler :: callback_handler
  work :: u32

record callback_list =
  callbacks :: "callback list"
  count :: u8

section \<open>Operations\<close>

definition callback_init :: "callback \<Rightarrow> callback" where
  "callback_init cb = cb\<lparr>handler := Default_handler, work := 0\<rparr>"

definition callback_set :: "callback \<Rightarrow> callback_handler \<Rightarrow> u32 \<Rightarrow> callback" where
  "callback_set cb h wk =
     cb\<lparr>handler := (if h \<noteq> Null_handler then h else Default_handler), work := wk\<rparr>"

text \<open>An indirect call: \<open>_default_handler\<close> does nothing, a call through \<open>NULL\<close> has no result.\<close>

fun call_handler ::
  "(u32 \<Rightarrow> u32 \<Rightarrow> 's \<Rightarrow> 's option) \<Rightarrow> callback_handler \<Rightarrow> u32 \<Rightarrow> 's \<Rightarrow> 's option" where
  "call_handler run Null_handler wk s = None"
| "call_handler run Default_handler wk s = Some s"
| "call_handler run (User_handler f) wk s = run f wk s"

definition callback_call :: "(u32 \<Rightarrow> u32 \<Rightarrow> 's \<Rightarrow> 's option) \<Rightarrow> callback \<Rightarrow> 's \<Rightarrow> 's option" where
  "callback_call run cb s =
     assert_c (handler cb \<noteq> Null_handler) \<bind> (\<lambda>_. call_handler run (handler cb) (work cb) s)"

definition callback_list_init :: "callback_list \<Rightarrow> callback list \<Rightarrow> u8 \<Rightarrow> callback_list option" where
  "callback_list_init cl cbs n =
     assert_c (0 < n) \<bind> (\<lambda>_. Some (cl\<lparr>count := n, callbacks := cbs\<rparr>))"

text \<open>The loop of \<open>callback_list_process\<close>. The bound \<open>count\<close> is read again in every round.\<close>

function process_from ::
  "(u32 \<Rightarrow> u32 \<Rightarrow> callback_list \<times> 'w \<Rightarrow> (callback_list \<times> 'w) option) \<Rightarrow> bool \<Rightarrow> u8
     \<Rightarrow> callback_list \<times> 'w \<Rightarrow> (callback_list \<times> 'w) option" where
  "process_from run clear i (cl, w) =
     (if i < count cl then
        read_at (callbacks cl) (ucast i) \<bind> (\<lambda>cb.
          let cl = (if clear then cl\<lparr>callbacks := (callbacks cl)[unat i := callback_init cb]\<rparr> else cl)
          in call_handler run (handler cb) (work cb) (cl, w) \<bind> process_from run clear (i + 1))
      else Some (cl, w))"
  by pat_completeness auto

lemma unat8_Suc:
  fixes i n :: u8
  assumes "i < n"
  shows "unat (i + 1) = Suc (unat i)"
proof -
  have "unat i < unat n" using assms by (simp add: word_less_nat_alt)
  moreover have "unat n < 256" using unsigned_less [of n] by simp
  ultimately have "unat i + 1 < 256" by linarith
  then show ?thesis by (simp add: unat_word_ariths)
qed

termination process_from
proof (relation "measure (\<lambda>(run, clear, i, s). 256 - unat i)")
  fix run :: "u32 \<Rightarrow> u32 \<Rightarrow> callback_list \<times> 'w \<Rightarrow> (callback_list \<times> 'w) option"
    and clear i cl and w :: 'w and cb x z
  assume lt: "i < count cl"
  have "unat (i + 1) = Suc (unat i)" by (rule unat8_Suc [OF lt])
  moreover have "unat i < 256" using unsigned_less [of i] by simp
  ultimately show "((run, clear, i + 1, z), run, clear, i, cl, w)
      \<in> measure (\<lambda>(run, clear, i, s). 256 - unat i)"
    by simp
qed simp

declare process_from.simps [simp del]

definition callback_list_process ::
  "(u32 \<Rightarrow> u32 \<Rightarrow> callback_list \<times> 'w \<Rightarrow> (callback_list \<times> 'w) option) \<Rightarrow> bool
     \<Rightarrow> callback_list \<times> 'w \<Rightarrow> (callback_list \<times> 'w) option" where
  "callback_list_process run clear s =
     assert_c (0 < count (fst s)) \<bind> (\<lambda>_. process_from run clear 0 s)"

text \<open>The search of \<open>callback_list_callback_add\<close>. In a build with \<open>DEBUG\<close> a full list is a failed
  assertion; otherwise the function returns -1, which as a \<open>callback_id_t\<close> is 255.\<close>

function add_from :: "bool \<Rightarrow> callback_list \<Rightarrow> callback_handler \<Rightarrow> u32 \<Rightarrow> u8 \<Rightarrow> (u8 \<times> callback_list) option"
  where
  "add_from debug cl h wk i =
     (if i < count cl then
        read_at (callbacks cl) (ucast i) \<bind> (\<lambda>cb.
          if handler cb \<noteq> Default_handler then add_from debug cl h wk (i + 1)
          else Some (i, cl\<lparr>callbacks := (callbacks cl)[unat i := callback_set cb h wk]\<rparr>))
      else assert_c (debug \<longrightarrow> i \<noteq> count cl) \<bind> (\<lambda>_. Some (-1, cl)))"
  by pat_completeness auto

termination add_from
proof (relation "measure (\<lambda>(debug, cl, h, wk, i). 256 - unat i)")
  fix debug cl h wk i and cb :: callback
  assume lt: "i < count cl"
  have "unat (i + 1) = Suc (unat i)" by (rule unat8_Suc [OF lt])
  moreover have "unat i < 256" using unsigned_less [of i] by simp
  ultimately show "((debug, cl, h, wk, i + 1), debug, cl, h, wk, i)
      \<in> measure (\<lambda>(debug, cl, h, wk, i). 256 - unat i)"
    by simp
qed simp

declare add_from.simps [simp del]

definition callback_list_callback_add ::
  "bool \<Rightarrow> callback_list \<Rightarrow> callback_handler \<Rightarrow> u32 \<Rightarrow> (u8 \<times> callback_list) option" where
  "callback_list_callback_add debug cl h wk =
     assert_c (debug \<longrightarrow> 0 < count cl) \<bind> (\<lambda>_. add_from debug cl h wk 0)"

definition callback_list_callback_remove :: "bool \<Rightarrow> callback_list \<Rightarrow> u8 \<Rightarrow> callback_list option" where
  "callback_list_callback_remove debug cl i =
     assert_c (debug \<longrightarrow> 0 < count cl \<and> i < count cl) \<bind> (\<lambda>_.
       read_at (callbacks cl) (ucast i) \<bind> (\<lambda>cb.
         Some (cl\<lparr>callbacks :=
           (callbacks cl)[unat i := cb\<lparr>handler := Default_handler, work := 0\<rparr>]\<rparr>)))"

fun clear_from :: "nat \<Rightarrow> callback list \<Rightarrow> u32 \<Rightarrow> callback list option" where
  "clear_from 0 cbs i = Some cbs"
| "clear_from (Suc n) cbs i =
     read_at cbs i \<bind> (\<lambda>cb. clear_from n (cbs[unat i := callback_init cb]) (i + 1))"

definition callback_list_clear :: "callback_list \<Rightarrow> callback_list option" where
  "callback_list_clear cl =
     assert_c (0 < count cl) \<bind> (\<lambda>_.
       clear_from (unat (count cl)) (callbacks cl) 0 \<bind> (\<lambda>cbs. Some (cl\<lparr>callbacks := cbs\<rparr>)))"

section \<open>Well-formed lists\<close>

definition callback_list_ok :: "callback_list \<Rightarrow> bool" where
  "callback_list_ok cl \<longleftrightarrow>
     0 < count cl \<and> length (callbacks cl) = unat (count cl) \<and>
     (\<forall>cb \<in> set (callbacks cl). handler cb \<noteq> Null_handler)"

lemma callback_list_okD:
  assumes "callback_list_ok cl"
  shows "0 < count cl" and "length (callbacks cl) = unat (count cl)"
    and "i < unat (count cl) \<Longrightarrow> handler (callbacks cl ! i) \<noteq> Null_handler"
  using assms by (auto simp: callback_list_ok_def)

lemma unat_ucast_u8 [simp]: "unat (ucast (i :: u8) :: u32) = unat i"
proof -
  have "unat i < 256" using unsigned_less [of i] by simp
  then show ?thesis by (simp add: unsigned_ucast_eq take_bit_nat_eq_self)
qed

lemma u8_induct [case_names step]:
  assumes "\<And>i. (i < n \<Longrightarrow> P (i + 1)) \<Longrightarrow> P i"
  shows "P (i :: u8)"
proof (induction "256 - unat i" arbitrary: i rule: less_induct)
  case less
  show ?case
  proof (rule assms)
    assume lt: "i < n"
    have "unat i < 256" using unsigned_less [of i] by simp
    then have "256 - unat (i + 1) < 256 - unat i" using unat8_Suc [OF lt] by simp
    then show "P (i + 1)" by (rule less)
  qed
qed

lemma update_slot_ok:
  assumes "callback_list_ok cl" and "handler cb \<noteq> Null_handler"
  shows "callback_list_ok (cl\<lparr>callbacks := (callbacks cl)[i := cb]\<rparr>)"
  using assms by (auto simp: callback_list_ok_def dest: set_update_subset_insert [THEN subsetD])

lemma handler_init [simp]: "handler (callback_init cb) = Default_handler"
  by (simp add: callback_init_def)

lemma work_init [simp]: "work (callback_init cb) = 0"
  by (simp add: callback_init_def)

lemma callback_init_eq: "callback_init cb = \<lparr>handler = Default_handler, work = 0\<rparr>"
  by (cases cb) (simp add: callback_init_def)

lemma callback_set_eq:
  "callback_set cb h wk = \<lparr>handler = (if h = Null_handler then Default_handler else h), work = wk\<rparr>"
  by (cases cb) (simp add: callback_set_def)

lemma handler_set [simp]:
  "handler (callback_set cb h wk) = (if h = Null_handler then Default_handler else h)"
  by (simp add: callback_set_def)

section \<open>Adding and removing\<close>

text \<open>\<open>free_slot cl i\<close>: slot \<open>i\<close> is the first free one.\<close>

definition free_slot :: "callback_list \<Rightarrow> nat \<Rightarrow> bool" where
  "free_slot cl i \<longleftrightarrow> i < unat (count cl) \<and> handler (callbacks cl ! i) = Default_handler \<and>
     (\<forall>j < i. handler (callbacks cl ! j) \<noteq> Default_handler)"

lemma add_from_cases:
  assumes ok: "callback_list_ok cl"
    and before: "\<forall>j < unat i. handler (callbacks cl ! j) \<noteq> Default_handler"
    and le: "unat i \<le> unat (count cl)"
  shows "(\<exists>k. free_slot cl (unat k) \<and> add_from debug cl h wk i
            = Some (k, cl\<lparr>callbacks := (callbacks cl)[unat k := callback_set (callbacks cl ! unat k) h wk]\<rparr>))
       \<or> (\<forall>j < unat (count cl). handler (callbacks cl ! j) \<noteq> Default_handler) \<and>
          add_from debug cl h wk i = (if debug then None else Some (255, cl))"
  using before le
proof (induction i rule: u8_induct [where n = "count cl"])
  case (step i)
  show ?case
  proof (cases "i < count cl")
    case True
    then have lt: "unat i < unat (count cl)" by (simp add: word_less_nat_alt)
    have rd: "read_at (callbacks cl) (ucast i) = Some (callbacks cl ! unat i)"
      using lt callback_list_okD(2) [OF ok] by simp
    show ?thesis
    proof (cases "handler (callbacks cl ! unat i) = Default_handler")
      case free: True
      then have "free_slot cl (unat i)" using lt step.prems(1) by (simp add: free_slot_def)
      with rd True free show ?thesis by (subst (1 2) add_from.simps) auto
    next
      case False
      have su: "unat (i + 1) = Suc (unat i)" by (rule unat8_Suc [OF True])
      have "\<forall>j < unat (i + 1). handler (callbacks cl ! j) \<noteq> Default_handler"
        using step.prems(1) False su by (auto simp: less_Suc_eq)
      moreover have "add_from debug cl h wk i = add_from debug cl h wk (i + 1)"
        using rd True False by (subst add_from.simps) simp
      ultimately show ?thesis using step.IH [OF True] su lt by simp
    qed
  next
    case False
    then have eq: "i = count cl" using step.prems(2) by (simp add: word_le_nat_alt not_less antisym)
    then have "add_from debug cl h wk i = (if debug then None else Some (255, cl))"
      by (subst add_from.simps) auto
    with step.prems(1) eq show ?thesis by auto
  qed
qed

lemma callback_list_callback_add_cases:
  assumes ok: "callback_list_ok cl"
  obtains (slot) k where "free_slot cl (unat k)"
      "callback_list_callback_add debug cl h wk
        = Some (k, cl\<lparr>callbacks := (callbacks cl)[unat k := callback_set (callbacks cl ! unat k) h wk]\<rparr>)"
  | (full) "\<forall>j < unat (count cl). handler (callbacks cl ! j) \<noteq> Default_handler"
      "callback_list_callback_add debug cl h wk = (if debug then None else Some (255, cl))"
  using add_from_cases [OF ok, of 0 debug h wk] callback_list_okD(1) [OF ok]
  by (auto simp: callback_list_callback_add_def)

lemma callback_list_callback_remove_eq:
  assumes ok: "callback_list_ok cl" and "unat i < unat (count cl)"
  shows "callback_list_callback_remove debug cl i
     = Some (cl\<lparr>callbacks := (callbacks cl)[unat i := callback_init (callbacks cl ! unat i)]\<rparr>)"
  using assms callback_list_okD(1,2) [OF ok]
  by (simp add: callback_list_callback_remove_def word_less_nat_alt callback_init_def)

section \<open>Running the callbacks\<close>

text \<open>The user functions a list holds, in slot order, with their arguments.\<close>

fun pending :: "callback list \<Rightarrow> (u32 \<times> u32) list" where
  "pending [] = []"
| "pending (cb # cbs) =
     (case handler cb of User_handler f \<Rightarrow> [(f, work cb)] | _ \<Rightarrow> []) @ pending cbs"

lemma pending_cleared [simp]: "pending (map callback_init cbs) = []"
  by (induction cbs) auto

lemma process_from_eq:
  assumes run: "\<And>f wk cl w. run f wk (cl, w) = Some (cl, eff f wk w)"
    and "callback_list_ok cl" and "unat i \<le> unat (count cl)"
  shows "process_from run clear i (cl, w)
     = Some (cl\<lparr>callbacks := take (unat i) (callbacks cl) @
                 (if clear then map callback_init else id) (drop (unat i) (callbacks cl))\<rparr>,
             fold (\<lambda>(f, wk). eff f wk) (pending (drop (unat i) (callbacks cl))) w)"
  using assms(2,3)
proof (induction "unat (count cl) - unat i" arbitrary: i cl w)
  case 0
  then have "i = count cl" by (simp add: word_unat_eq_iff)
  with 0 callback_list_okD(2) [OF 0(2)] show ?case by (subst process_from.simps) simp
next
  case (Suc n)
  let ?cbs = "callbacks cl"
  let ?cb = "?cbs ! unat i"
  let ?cl = "if clear then cl\<lparr>callbacks := ?cbs[unat i := callback_init ?cb]\<rparr> else cl"
  have lt: "unat i < unat (count cl)" using Suc.hyps(2) by linarith
  then have lt': "i < count cl" by (simp add: word_less_nat_alt)
  note len = callback_list_okD(2) [OF Suc.prems(1)]
  have su: "unat (i + 1) = Suc (unat i)" by (rule unat8_Suc [OF lt'])
  have ok': "callback_list_ok ?cl" using Suc.prems(1) by (simp add: update_slot_ok)
  have nn: "handler ?cb \<noteq> Null_handler" by (rule callback_list_okD(3) [OF Suc.prems(1) lt])
  have d: "drop (unat i) ?cbs = ?cb # drop (Suc (unat i)) ?cbs"
    using lt len by (simp add: Cons_nth_drop_Suc)
  have t: "take (Suc (unat i)) (callbacks ?cl)
      = take (unat i) ?cbs @ [if clear then callback_init ?cb else ?cb]"
    using lt len by (simp add: take_Suc_conv_app_nth)
  define w' where "w' = (case handler ?cb of User_handler f \<Rightarrow> eff f (work ?cb) w | _ \<Rightarrow> w)"
  have call: "call_handler run (handler ?cb) (work ?cb) (?cl, w) = Some (?cl, w')"
    using nn by (cases "handler ?cb") (simp_all add: run w'_def)
  have "process_from run clear i (cl, w) = process_from run clear (i + 1) (?cl, w')"
    using lt' lt len call by (subst process_from.simps) (simp add: Let_def)
  also have "\<dots> = Some (?cl\<lparr>callbacks := take (unat (i + 1)) (callbacks ?cl) @
                 (if clear then map callback_init else id) (drop (unat (i + 1)) (callbacks ?cl))\<rparr>,
             fold (\<lambda>(f, wk). eff f wk) (pending (drop (unat (i + 1)) (callbacks ?cl))) w')"
    using Suc.hyps(2) lt su by (intro Suc.hyps(1)) (auto simp: ok' simp del: if_image_distrib)
  also have "\<dots> = Some (cl\<lparr>callbacks := take (unat i) ?cbs @
                 (if clear then map callback_init else id) (drop (unat i) ?cbs)\<rparr>,
             fold (\<lambda>(f, wk). eff f wk) (pending (drop (unat i) ?cbs)) w)"
    unfolding su t d using nn by (cases "handler ?cb") (auto simp: w'_def)
  finally show ?case .
qed
section \<open>Properties\<close>

text \<open>C22: On a well-formed list, in a build without \<open>DEBUG\<close>, adding a user function returns the
  index of the first free slot and stores the function with its argument there, in that slot
  only. It returns 255 exactly when no slot is free, and changes nothing then; 255 is never the
  index of a slot. Removing the index just returned restores the free slot.\<close>

theorem callback_list_add_correct:
  assumes ok: "callback_list_ok cl"
  shows "\<exists>i cl'. callback_list_callback_add False cl (User_handler f) wk = Some (i, cl') \<and>
    callback_list_ok cl' \<and> count cl' = count cl \<and>
    (if \<exists>j < unat (count cl). handler (callbacks cl ! j) = Default_handler
     then i \<noteq> 255 \<and> free_slot cl (unat i) \<and>
       callbacks cl' ! unat i = \<lparr>handler = User_handler f, work = wk\<rparr> \<and>
       (\<forall>j. j \<noteq> unat i \<longrightarrow> callbacks cl' ! j = callbacks cl ! j) \<and>
       (\<exists>cl''. callback_list_callback_remove False cl' i = Some cl'' \<and>
          callbacks cl'' = (callbacks cl)[unat i := \<lparr>handler = Default_handler, work = 0\<rparr>])
     else i = 255 \<and> cl' = cl)"
  using ok
proof (cases rule: callback_list_callback_add_cases [where debug = False and h = "User_handler f" and wk = wk])
  case (slot k)
  let ?cl = "cl\<lparr>callbacks := (callbacks cl)[unat k := callback_set (callbacks cl ! unat k) (User_handler f) wk]\<rparr>"
  have lt: "unat k < unat (count cl)" "unat k < length (callbacks cl)"
    using slot(1) callback_list_okD(2) [OF ok] by (auto simp: free_slot_def)
  have ok': "callback_list_ok ?cl" by (rule update_slot_ok [OF ok]) simp
  have "k \<noteq> 255"
  proof
    assume "k = 255"
    moreover have "unat (count cl) < 256" using unsigned_less [of "count cl"] by simp
    ultimately show False using lt(1) by simp
  qed
  moreover have "callback_list_callback_remove False ?cl k = Some (cl\<lparr>callbacks :=
      (callbacks cl)[unat k := \<lparr>handler = Default_handler, work = 0\<rparr>]\<rparr>)"
    using callback_list_callback_remove_eq [OF ok', of k False] lt
    by (simp add: callback_init_eq)
  ultimately show ?thesis
    using slot ok' lt by (auto simp: callback_set_eq free_slot_def)
next
  case full
  then show ?thesis using ok by auto
qed

theorem callback_list_add_correct_witness:
  "callback_list_ok \<lparr>callbacks = [\<lparr>handler = User_handler 5, work = 1\<rparr>, \<lparr>handler = Default_handler, work = 0\<rparr>],
     count = 2\<rparr> \<and>
   (\<exists>i cl'. callback_list_callback_add False
       \<lparr>callbacks = [\<lparr>handler = User_handler 5, work = 1\<rparr>, \<lparr>handler = Default_handler, work = 0\<rparr>], count = 2\<rparr>
       (User_handler 7) 9 = Some (i, cl') \<and> callback_list_ok cl')"
proof -
  let ?cl = "\<lparr>callbacks = [\<lparr>handler = User_handler 5, work = 1\<rparr>, \<lparr>handler = Default_handler, work = 0\<rparr>],
     count = 2\<rparr>"
  have ok: "callback_list_ok ?cl" by (simp add: callback_list_ok_def)
  from callback_list_add_correct [OF ok, of 7 9] ok show ?thesis by blast
qed

text \<open>C21: Processing a well-formed list calls every user function in it exactly once, in slot
  order, with the argument it was added with, when the functions leave the list itself alone;
  with \<open>clear\<close> every slot is free afterwards, without it the list is as before.\<close>

theorem callback_list_process_correct:
  assumes "\<And>f wk cl w. run f wk (cl, w) = Some (cl, eff f wk w)" and "callback_list_ok cl"
  shows "callback_list_process run clear (cl, w)
     = Some (if clear then cl\<lparr>callbacks := map callback_init (callbacks cl)\<rparr> else cl,
             fold (\<lambda>(f, wk). eff f wk) (pending (callbacks cl)) w)"
  using process_from_eq [where i = 0 and clear = clear and w = w, OF assms(1,2)] callback_list_okD(1) [OF assms(2)]
  by (simp add: callback_list_process_def)

theorem callback_list_process_correct_witness:
  "callback_list_process (\<lambda>f wk (cl, w). Some (cl, w @ [(f, wk)])) True
     (\<lparr>callbacks = [\<lparr>handler = User_handler 5, work = 1\<rparr>, \<lparr>handler = User_handler 7, work = 2\<rparr>], count = 2\<rparr>, [])
   = Some (\<lparr>callbacks = [\<lparr>handler = Default_handler, work = 0\<rparr>, \<lparr>handler = Default_handler, work = 0\<rparr>],
            count = 2\<rparr>, [(5, 1), (7, 2)])"
proof -
  let ?run = "\<lambda>f wk (cl :: callback_list, w). Some (cl, w @ [(f, wk)])"
  let ?cl = "\<lparr>callbacks = [\<lparr>handler = User_handler 5, work = 1\<rparr>, \<lparr>handler = User_handler 7, work = 2\<rparr>],
     count = 2\<rparr>"
  have run: "?run f wk (cl, w) = Some (cl, (\<lambda>f wk w. w @ [(f, wk)]) f wk w)" for f wk cl w by simp
  have ok: "callback_list_ok ?cl" by (simp add: callback_list_ok_def)
  show ?thesis
    using callback_list_process_correct [of ?run, OF run ok, of True "[]"]
    by (simp add: callback_init_def)
qed

end
