(* ===== verification/Scu_Dma.thy ===== *)
theory Scu_Dma
  imports Callback_List
begin

text \<open>
  The SCU-DMA driver: \<open>libyaul/scu/scu_dma.c\<close> and \<open>scu/scu/dma.h\<close>, with the few CPU and SCU
  interrupt-controller primitives it and the DMA queue use (\<open>cpu/intc.h\<close>, \<open>cpu_cache.c\<close>,
  \<open>scu/ic.h\<close>).

  The hardware is an environment, not code of the repository. What the driver writes is recorded:
  \<open>scu_writes\<close> is the sequence of 32-bit writes to SCU registers, oldest first, and \<open>ims\<close> the last
  value written to the interrupt mask. What it reads is a parameter \<open>hw\<close>: \<open>hw_dsta hw n\<close> is the
  value of the status register DSTA at poll number \<open>n\<close>, and \<open>hw_irq hw n\<close> the DMA levels whose
  level-end interrupt is taken just before that poll. The poll counter \<open>clock\<close> belongs to the state.
  The user's end-of-transfer callbacks are a parameter \<open>run\<close>.
\<close>

section \<open>Machine state\<close>

text \<open>The handlers this part of the library installs in the BIOS interrupt table; \<open>Ihr_null\<close> selects
  the BIOS' own empty handler.\<close>

datatype ihr = Ihr_null | Ihr_dma_level s32 | Ihr_dma_illegal

record level_state =
  flags :: u8
  level_callback :: callback

record machine =
  sr :: u32
  ccr :: u8
  ims :: u32
  ihrs :: "u32 \<Rightarrow> ihr"
  scu_writes :: "(u32 \<times> u32) list"
  levels :: "level_state list"
  clock :: nat

record hardware =
  hw_dsta :: "nat \<Rightarrow> u32"
  hw_irq :: "nat \<Rightarrow> s32 list"

section \<open>CPU and SCU primitives\<close>

definition CPU_SR_I_BITS_MASK :: u32 where "CPU_SR_I_BITS_MASK = 0x000000F0"

definition cpu_intc_mask_get :: "'a machine_scheme \<Rightarrow> u8" where
  "cpu_intc_mask_get m = ucast (drop_bit 4 (sr m AND CPU_SR_I_BITS_MASK))"

definition cpu_intc_mask_set :: "u8 \<Rightarrow> 'a machine_scheme \<Rightarrow> 'a machine_scheme" where
  "cpu_intc_mask_set lvl m =
     m\<lparr>sr := (sr m AND NOT CPU_SR_I_BITS_MASK) OR (push_bit 4 (ucast lvl) AND CPU_SR_I_BITS_MASK)\<rparr>"

definition cpu_cache_purge :: "'a machine_scheme \<Rightarrow> 'a machine_scheme" where
  "cpu_cache_purge m =
     (let t0 = ccr m; t0 = t0 AND NOT 0x01; t0 = t0 OR 0x10; t0 = t0 OR 0x01 in m\<lparr>ccr := t0\<rparr>)"

definition scu_ic_ihr_set :: "u32 \<Rightarrow> ihr \<Rightarrow> 'a machine_scheme \<Rightarrow> 'a machine_scheme" where
  "scu_ic_ihr_set vector h m = m\<lparr>ihrs := (ihrs m)(vector := h)\<rparr>"

definition scu_ic_mask_get :: "'a machine_scheme \<Rightarrow> u32" where
  "scu_ic_mask_get m = ims m"

definition scu_ic_mask_set :: "u32 \<Rightarrow> 'a machine_scheme \<Rightarrow> 'a machine_scheme" where
  "scu_ic_mask_set v m = m\<lparr>ims := v\<rparr>"

definition scu_ic_mask_chg :: "u32 \<Rightarrow> u32 \<Rightarrow> 'a machine_scheme \<Rightarrow> 'a machine_scheme" where
  "scu_ic_mask_chg and_mask or_mask m = m\<lparr>ims := (ims m AND and_mask) OR or_mask\<rparr>"

definition SCU :: "u32 \<Rightarrow> u32" where
  "SCU x = 0x25FE0000 + x"

definition MEMORY_WRITE :: "u32 \<Rightarrow> u32 \<Rightarrow> 'a machine_scheme \<Rightarrow> 'a machine_scheme" where
  "MEMORY_WRITE x y m = m\<lparr>scu_writes := scu_writes m @ [(x, y)]\<rparr>"

section \<open>Handles and configurations\<close>

record scu_dma_handle =
  dnr :: u32
  dnw :: u32
  dnc :: u32
  dnad :: u32
  dnmd :: u32

record scu_dma_xfer =
  xlen :: u32
  xdst :: u32
  xsrc :: u32

text \<open>The union \<open>scu_dma_xfer_type_t\<close> overlays the table pointer \<open>indirect\<close> on the first word of the
  3-tuple \<open>direct\<close>.\<close>

definition xfer_indirect :: "scu_dma_xfer \<Rightarrow> u32" where
  "xfer_indirect x = xlen x"

record scu_dma_level_cfg =
  mode :: u8
  stride :: u8
  update :: u32
  xfer :: scu_dma_xfer

definition CPU_CACHE_THROUGH :: u32 where "CPU_CACHE_THROUGH = 0x20000000"

definition SCU_DMA_INDIRECT_TABLE_END :: u32 where "SCU_DMA_INDIRECT_TABLE_END = 0x80000000"

definition SCU_DMA_MODE_XFER_INITIALIZER :: "u32 \<Rightarrow> u32 \<Rightarrow> u32 \<Rightarrow> scu_dma_xfer" where
  "SCU_DMA_MODE_XFER_INITIALIZER l d s = \<lparr>xlen = l, xdst = d, xsrc = s\<rparr>"

definition SCU_DMA_MODE_XFER_END_INITIALIZER :: "u32 \<Rightarrow> u32 \<Rightarrow> u32 \<Rightarrow> scu_dma_xfer" where
  "SCU_DMA_MODE_XFER_END_INITIALIZER l d s =
     \<lparr>xlen = l, xdst = d, xsrc = SCU_DMA_INDIRECT_TABLE_END OR s\<rparr>"

definition scu_dma_config_buffer ::
  "scu_dma_handle \<Rightarrow> scu_dma_level_cfg \<Rightarrow> scu_dma_handle option" where
  "scu_dma_config_buffer h cfg =
     (let h = h\<lparr>dnmd := dnmd h AND NOT 0x01010107\<rparr> in
      (if mode cfg AND 0x01 = 0 then
         assert_c (xlen (xfer cfg) \<noteq> 0) \<bind> (\<lambda>_.
         assert_c (xdst (xfer cfg) \<noteq> 0) \<bind> (\<lambda>_.
         assert_c (xsrc (xfer cfg) \<noteq> 0) \<bind> (\<lambda>_.
           Some (h\<lparr>dnw := CPU_CACHE_THROUGH OR xdst (xfer cfg),
                   dnr := CPU_CACHE_THROUGH OR xsrc (xfer cfg),
                   dnc := xlen (xfer cfg)\<rparr>))))
       else
         assert_c (xfer_indirect (xfer cfg) \<noteq> 0) \<bind> (\<lambda>_.
           Some (h\<lparr>dnw := CPU_CACHE_THROUGH OR xfer_indirect (xfer cfg),
                   dnr := 0, dnc := 0, dnmd := dnmd h OR 0x01000000\<rparr>))) \<bind> (\<lambda>h.
      Some (h\<lparr>dnad := 0x00000100 OR ucast (stride cfg AND 0x07),
              dnmd := dnmd h OR (update cfg AND 0x00010100)\<rparr>)))"

section \<open>Levels\<close>

definition LEVEL_STATE_IDLING :: u8 where "LEVEL_STATE_IDLING = 0x00"
definition LEVEL_STATE_WORKING :: u8 where "LEVEL_STATE_WORKING = 0x01"

definition REGISTER_BLOCK_OFFSET :: "s32 \<Rightarrow> u32" where
  "REGISTER_BLOCK_OFFSET level = push_bit 5 (level AND 3)"

definition set_flags :: "s32 \<Rightarrow> u8 \<Rightarrow> 'a machine_scheme \<Rightarrow> 'a machine_scheme option" where
  "set_flags level v m =
     read_at (levels m) level \<bind> (\<lambda>st.
       Some (m\<lparr>levels := (levels m)[unat level := st\<lparr>flags := v\<rparr>]\<rparr>))"

text \<open>\<open>scu_dma_level_busy\<close> on a given reading of DSTA, with the three per-level masks.\<close>

definition scu_dma_level_busy :: "u32 \<Rightarrow> s32 \<Rightarrow> u32" where
  "scu_dma_level_busy sta level =
     (if level AND 3 = 1 then sta AND 0x00020300
      else if level AND 3 = 2 then sta AND 0x00003000
      else sta AND 0x00010030)"

text \<open>The level-end interrupt handlers, and an interrupt as the BIOS dispatches it.\<close>

definition scu_dma_level_handler ::
  "(u32 \<Rightarrow> u32 \<Rightarrow> 'a machine_scheme \<Rightarrow> 'a machine_scheme option) \<Rightarrow> s32
     \<Rightarrow> 'a machine_scheme \<Rightarrow> 'a machine_scheme option" where
  "scu_dma_level_handler run level m =
     set_flags level LEVEL_STATE_IDLING m \<bind> (\<lambda>m.
       read_at (levels m) level \<bind> (\<lambda>st. callback_call run (level_callback st) m))"

definition level_end_irq ::
  "(u32 \<Rightarrow> u32 \<Rightarrow> 'a machine_scheme \<Rightarrow> 'a machine_scheme option) \<Rightarrow> s32
     \<Rightarrow> 'a machine_scheme \<Rightarrow> 'a machine_scheme option" where
  "level_end_irq run level m =
     (case ihrs m (0x4B - level) of
        Ihr_null \<Rightarrow> Some m
      | Ihr_dma_level l \<Rightarrow> scu_dma_level_handler run l m
      | Ihr_dma_illegal \<Rightarrow> None)"

fun take_irqs ::
  "(u32 \<Rightarrow> u32 \<Rightarrow> 'a machine_scheme \<Rightarrow> 'a machine_scheme option) \<Rightarrow> s32 list
     \<Rightarrow> 'a machine_scheme \<Rightarrow> 'a machine_scheme option" where
  "take_irqs run [] m = Some m"
| "take_irqs run (l # ls) m = level_end_irq run l m \<bind> take_irqs run ls"

partial_function (option) scu_dma_level_wait ::
  "hardware \<Rightarrow> (u32 \<Rightarrow> u32 \<Rightarrow> 'a machine_scheme \<Rightarrow> 'a machine_scheme option) \<Rightarrow> s32
     \<Rightarrow> 'a machine_scheme \<Rightarrow> 'a machine_scheme option" where
  "scu_dma_level_wait hw run level m =
     take_irqs run (hw_irq hw (clock m)) m \<bind> (\<lambda>m.
       read_at (levels m) level \<bind> (\<lambda>st.
         let t = clock m; m = m\<lparr>clock := t + 1\<rparr> in
         if flags st \<noteq> LEVEL_STATE_WORKING then Some m
         else if scu_dma_level_busy (hw_dsta hw t) level = 0 then Some m
         else scu_dma_level_wait hw run level m))"

declare scu_dma_level_wait.simps [code]

definition scu_dma_level_fast_start :: "s32 \<Rightarrow> 'a machine_scheme \<Rightarrow> 'a machine_scheme" where
  "scu_dma_level_fast_start level m =
     MEMORY_WRITE (SCU (0x0010 OR REGISTER_BLOCK_OFFSET level)) 0x00000101 m"

definition scu_dma_level_start ::
  "hardware \<Rightarrow> (u32 \<Rightarrow> u32 \<Rightarrow> 'a machine_scheme \<Rightarrow> 'a machine_scheme option) \<Rightarrow> s32
     \<Rightarrow> 'a machine_scheme \<Rightarrow> 'a machine_scheme option" where
  "scu_dma_level_start hw run level m =
     (if level = 2 then scu_dma_level_wait hw run 1 m else Some m) \<bind> (\<lambda>m.
       scu_dma_level_wait hw run level m \<bind> (\<lambda>m. Some (scu_dma_level_fast_start level m)))"

definition scu_dma_level_stop :: "s32 \<Rightarrow> 'a machine_scheme \<Rightarrow> 'a machine_scheme option" where
  "scu_dma_level_stop level m =
     set_flags level LEVEL_STATE_IDLING
       (MEMORY_WRITE (SCU (0x0010 OR REGISTER_BLOCK_OFFSET level)) 0x00000000 m)"

definition scu_dma_stop :: "'a machine_scheme \<Rightarrow> 'a machine_scheme option" where
  "scu_dma_stop m =
     scu_dma_level_stop 0 m \<bind> scu_dma_level_stop 1 \<bind> scu_dma_level_stop 2"

definition scu_dma_illegal_set :: "ihr \<Rightarrow> 'a machine_scheme \<Rightarrow> 'a machine_scheme" where
  "scu_dma_illegal_set h = scu_ic_ihr_set 0x4C h"

text \<open>The six registers of a level are written through a pointer that starts at its block.\<close>

definition scu_dma_config_set ::
  "hardware \<Rightarrow> (u32 \<Rightarrow> u32 \<Rightarrow> 'a machine_scheme \<Rightarrow> 'a machine_scheme option) \<Rightarrow> s32 \<Rightarrow> u32
     \<Rightarrow> scu_dma_handle \<Rightarrow> 'a machine_scheme \<Rightarrow> 'a machine_scheme option" where
  "scu_dma_config_set hw run level start_factor h m =
     assert_c (sint level \<le> 2) \<bind> (\<lambda>_.
     assert_c (start_factor \<le> 7) \<bind> (\<lambda>_.
     (if level = 2 then scu_dma_level_wait hw run 1 m else Some m) \<bind> (\<lambda>m.
     scu_dma_level_wait hw run level m \<bind> (\<lambda>m.
     scu_dma_level_stop level m \<bind> (\<lambda>m.
     set_flags level LEVEL_STATE_WORKING m \<bind> (\<lambda>m.
       let reg = SCU (REGISTER_BLOCK_OFFSET level);
           m = MEMORY_WRITE reg (dnr h) m;
           m = MEMORY_WRITE (reg + 4) (dnw h) m;
           m = MEMORY_WRITE (reg + 8) (dnc h) m;
           m = MEMORY_WRITE (reg + 12) (dnad h) m;
           m = MEMORY_WRITE (reg + 20) (dnmd h OR start_factor) m
       in Some (if start_factor \<noteq> 7 then MEMORY_WRITE (reg + 16) 0x00000100 m else m)))))))"

definition scu_dma_level_end_set ::
  "s32 \<Rightarrow> callback_handler \<Rightarrow> u32 \<Rightarrow> 'a machine_scheme \<Rightarrow> 'a machine_scheme option" where
  "scu_dma_level_end_set level h wk m =
     read_at (levels m) level \<bind> (\<lambda>st.
       Some (m\<lparr>levels := (levels m)[unat level :=
                st\<lparr>level_callback := callback_set (level_callback st) h wk\<rparr>]\<rparr>))"

text \<open>Each call reads DSTA again.\<close>

definition scu_dma_level_unused_get ::
  "hardware \<Rightarrow> 'a machine_scheme \<Rightarrow> s32 \<times> 'a machine_scheme" where
  "scu_dma_level_unused_get hw m =
     (let t = clock m in
      if scu_dma_level_busy (hw_dsta hw t) 0 \<noteq> 0 then (0, m\<lparr>clock := t + 1\<rparr>)
      else if scu_dma_level_busy (hw_dsta hw (t + 1)) 1 \<noteq> 0 then (1, m\<lparr>clock := t + 2\<rparr>)
      else if scu_dma_level_busy (hw_dsta hw (t + 2)) 2 \<noteq> 0 then (2, m\<lparr>clock := t + 3\<rparr>)
      else (-1, m\<lparr>clock := t + 3\<rparr>))"

fun init_levels :: "level_state list \<Rightarrow> level_state list" where
  "init_levels sts =
     map (\<lambda>st. st\<lparr>flags := LEVEL_STATE_IDLING, level_callback := callback_init (level_callback st)\<rparr>) sts"

definition internal_scu_dma_init :: "'a machine_scheme \<Rightarrow> 'a machine_scheme option" where
  "internal_scu_dma_init m =
     scu_dma_stop m \<bind> (\<lambda>m.
       let scu_mask = 0x00000800 OR 0x00000400 OR 0x00000200 OR 0x00001000;
           m = scu_ic_mask_chg 0x0000BFFF scu_mask m;
           m = scu_ic_ihr_set 0x4B (Ihr_dma_level 0) m;
           m = scu_ic_ihr_set 0x4A (Ihr_dma_level 1) m;
           m = scu_ic_ihr_set 0x49 (Ihr_dma_level 2) m;
           m = scu_dma_illegal_set Ihr_null m;
           m = m\<lparr>levels := init_levels (levels m)\<rparr>
       in Some (scu_ic_mask_chg (NOT scu_mask) 0 m))"

section \<open>The driver under a well-behaved environment\<close>

text \<open>The state the driver keeps after \<open>_internal_scu_dma_init\<close>: three levels, their end interrupts
  dispatched to their handlers, no callback \<open>NULL\<close>.\<close>

definition machine_ok :: "'a machine_scheme \<Rightarrow> bool" where
  "machine_ok m \<longleftrightarrow> length (levels m) = 3 \<and>
     (\<forall>st \<in> set (levels m). handler (level_callback st) \<noteq> Null_handler) \<and>
     (\<forall>l. unat l < 3 \<longrightarrow> ihrs m (0x4B - l) = Ihr_dma_level l)"

text \<open>
  What the driver relies on. A user callback returns, touches neither the SCU nor the driver's
  tables, and takes no poll; only the three levels raise level-end interrupts; and a level that
  is polled for ever is found idle at some poll.
\<close>

definition quiet_callback ::
  "(u32 \<Rightarrow> u32 \<Rightarrow> 'a machine_scheme \<Rightarrow> 'a machine_scheme option) \<Rightarrow> bool" where
  "quiet_callback run \<longleftrightarrow> (\<forall>f wk m. machine_ok m \<longrightarrow>
     (\<exists>m'. run f wk m = Some m' \<and> machine_ok m' \<and> clock m' = clock m \<and>
        scu_writes m' = scu_writes m \<and> machine.more m' = machine.more m))"

definition live_hardware :: "hardware \<Rightarrow> bool" where
  "live_hardware hw \<longleftrightarrow> (\<forall>n. \<forall>l \<in> set (hw_irq hw n). unat l < 3) \<and>
     (\<forall>n level. unat level < 3 \<longrightarrow> (\<exists>k \<ge> n. scu_dma_level_busy (hw_dsta hw k) level = 0))"

lemma quiet_callbackD:
  assumes "quiet_callback run" and "machine_ok m"
  obtains m' where "run f wk m = Some m'" "machine_ok m'" "clock m' = clock m"
    "scu_writes m' = scu_writes m" "machine.more m' = machine.more m"
  using assms unfolding quiet_callback_def by meson

lemma live_hardwareD:
  assumes "live_hardware hw"
  shows "l \<in> set (hw_irq hw n) \<Longrightarrow> unat l < 3"
    and "unat level < 3 \<Longrightarrow> \<exists>k \<ge> n. scu_dma_level_busy (hw_dsta hw k) level = 0"
  using assms unfolding live_hardware_def by meson+

text \<open>One state is reached from another by polling only.\<close>

definition polled :: "'a machine_scheme \<Rightarrow> 'a machine_scheme \<Rightarrow> bool" where
  "polled m m' \<longleftrightarrow> machine_ok m' \<and> clock m \<le> clock m' \<and>
     scu_writes m' = scu_writes m \<and> machine.more m' = machine.more m"

lemma polled_refl: "machine_ok m \<Longrightarrow> polled m m"
  by (simp add: polled_def)

lemma polled_trans: "polled m m1 \<Longrightarrow> polled m1 m2 \<Longrightarrow> polled m m2"
  by (auto simp: polled_def)

lemma polled_ok: "polled m m' \<Longrightarrow> machine_ok m'"
  by (simp add: polled_def)

lemma machine_ok_clock [simp]: "machine_ok (m\<lparr>clock := n\<rparr>) = machine_ok m"
  by (simp add: machine_ok_def)

lemma machine_ok_MEMORY_WRITE [simp]: "machine_ok (MEMORY_WRITE x y m) = machine_ok m"
  by (simp add: machine_ok_def MEMORY_WRITE_def)

lemma set_flags_eq:
  assumes "machine_ok m" and "unat level < 3"
  shows "set_flags level v m
     = Some (m\<lparr>levels := (levels m)[unat level := (levels m ! unat level)\<lparr>flags := v\<rparr>]\<rparr>)"
  using assms by (simp add: set_flags_def machine_ok_def)

lemma set_flags_ok:
  assumes "machine_ok m" and "unat level < 3"
  shows "machine_ok (m\<lparr>levels := (levels m)[unat level := (levels m ! unat level)\<lparr>flags := v\<rparr>]\<rparr>)"
  using assms unfolding machine_ok_def
  by (auto dest!: set_update_subset_insert [THEN subsetD])

lemma level_end_irq_quiet:
  assumes run: "quiet_callback run" and ok: "machine_ok m" and lt: "unat level < 3"
  shows "\<exists>m'. level_end_irq run level m = Some m' \<and> machine_ok m' \<and> clock m' = clock m \<and>
           scu_writes m' = scu_writes m \<and> machine.more m' = machine.more m"
proof -
  let ?m = "m\<lparr>levels := (levels m)[unat level := (levels m ! unat level)\<lparr>flags := LEVEL_STATE_IDLING\<rparr>]\<rparr>"
  let ?cb = "level_callback (levels m ! unat level)"
  have len: "unat level < length (levels m)" using ok lt by (simp add: machine_ok_def)
  have ok': "machine_ok ?m" by (rule set_flags_ok [OF ok lt])
  have nn: "handler ?cb \<noteq> Null_handler" using ok len by (simp add: machine_ok_def)
  have "level_end_irq run level m = call_handler run (handler ?cb) (work ?cb) ?m"
    using ok lt len nn set_flags_eq [OF ok lt]
    by (simp add: level_end_irq_def machine_ok_def scu_dma_level_handler_def callback_call_def)
  moreover have "\<exists>m'. call_handler run (handler ?cb) (work ?cb) ?m = Some m' \<and> machine_ok m' \<and>
      clock m' = clock ?m \<and> scu_writes m' = scu_writes ?m \<and> machine.more m' = machine.more ?m"
  proof (cases "handler ?cb")
    case (User_handler f)
    obtain m' where "run f (work ?cb) ?m = Some m'" "machine_ok m'" "clock m' = clock ?m"
        "scu_writes m' = scu_writes ?m" "machine.more m' = machine.more ?m"
      by (rule quiet_callbackD [OF run ok'])
    with User_handler show ?thesis by simp
  qed (use nn ok' in auto)
  ultimately show ?thesis by simp
qed

lemma take_irqs_quiet:
  assumes run: "quiet_callback run" and "machine_ok m" and "\<forall>l \<in> set ls. unat l < 3"
  shows "\<exists>m'. take_irqs run ls m = Some m' \<and> machine_ok m' \<and> clock m' = clock m \<and>
           scu_writes m' = scu_writes m \<and> machine.more m' = machine.more m"
  using assms(2,3)
proof (induction ls arbitrary: m)
  case Nil
  then show ?case by simp
next
  case (Cons l ls)
  obtain m1 where "level_end_irq run l m = Some m1" "machine_ok m1" "clock m1 = clock m"
      "scu_writes m1 = scu_writes m" "machine.more m1 = machine.more m"
    using level_end_irq_quiet [OF run Cons.prems(1), of l] Cons.prems(2) by auto
  with Cons.IH [of m1] Cons.prems(2) show ?case by auto
qed

lemma scu_dma_level_wait_returns:
  assumes run: "quiet_callback run" and hw: "live_hardware hw"
    and ok: "machine_ok m" and lt: "unat level < 3"
  shows "\<exists>m'. scu_dma_level_wait hw run level m = Some m' \<and> polled m m' \<and> clock m < clock m' \<and>
    (flags (levels m' ! unat level) \<noteq> LEVEL_STATE_WORKING \<or>
     scu_dma_level_busy (hw_dsta hw (clock m' - 1)) level = 0)"
proof -
  obtain k where "k \<ge> clock m" "scu_dma_level_busy (hw_dsta hw k) level = 0"
    using live_hardwareD(2) [OF hw lt] by blast
  then show ?thesis using ok
  proof (induction "k - clock m" arbitrary: m rule: less_induct)
    case less
    obtain m1 where m1: "take_irqs run (hw_irq hw (clock m)) m = Some m1" "machine_ok m1"
        "clock m1 = clock m" "scu_writes m1 = scu_writes m" "machine.more m1 = machine.more m"
      using take_irqs_quiet [OF run less.prems(3), of "hw_irq hw (clock m)"] live_hardwareD(1) [OF hw]
      by blast
    have rd: "read_at (levels m1) level = Some (levels m1 ! unat level)"
      using m1(2) lt by (simp add: machine_ok_def)
    let ?m = "m1\<lparr>clock := clock m + 1\<rparr>"
    have p: "polled m ?m" using m1 by (simp add: polled_def)
    show ?case
    proof (cases "flags (levels m1 ! unat level) \<noteq> LEVEL_STATE_WORKING \<or>
                  scu_dma_level_busy (hw_dsta hw (clock m)) level = 0")
      case True
      then have "scu_dma_level_wait hw run level m = Some ?m"
        using m1 rd by (subst scu_dma_level_wait.simps) (auto simp: Let_def)
      with True p show ?thesis by auto
    next
      case False
      then have eq: "scu_dma_level_wait hw run level m = scu_dma_level_wait hw run level ?m"
        using m1 rd by (subst scu_dma_level_wait.simps) (auto simp: Let_def)
      have "clock m \<noteq> k" using False less.prems(2) by auto
      then have lt': "clock m < k" using less.prems(1) by simp
      have "k - clock ?m < k - clock m" using lt' by simp
      from less.hyps [OF this] lt' less.prems(2) m1(2)
      obtain m' where "scu_dma_level_wait hw run level ?m = Some m'" "polled ?m m'" "clock ?m < clock m'"
         "flags (levels m' ! unat level) \<noteq> LEVEL_STATE_WORKING \<or>
          scu_dma_level_busy (hw_dsta hw (clock m' - 1)) level = 0"
        by auto
      with eq polled_trans [OF p] show ?thesis by auto
    qed
  qed
qed
section \<open>The interrupt mask of the CPU\<close>

lemma bit_I_mask: "bit CPU_SR_I_BITS_MASK n \<longleftrightarrow> 4 \<le> n \<and> n < 8"
proof -
  have "list_all (\<lambda>n. bit (0x000000F0 :: u32) n = (4 \<le> n \<and> n < 8)) [0..<32]" by code_simp
  from bit_u32_const [OF this, of n] show ?thesis by (auto simp only: CPU_SR_I_BITS_MASK_def)
qed

lemma bit_intc_mask_get: "bit (cpu_intc_mask_get m) n \<longleftrightarrow> n < 4 \<and> bit (sr m) (n + 4)"
  by (auto simp: cpu_intc_mask_get_def bit_ucast_iff bit_drop_bit_eq bit_and_iff bit_I_mask ac_simps)

lemma cpu_intc_mask_restore:
  assumes "sr m' AND NOT CPU_SR_I_BITS_MASK = sr m AND NOT CPU_SR_I_BITS_MASK"
  shows "cpu_intc_mask_set (cpu_intc_mask_get m) m' = m'\<lparr>sr := sr m\<rparr>"
proof -
  have "(sr m AND NOT CPU_SR_I_BITS_MASK) OR (push_bit 4 (ucast (cpu_intc_mask_get m)) AND CPU_SR_I_BITS_MASK)
      = sr m"
    by (rule bit_word_eqI)
       (auto simp: bit_or_iff bit_and_iff bit_not_iff bit_push_bit_iff bit_ucast_iff bit_intc_mask_get bit_I_mask)
  then show ?thesis by (simp add: cpu_intc_mask_set_def assms)
qed

lemma cpu_intc_mask_set_frame [simp]:
  "sr (cpu_intc_mask_set k m) AND NOT CPU_SR_I_BITS_MASK = sr m AND NOT CPU_SR_I_BITS_MASK"
  by (rule bit_word_eqI)
     (auto simp: cpu_intc_mask_set_def bit_or_iff bit_and_iff bit_not_iff bit_I_mask)

section \<open>Programming a level\<close>

lemma level_cases:
  assumes "unat (level :: s32) < 3"
  shows "level = 0 \<or> level = 1 \<or> level = 2"
proof -
  have "unat level = 0 \<or> unat level = 1 \<or> unat level = 2" using assms by arith
  then show ?thesis by (simp add: word_unat_eq_iff)
qed

definition config_writes :: "s32 \<Rightarrow> u32 \<Rightarrow> scu_dma_handle \<Rightarrow> (u32 \<times> u32) list" where
  "config_writes level start_factor h =
     (let reg = SCU (REGISTER_BLOCK_OFFSET level) in
      [(SCU (0x0010 OR REGISTER_BLOCK_OFFSET level), 0), (reg, dnr h), (reg + 4, dnw h),
       (reg + 8, dnc h), (reg + 12, dnad h), (reg + 20, dnmd h OR start_factor)] @
      (if start_factor \<noteq> 7 then [(reg + 16, 0x100)] else []))"

definition start_write :: "s32 \<Rightarrow> u32 \<times> u32" where
  "start_write level = (SCU (0x0010 OR REGISTER_BLOCK_OFFSET level), 0x101)"

text \<open>The wait for level 1 before level 2 is touched, followed by the wait for the level itself.\<close>

lemma guarded_wait_returns:
  assumes run: "quiet_callback run" and hw: "live_hardware hw"
    and ok: "machine_ok m" and lt: "unat level < 3"
  obtains m' where "((if level = 2 then scu_dma_level_wait hw run 1 m else Some m)
      \<bind> (\<lambda>m. scu_dma_level_wait hw run level m)) = Some m'" "polled m m'"
proof -
  obtain m1 where m1: "(if level = 2 then scu_dma_level_wait hw run 1 m else Some m) = Some m1"
      "polled m m1"
    using scu_dma_level_wait_returns [OF run hw ok, of 1] polled_refl [OF ok] by (cases "level = 2") auto
  obtain m' where "scu_dma_level_wait hw run level m1 = Some m'" "polled m1 m'"
    using scu_dma_level_wait_returns [OF run hw polled_ok [OF m1(2)] lt] by auto
  with m1 polled_trans [OF m1(2)] show thesis by (intro that [of m']) auto
qed

lemma scu_dma_config_set_returns:
  assumes run: "quiet_callback run" and hw: "live_hardware hw"
    and ok: "machine_ok m" and lt: "unat level < 3" and sf: "start_factor \<le> 7"
  shows "\<exists>m'. scu_dma_config_set hw run level start_factor h m = Some m' \<and> machine_ok m' \<and>
    clock m \<le> clock m' \<and> machine.more m' = machine.more m \<and>
    scu_writes m' = scu_writes m @ config_writes level start_factor h \<and>
    flags (levels m' ! unat level) = LEVEL_STATE_WORKING"
proof -
  obtain m1 where m1: "((if level = 2 then scu_dma_level_wait hw run 1 m else Some m)
      \<bind> (\<lambda>m. scu_dma_level_wait hw run level m)) = Some m1" "polled m m1"
    by (rule guarded_wait_returns [OF run hw ok lt])
  let ?w = "MEMORY_WRITE (SCU (0x0010 OR REGISTER_BLOCK_OFFSET level)) 0 m1"
  let ?m2 = "?w\<lparr>levels := (levels ?w)[unat level := (levels ?w ! unat level)\<lparr>flags := LEVEL_STATE_IDLING\<rparr>]\<rparr>"
  let ?m3 = "?m2\<lparr>levels := (levels ?m2)[unat level := (levels ?m2 ! unat level)\<lparr>flags := LEVEL_STATE_WORKING\<rparr>]\<rparr>"
  have ok1: "machine_ok ?w" using polled_ok [OF m1(2)] by simp
  have ok2: "machine_ok ?m2" by (rule set_flags_ok [OF ok1 lt])
  have ok3: "machine_ok ?m3" by (rule set_flags_ok [OF ok2 lt])
  have stop: "scu_dma_level_stop level m1 = Some ?m2"
    unfolding scu_dma_level_stop_def by (rule set_flags_eq [OF ok1 lt])
  have work: "set_flags level LEVEL_STATE_WORKING ?m2 = Some ?m3" by (rule set_flags_eq [OF ok2 lt])
  have s2: "sint level \<le> 2" using level_cases [OF lt] by auto
  have len: "unat level < length (levels m1)" using polled_ok [OF m1(2)] lt by (simp add: machine_ok_def)
  define m' where "m' = (let reg = SCU (REGISTER_BLOCK_OFFSET level);
           m = MEMORY_WRITE reg (dnr h) ?m3;
           m = MEMORY_WRITE (reg + 4) (dnw h) m;
           m = MEMORY_WRITE (reg + 8) (dnc h) m;
           m = MEMORY_WRITE (reg + 12) (dnad h) m;
           m = MEMORY_WRITE (reg + 20) (dnmd h OR start_factor) m
       in if start_factor \<noteq> 7 then MEMORY_WRITE (reg + 16) 0x00000100 m else m)"
  obtain m0 where m0: "(if level = 2 then scu_dma_level_wait hw run 1 m else Some m) = Some m0"
      "scu_dma_level_wait hw run level m0 = Some m1"
    using m1(1) by (auto simp: bind_eq_Some_conv simp del: if_split)
  have "scu_dma_config_set hw run level start_factor h m = Some m'"
    unfolding scu_dma_config_set_def m0(1) using sf s2 m0(2) stop work
    by (simp add: m'_def Let_def)
  moreover have "machine_ok m'" using ok3 by (simp add: m'_def Let_def)
  moreover have "scu_writes m' = scu_writes m @ config_writes level start_factor h"
    using m1(2) by (simp add: m'_def Let_def polled_def MEMORY_WRITE_def config_writes_def)
  moreover have "clock m \<le> clock m'" "machine.more m' = machine.more m"
    using m1(2) by (simp_all add: m'_def Let_def polled_def MEMORY_WRITE_def)
  moreover have "flags (levels m' ! unat level) = LEVEL_STATE_WORKING"
    using len by (simp add: m'_def Let_def MEMORY_WRITE_def)
  ultimately show ?thesis by blast
qed

lemma scu_dma_level_start_returns:
  assumes run: "quiet_callback run" and hw: "live_hardware hw"
    and ok: "machine_ok m" and lt: "unat level < 3"
  shows "\<exists>m'. scu_dma_level_start hw run level m = Some m' \<and> machine_ok m' \<and>
    clock m \<le> clock m' \<and> machine.more m' = machine.more m \<and>
    scu_writes m' = scu_writes m @ [start_write level]"
proof -
  obtain m1 where m1: "((if level = 2 then scu_dma_level_wait hw run 1 m else Some m)
      \<bind> (\<lambda>m. scu_dma_level_wait hw run level m)) = Some m1" "polled m m1"
    by (rule guarded_wait_returns [OF run hw ok lt])
  obtain m0 where "(if level = 2 then scu_dma_level_wait hw run 1 m else Some m) = Some m0"
      "scu_dma_level_wait hw run level m0 = Some m1"
    using m1(1) by (auto simp: bind_eq_Some_conv simp del: if_split)
  then have "scu_dma_level_start hw run level m = Some (scu_dma_level_fast_start level m1)"
    unfolding scu_dma_level_start_def by simp
  then show ?thesis using m1(2)
    by (simp add: polled_def scu_dma_level_fast_start_def start_write_def) (simp add: MEMORY_WRITE_def)
qed

section \<open>The bits of a mode register\<close>

lemma dnmd_mask_bits:
  "bit (- 0x01010108 :: u32) n \<longleftrightarrow> n < 32 \<and> n \<notin> {0, 1, 2, 8, 16, 24}"
  "bit (0x00010100 :: u32) n \<longleftrightarrow> n \<in> {8, 16}"
  "bit (0x01000000 :: u32) n \<longleftrightarrow> n = 24"
proof -
  have "list_all (\<lambda>n. bit (- 0x01010108 :: u32) n = (n \<notin> set [0, 1, 2, 8, 16, 24])) [0..<32]"
    by code_simp
  from bit_u32_const [OF this, of n] show "bit (- 0x01010108 :: u32) n \<longleftrightarrow> n < 32 \<and> n \<notin> {0, 1, 2, 8, 16, 24}"
    by auto
  have "list_all (\<lambda>n. bit (0x00010100 :: u32) n = (n \<in> set [8, 16])) [0..<32]" by code_simp
  from bit_u32_const [OF this, of n] show "bit (0x00010100 :: u32) n \<longleftrightarrow> n \<in> {8, 16}" by auto
  have "list_all (\<lambda>n. bit (0x01000000 :: u32) n = (n = 24)) [0..<32]" by code_simp
  from bit_u32_const [OF this, of n] show "bit (0x01000000 :: u32) n \<longleftrightarrow> n = 24" by auto
qed

lemma not_dnmd_mask: "NOT 0x01010107 = (- 0x01010108 :: u32)"
  by simp

lemma config_buffer_dnmd:
  assumes "scu_dma_config_buffer h cfg = Some h'"
  shows "dnmd h' = (if even (mode cfg) then dnmd h AND NOT 0x01010107
                    else (dnmd h AND NOT 0x01010107) OR 0x01000000) OR (update cfg AND 0x00010100)"
  using assms by (auto simp: scu_dma_config_buffer_def Let_def and_one_eq even_iff_mod_2_eq_zero
      split: if_splits)

section \<open>Properties\<close>

text \<open>C18: Programming an SCU-DMA level. With end-of-transfer callbacks that leave the driver alone
  and hardware that does not stay busy for ever, \<open>scu_dma_config_set\<close> returns for each of the
  three levels and each starting factor. It first disables the level, then writes the handle to
  that level's own register block, the starting factor merged into the mode register, enables
  the level only when the transfer waits for an event (any factor but \<open>ENABLE\<close>), and marks the
  level as working. It writes nothing else.\<close>

theorem scu_dma_config_set_correct:
  assumes "quiet_callback run" and "live_hardware hw"
    and "machine_ok m" and "unat level < 3" and "start_factor \<le> 7"
  shows "\<exists>m'. scu_dma_config_set hw run level start_factor h m = Some m' \<and> machine_ok m' \<and>
    flags (levels m' ! unat level) = LEVEL_STATE_WORKING \<and>
    scu_writes m' = scu_writes m @
      (let reg = 0x25FE0000 + 0x20 * level in
       [(reg + 0x10, 0), (reg, dnr h), (reg + 4, dnw h), (reg + 8, dnc h), (reg + 12, dnad h),
        (reg + 20, dnmd h OR start_factor)] @
       (if start_factor = 7 then [] else [(reg + 0x10, 0x100)]))"
  using scu_dma_config_set_returns [OF assms, of h] level_cases [OF assms(4)]
  by (auto simp: config_writes_def SCU_def REGISTER_BLOCK_OFFSET_def Let_def)

definition idle_hardware :: hardware where
  "idle_hardware = \<lparr>hw_dsta = (\<lambda>_. 0), hw_irq = (\<lambda>_. [])\<rparr>"

definition reset_machine :: machine where
  "reset_machine = \<lparr>sr = 0, ccr = 0, ims = 0xBFFF,
     ihrs = (\<lambda>v. if v = 0x4B then Ihr_dma_level 0 else if v = 0x4A then Ihr_dma_level 1
                 else if v = 0x49 then Ihr_dma_level 2 else Ihr_null),
     scu_writes = [],
     levels = replicate 3 \<lparr>flags = LEVEL_STATE_IDLING, level_callback = \<lparr>handler = Default_handler, work = 0\<rparr>\<rparr>,
     clock = 0\<rparr>"

lemma idle_hardware_live: "live_hardware idle_hardware"
  by (auto simp: live_hardware_def idle_hardware_def scu_dma_level_busy_def)

lemma reset_machine_ok: "machine_ok reset_machine"
  by (auto simp: machine_ok_def reset_machine_def dest!: level_cases)

lemma no_callback_quiet: "quiet_callback (\<lambda>f wk m. Some m)"
  by (simp add: quiet_callback_def)

theorem scu_dma_config_set_correct_witness:
  "\<exists>m'. scu_dma_config_set idle_hardware (\<lambda>f wk m. Some m) 1 7
          \<lparr>dnr = 0x20001000, dnw = 0x25E00000, dnc = 64, dnad = 0x101, dnmd = 0\<rparr> reset_machine = Some m' \<and>
     scu_writes m' = [(0x25FE0030, 0), (0x25FE0020, 0x20001000), (0x25FE0024, 0x25E00000),
        (0x25FE0028, 64), (0x25FE002C, 0x101), (0x25FE0034, 7)]"
  using scu_dma_config_set_correct [OF no_callback_quiet idle_hardware_live reset_machine_ok, of 1 7
      "\<lparr>dnr = 0x20001000, dnw = 0x25E00000, dnc = 64, dnad = 0x101, dnmd = 0\<rparr>"]
  by (auto simp: reset_machine_def)

text \<open>C31: \<open>scu_dma_config_buffer\<close> asserts exactly when a direct transfer has a zero length,
  destination or source, or an indirect one no table. Otherwise, whatever the handle held
  before: the mode register has no starting factor left, its indirect bit says the mode, its two
  update bits the updates asked for, and its other bits are kept; the addresses programmed are
  cache-through ones.\<close>

theorem scu_dma_config_buffer_correct:
  "case scu_dma_config_buffer h cfg of
     None \<Rightarrow> if even (mode cfg) then xlen (xfer cfg) = 0 \<or> xdst (xfer cfg) = 0 \<or> xsrc (xfer cfg) = 0
             else xfer_indirect (xfer cfg) = 0
   | Some h' \<Rightarrow>
       (if even (mode cfg)
        then xlen (xfer cfg) \<noteq> 0 \<and> xdst (xfer cfg) \<noteq> 0 \<and> xsrc (xfer cfg) \<noteq> 0 \<and>
             bit (dnw h') 29 \<and> bit (dnr h') 29 \<and> dnc h' = xlen (xfer cfg)
        else xfer_indirect (xfer cfg) \<noteq> 0 \<and> bit (dnw h') 29 \<and> dnr h' = 0 \<and> dnc h' = 0) \<and>
       bit (dnmd h') n =
         (if n < 3 then False else if n = 24 then odd (mode cfg)
          else if n = 8 \<or> n = 16 then bit (update cfg) n else bit (dnmd h) n)"
proof (cases "scu_dma_config_buffer h cfg")
  case None
  then show ?thesis
    by (auto simp: scu_dma_config_buffer_def Let_def and_one_eq even_iff_mod_2_eq_zero assert_c_def
        split: if_splits)
next
  case (Some h')
  have "bit (dnmd h') n = (if n < 3 then False else if n = 24 then odd (mode cfg)
          else if n = 8 \<or> n = 16 then bit (update cfg) n else bit (dnmd h) n)"
    unfolding config_buffer_dnmd [OF Some] not_dnmd_mask
    by (cases "even (mode cfg)";
        simp only: if_True if_False bit_or_iff bit_and_iff dnmd_mask_bits; auto dest: bit_imp_le_length)
  then show ?thesis
    using Some
    by (auto simp: scu_dma_config_buffer_def Let_def and_one_eq even_iff_mod_2_eq_zero CPU_CACHE_THROUGH_def
        bit_or_iff split: if_splits)
qed

end
