(* ===== verification/Dma_Queue.thy ===== *)
theory Dma_Queue
  imports Scu_Dma
begin

text \<open>
  The DMA queues: \<open>libyaul/kernel/sys/dma-queue.c\<close> and \<open>dma-queue.h\<close>. Three queues, one per tag,
  hold up to 32 transfer requests each in a ring buffer; flushing a tag hands its requests one
  after the other to level 0 of the SCU-DMA driver.

  The machine state of \<open>Scu_Dma\<close> is extended with the queues. The indices \<open>head\<close>, \<open>tail\<close> and
  \<open>flush_tail\<close> are 8-bit signed counters that only ever increase; a slot is selected by their low
  five bits. A request's handler is user code: the parameter \<open>hdl\<close>, which receives the transfer
  and the whole state, so that it may enqueue further requests. \<open>hw\<close> and \<open>run\<close> are the parameters
  of the SCU-DMA driver.
\<close>

section \<open>Data\<close>

record dma_queue_transfer =
  status :: u8
  transfer_work :: u32

record dma_queue_request =
  request_handle :: scu_dma_handle
  request_handler :: callback_handler
  transfer :: dma_queue_transfer

record dma_queue =
  requests :: "dma_queue_request list"
  head :: s8
  tail :: s8
  flush_tail :: s8

record dma_machine = machine +
  current_tag :: u8
  dma_queues :: "dma_queue list"
  simple_handle :: scu_dma_handle

definition DMA_QUEUE_TAG_INVALID :: u8 where "DMA_QUEUE_TAG_INVALID = 255"
definition DMA_QUEUE_TAG_COUNT :: u8 where "DMA_QUEUE_TAG_COUNT = 3"
definition DMA_QUEUE_STATUS_UNKNOWN :: u8 where "DMA_QUEUE_STATUS_UNKNOWN = 0x00"
definition DMA_QUEUE_STATUS_UNPROCESSED :: u8 where "DMA_QUEUE_STATUS_UNPROCESSED = 0x01"
definition DMA_QUEUE_STATUS_PROCESSING :: u8 where "DMA_QUEUE_STATUS_PROCESSING = 0x02"
definition DMA_QUEUE_STATUS_CANCELED :: u8 where "DMA_QUEUE_STATUS_CANCELED = 0x04"
definition DMA_QUEUE_STATUS_COMPLETE :: u8 where "DMA_QUEUE_STATUS_COMPLETE = 0x08"
definition DMA_QUEUE_REQUESTS_MAX_COUNT :: u32 where "DMA_QUEUE_REQUESTS_MAX_COUNT = 32"
definition DMA_QUEUE_REQUESTS_MASK :: s8 where "DMA_QUEUE_REQUESTS_MASK = 31"

section \<open>The ring buffer\<close>

definition queue_init :: "dma_queue \<Rightarrow> dma_queue" where
  "queue_init q = q\<lparr>head := -1, tail := -1, flush_tail := -1,
     requests := map (\<lambda>r. r\<lparr>request_handler := Default_handler,
       transfer := (transfer r)\<lparr>status := DMA_QUEUE_STATUS_UNKNOWN, transfer_work := 0\<rparr>\<rparr>) (requests q)\<rparr>"

definition queue_size :: "dma_queue \<Rightarrow> u32" where
  "queue_size q = word_of_int (sint (tail q) - sint (head q))"

definition queue_full :: "dma_queue \<Rightarrow> bool" where
  "queue_full q \<longleftrightarrow> queue_size q = DMA_QUEUE_REQUESTS_MAX_COUNT"

definition queue_empty :: "dma_queue \<Rightarrow> bool" where
  "queue_empty q \<longleftrightarrow> head q = tail q"

definition queue_flush_empty :: "dma_queue \<Rightarrow> bool" where
  "queue_flush_empty q \<longleftrightarrow> head q = flush_tail q"

text \<open>A pointer to a request is the index of its slot.\<close>

definition queue_top :: "dma_queue \<Rightarrow> u32" where
  "queue_top q = ucast (head q AND DMA_QUEUE_REQUESTS_MASK)"

definition set_status :: "(u8 \<Rightarrow> u8) \<Rightarrow> dma_queue_request \<Rightarrow> dma_queue_request" where
  "set_status f r = r\<lparr>transfer := (transfer r)\<lparr>status := f (status (transfer r))\<rparr>\<rparr>"

definition queue_enqueue :: "dma_queue \<Rightarrow> (u32 \<times> dma_queue) option" where
  "queue_enqueue q = do {
     assert_c (\<not> queue_full q);
     let next_tail = ucast ((tail q + 1) AND DMA_QUEUE_REQUESTS_MASK);
     r \<leftarrow> read_at (requests q) next_tail;
     let q = q\<lparr>requests := (requests q)[unat next_tail := set_status (\<lambda>_. DMA_QUEUE_STATUS_UNPROCESSED) r]\<rparr>;
     Some (next_tail, q\<lparr>tail := tail q + 1\<rparr>)
   }"

definition queue_dequeue :: "dma_queue \<Rightarrow> (u32 \<times> dma_queue) option" where
  "queue_dequeue q = do {
     assert_c (\<not> queue_empty q);
     let next_head = ucast ((head q + 1) AND DMA_QUEUE_REQUESTS_MASK AND DMA_QUEUE_REQUESTS_MASK);
     r \<leftarrow> read_at (requests q) next_head;
     let q = q\<lparr>requests := (requests q)[unat next_head :=
       set_status (\<lambda>s. (s AND NOT DMA_QUEUE_STATUS_UNPROCESSED) OR DMA_QUEUE_STATUS_PROCESSING) r]\<rparr>;
     Some (next_head, q\<lparr>head := head q + 1\<rparr>)
   }"

section \<open>Queues in the machine\<close>

definition get_queue :: "u8 \<Rightarrow> 'a dma_machine_scheme \<Rightarrow> dma_queue option" where
  "get_queue tag m = read_at (dma_queues m) (ucast tag)"

definition put_queue :: "u8 \<Rightarrow> dma_queue \<Rightarrow> 'a dma_machine_scheme \<Rightarrow> 'a dma_machine_scheme" where
  "put_queue tag q m = m\<lparr>dma_queues := (dma_queues m)[unat tag := q]\<rparr>"

definition update_request ::
  "u8 \<Rightarrow> u32 \<Rightarrow> (dma_queue_request \<Rightarrow> dma_queue_request) \<Rightarrow> 'a dma_machine_scheme
     \<Rightarrow> 'a dma_machine_scheme option" where
  "update_request tag i f m = do {
     q \<leftarrow> get_queue tag m;
     r \<leftarrow> read_at (requests q) i;
     Some (put_queue tag (q\<lparr>requests := (requests q)[unat i := f r]\<rparr>) m)
   }"

text \<open>\<open>request->handler(&request->transfer)\<close>, on the request as it is in memory.\<close>

definition call_request_handler ::
  "(u32 \<Rightarrow> dma_queue_transfer \<Rightarrow> 'a dma_machine_scheme \<Rightarrow> 'a dma_machine_scheme option)
     \<Rightarrow> u8 \<Rightarrow> u32 \<Rightarrow> 'a dma_machine_scheme \<Rightarrow> 'a dma_machine_scheme option" where
  "call_request_handler hdl tag i m = do {
     q \<leftarrow> get_queue tag m;
     r \<leftarrow> read_at (requests q) i;
     case request_handler r of
       Null_handler \<Rightarrow> None
     | Default_handler \<Rightarrow> Some m
     | User_handler f \<Rightarrow> hdl f (transfer r) m
   }"

definition queue_request_start ::
  "hardware \<Rightarrow> (u32 \<Rightarrow> u32 \<Rightarrow> 'a dma_machine_scheme \<Rightarrow> 'a dma_machine_scheme option)
     \<Rightarrow> u8 \<Rightarrow> u32 \<Rightarrow> 'a dma_machine_scheme \<Rightarrow> 'a dma_machine_scheme option" where
  "queue_request_start hw run tag i m = do {
     q \<leftarrow> get_queue tag m;
     r \<leftarrow> read_at (requests q) i;
     m \<leftarrow> scu_dma_config_set hw run 0 7 (request_handle r) m;
     scu_dma_level_start hw run 0 (cpu_cache_purge m)
   }"

section \<open>Operations\<close>

definition internal_dma_queue_init ::
  "hardware \<Rightarrow> (u32 \<Rightarrow> u32 \<Rightarrow> 'a dma_machine_scheme \<Rightarrow> 'a dma_machine_scheme option)
     \<Rightarrow> 'a dma_machine_scheme \<Rightarrow> 'a dma_machine_scheme option" where
  "internal_dma_queue_init hw run m = do {
     m \<leftarrow> scu_dma_level_wait hw run 0 m;
     m \<leftarrow> scu_dma_level_stop 0 m;
     let m = scu_dma_illegal_set Ihr_dma_illegal m;
     m \<leftarrow> scu_dma_level_end_set 0 Null_handler 0 m;
     let m = m\<lparr>current_tag := DMA_QUEUE_TAG_INVALID\<rparr>;
     Some (m\<lparr>dma_queues := map queue_init (dma_queues m)\<rparr>)
   }"

definition dma_queue_enqueue ::
  "scu_dma_handle \<Rightarrow> u8 \<Rightarrow> callback_handler \<Rightarrow> u32 \<Rightarrow> 'a dma_machine_scheme
     \<Rightarrow> (s8 \<times> 'a dma_machine_scheme) option" where
  "dma_queue_enqueue h tag rh wk m = do {
     assert_c (tag < DMA_QUEUE_TAG_COUNT);
     let intc_mask = cpu_intc_mask_get m;
     let m = cpu_intc_mask_set 15 m;
     q \<leftarrow> get_queue tag m;
     (st, m) \<leftarrow>
       (if queue_full q then Some (-1, m)
        else do {
          (i, q) \<leftarrow> queue_enqueue q;
          m \<leftarrow> update_request tag i (\<lambda>r. r\<lparr>request_handle := h,
                 request_handler := (if rh \<noteq> Null_handler then rh else Default_handler),
                 transfer := (transfer r)\<lparr>transfer_work := wk\<rparr>\<rparr>) (put_queue tag q m);
          Some (0, m)
        });
     Some (st, cpu_intc_mask_set intc_mask m)
   }"

definition dma_queue_simple_enqueue ::
  "u8 \<Rightarrow> u32 \<Rightarrow> u32 \<Rightarrow> u32 \<Rightarrow> 'a dma_machine_scheme \<Rightarrow> (s8 \<times> 'a dma_machine_scheme) option" where
  "dma_queue_simple_enqueue tag dst src l m =
     (let m = m\<lparr>simple_handle := (simple_handle m)\<lparr>dnr := src, dnw := dst, dnc := l\<rparr>\<rparr>
      in dma_queue_enqueue (simple_handle m) tag Null_handler 0 m)"

text \<open>Lowering the CPU interrupt mask so that the level-0 end interrupt is taken, and unmasking it
  in the SCU.\<close>

definition flush_intc_mask :: "u8 \<Rightarrow> u8" where
  "flush_intc_mask intc_mask = (if 6 \<le> intc_mask then 2 - 1 else intc_mask)"

partial_function (option) dma_queue_flush_wait ::
  "hardware \<Rightarrow> (u32 \<Rightarrow> u32 \<Rightarrow> 'a dma_machine_scheme \<Rightarrow> 'a dma_machine_scheme option)
     \<Rightarrow> (u32 \<Rightarrow> dma_queue_transfer \<Rightarrow> 'a dma_machine_scheme \<Rightarrow> 'a dma_machine_scheme option)
     \<Rightarrow> 'a dma_machine_scheme \<Rightarrow> 'a dma_machine_scheme option" where
  "dma_queue_flush_wait hw run hdl m =
     (if current_tag m = DMA_QUEUE_TAG_INVALID then Some m
      else do {
        m \<leftarrow> scu_dma_level_wait hw run 0 m;
        let tag = current_tag m;
        q \<leftarrow> get_queue tag m;
        let top = queue_top q;
        m \<leftarrow> update_request tag top (set_status
               (\<lambda>s. (s AND NOT DMA_QUEUE_STATUS_PROCESSING) OR DMA_QUEUE_STATUS_COMPLETE)) m;
        m \<leftarrow> call_request_handler hdl tag top m;
        q \<leftarrow> get_queue tag m;
        if queue_flush_empty q then Some (m\<lparr>current_tag := DMA_QUEUE_TAG_INVALID\<rparr>)
        else do {
          (nxt, q) \<leftarrow> queue_dequeue q;
          let m = put_queue tag q m;
          let intc_mask = flush_intc_mask (cpu_intc_mask_get m);
          let scu_mask = scu_ic_mask_get m AND NOT 0x00000800;
          let m = scu_ic_mask_set scu_mask (cpu_intc_mask_set intc_mask m);
          m \<leftarrow> queue_request_start hw run tag nxt m;
          dma_queue_flush_wait hw run hdl m
        }
      })"

declare dma_queue_flush_wait.simps [code]

definition dma_queue_flush ::
  "hardware \<Rightarrow> (u32 \<Rightarrow> u32 \<Rightarrow> 'a dma_machine_scheme \<Rightarrow> 'a dma_machine_scheme option)
     \<Rightarrow> (u32 \<Rightarrow> dma_queue_transfer \<Rightarrow> 'a dma_machine_scheme \<Rightarrow> 'a dma_machine_scheme option)
     \<Rightarrow> u8 \<Rightarrow> 'a dma_machine_scheme \<Rightarrow> (u32 \<times> 'a dma_machine_scheme) option" where
  "dma_queue_flush hw run hdl tag m = do {
     assert_c (tag < DMA_QUEUE_TAG_COUNT);
     m \<leftarrow> dma_queue_flush_wait hw run hdl m;
     let intc_mask = cpu_intc_mask_get m;
     let m = cpu_intc_mask_set 15 m;
     let scu_mask = scu_ic_mask_get m;
     q \<leftarrow> get_queue tag m;
     (st, intc_mask, scu_mask, m) \<leftarrow>
       (if queue_empty q then Some (-1, intc_mask, scu_mask, m)
        else do {
          let q = q\<lparr>flush_tail := tail q\<rparr>;
          let m = (put_queue tag q m)\<lparr>current_tag := tag\<rparr>;
          (i, q) \<leftarrow> queue_dequeue q;
          m \<leftarrow> call_request_handler hdl tag i (put_queue tag q m);
          m \<leftarrow> queue_request_start hw run tag i m;
          Some (0, flush_intc_mask intc_mask, scu_mask AND NOT 0x00000800, m)
        });
     Some (st, scu_ic_mask_set scu_mask (cpu_intc_mask_set intc_mask m))
   }"

text \<open>The loop of \<open>dma_queue_tag_clear\<close>: every request left in the queue is cancelled and its handler
  told so.\<close>

partial_function (option) cancel_all ::
  "(u32 \<Rightarrow> dma_queue_transfer \<Rightarrow> 'a dma_machine_scheme \<Rightarrow> 'a dma_machine_scheme option)
     \<Rightarrow> u8 \<Rightarrow> 'a dma_machine_scheme \<Rightarrow> 'a dma_machine_scheme option" where
  "cancel_all hdl tag m = do {
     q \<leftarrow> get_queue tag m;
     if queue_empty q then Some m
     else do {
       (i, q) \<leftarrow> queue_dequeue q;
       m \<leftarrow> update_request tag i (set_status (\<lambda>s. s OR DMA_QUEUE_STATUS_CANCELED)) (put_queue tag q m);
       m \<leftarrow> call_request_handler hdl tag i m;
       cancel_all hdl tag m
     }
   }"

declare cancel_all.simps [code]

definition dma_queue_tag_clear ::
  "hardware \<Rightarrow> (u32 \<Rightarrow> u32 \<Rightarrow> 'a dma_machine_scheme \<Rightarrow> 'a dma_machine_scheme option)
     \<Rightarrow> (u32 \<Rightarrow> dma_queue_transfer \<Rightarrow> 'a dma_machine_scheme \<Rightarrow> 'a dma_machine_scheme option)
     \<Rightarrow> u8 \<Rightarrow> 'a dma_machine_scheme \<Rightarrow> 'a dma_machine_scheme option" where
  "dma_queue_tag_clear hw run hdl tag m = do {
     assert_c (tag < DMA_QUEUE_TAG_COUNT);
     m \<leftarrow> dma_queue_flush_wait hw run hdl m;
     let intc_mask = cpu_intc_mask_get m;
     m \<leftarrow> cancel_all hdl tag (cpu_intc_mask_set 15 m);
     Some (cpu_intc_mask_set intc_mask m)
   }"

definition dma_queue_clear ::
  "hardware \<Rightarrow> (u32 \<Rightarrow> u32 \<Rightarrow> 'a dma_machine_scheme \<Rightarrow> 'a dma_machine_scheme option)
     \<Rightarrow> (u32 \<Rightarrow> dma_queue_transfer \<Rightarrow> 'a dma_machine_scheme \<Rightarrow> 'a dma_machine_scheme option)
     \<Rightarrow> 'a dma_machine_scheme \<Rightarrow> 'a dma_machine_scheme option" where
  "dma_queue_clear hw run hdl m = do {
     let intc_mask = cpu_intc_mask_get m;
     let m = cpu_intc_mask_set 15 m;
     m \<leftarrow> dma_queue_tag_clear hw run hdl 0 m;
     m \<leftarrow> dma_queue_tag_clear hw run hdl 1 m;
     m \<leftarrow> dma_queue_tag_clear hw run hdl 2 m;
     Some (cpu_intc_mask_set intc_mask m)
   }"

definition dma_queue_count_get ::
  "u8 \<Rightarrow> 'a dma_machine_scheme \<Rightarrow> (u32 \<times> 'a dma_machine_scheme) option" where
  "dma_queue_count_get tag m = do {
     assert_c (tag < DMA_QUEUE_TAG_COUNT);
     let intc_mask = cpu_intc_mask_get m;
     let m = cpu_intc_mask_set 15 m;
     q \<leftarrow> get_queue tag m;
     Some (queue_size q, cpu_intc_mask_set intc_mask m)
   }"

definition dma_queue_capacity_get :: u32 where
  "dma_queue_capacity_get = DMA_QUEUE_REQUESTS_MAX_COUNT"

section \<open>The ring buffer as a list\<close>

text \<open>The counter value \<open>i\<close> selects slot \<open>i mod 32\<close>.\<close>

definition slot :: "int \<Rightarrow> nat" where
  "slot i = nat (i mod 32)"

lemma slot_less [simp]: "slot i < 32"
  by (simp add: slot_def nat_less_iff)

lemma slot_neq:
  assumes "i < j" and "j < i + 32"
  shows "slot i \<noteq> slot j"
proof
  assume "slot i = slot j"
  then have "j mod 32 = i mod 32" by (simp add: slot_def eq_nat_nat_iff)
  then have "(j - i) mod 32 = 0" by (simp add: mod_eq_dvd_iff mod_0_imp_dvd dvd_imp_mod_0)
  moreover have "(j - i) mod 32 = j - i" using assms by simp
  ultimately show False using assms by simp
qed

lemma unat_slot: "unat (ucast ((x :: s8) AND DMA_QUEUE_REQUESTS_MASK) :: u32) = slot (sint x)"
proof -
  have m: "x AND DMA_QUEUE_REQUESTS_MASK = take_bit 5 x"
    by (simp add: DMA_QUEUE_REQUESTS_MASK_def take_bit_eq_mask mask_eq_exp_minus_1)
  have "int (unat (take_bit 5 x)) = take_bit 5 (uint x)"
    by (simp add: unsigned_take_bit_eq of_nat_take_bit)
  also have "\<dots> = take_bit 5 (sint x)"
    by (simp add: sint_uint take_bit_signed_take_bit)
  also have "\<dots> = sint x mod 32" by (simp add: take_bit_eq_mod)
  finally have "unat (take_bit 5 x) = slot (sint x)" unfolding slot_def by (metis nat_int)
  then show ?thesis by (simp add: m)
qed

lemma sint_Suc8:
  assumes "sint (x :: s8) < 127"
  shows "sint (x + 1) = sint x + 1"
proof -
  have "- 128 \<le> sint x" using sint_greater_eq [of x] by simp
  then have "signed_take_bit 7 (sint x + 1) = sint x + 1"
    using assms by (intro signed_take_bit_int_eq_self) simp_all
  moreover have "sint (x + 1) = signed_take_bit 7 (sint x + 1)"
    by (simp add: sint_word_ariths)
  ultimately show ?thesis by simp
qed

lemma sint8_bounds: "- 128 \<le> sint (x :: s8)" "sint x \<le> 127"
  using sint_greater_eq [of x] sint_less [of x] by simp_all

text \<open>The requests between \<open>head\<close> and \<open>tail\<close>, oldest first, and the invariant of a queue.\<close>

definition queued :: "dma_queue \<Rightarrow> dma_queue_request list" where
  "queued q = map (\<lambda>i. requests q ! slot i) [sint (head q) + 1..sint (tail q)]"

definition fresh :: "dma_queue_request \<Rightarrow> bool" where
  "fresh r \<longleftrightarrow> status (transfer r) = DMA_QUEUE_STATUS_UNPROCESSED \<and> request_handler r \<noteq> Null_handler"

definition queue_ok :: "dma_queue \<Rightarrow> bool" where
  "queue_ok q \<longleftrightarrow> length (requests q) = 32 \<and>
     sint (head q) \<le> sint (tail q) \<and> sint (tail q) \<le> sint (head q) + 32 \<and>
     (\<forall>r \<in> set (queued q). fresh r)"

lemma length_queued:
  "queue_ok q \<Longrightarrow> int (length (queued q)) = sint (tail q) - sint (head q)"
  by (simp add: queued_def queue_ok_def)

lemma unat_queue_size:
  assumes "queue_ok q"
  shows "unat (queue_size q) = length (queued q)"
proof -
  have len: "length (queued q) \<le> 32"
    using length_queued [OF assms] assms by (simp add: queue_ok_def)
  have "queue_size q = word_of_nat (length (queued q))"
    using length_queued [OF assms] by (metis queue_size_def of_int_of_nat_eq)
  then show ?thesis using len by (simp add: unat_of_nat32)
qed

lemma queue_full_iff:
  assumes "queue_ok q"
  shows "queue_full q \<longleftrightarrow> length (queued q) = 32"
  using unat_queue_size [OF assms]
  by (simp add: queue_full_def DMA_QUEUE_REQUESTS_MAX_COUNT_def word_unat_eq_iff)

lemma queue_empty_iff:
  assumes "queue_ok q"
  shows "queue_empty q \<longleftrightarrow> queued q = []"
  using assms by (auto simp: queue_empty_def queued_def queue_ok_def signed_word_eqI)

lemma queued_snoc:
  assumes ok: "queue_ok q" and room: "length (queued q) < 32"
    and q': "requests q' = (requests q)[slot (sint (tail q) + 1) := r]" "head q' = head q"
      "sint (tail q') = sint (tail q) + 1"
  shows "queued q' = queued q @ [r]"
proof -
  have lt: "sint (tail q) - sint (head q) < 32" using length_queued [OF ok] room by linarith
  have "sint (head q) + 1 \<le> sint (tail q) + 1" using ok by (simp add: queue_ok_def)
  then have "[sint (head q) + 1..sint (tail q) + 1] = [sint (head q) + 1..sint (tail q)] @ [sint (tail q) + 1]"
    using upto_rec2 [of "sint (head q) + 1" "sint (tail q) + 1"] by simp
  moreover have "map (\<lambda>i. (requests q)[slot (sint (tail q) + 1) := r] ! slot i) [sint (head q) + 1..sint (tail q)]
      = queued q"
    unfolding queued_def
  proof (rule map_cong [OF refl])
    fix i assume "i \<in> set [sint (head q) + 1..sint (tail q)]"
    then have "slot i \<noteq> slot (sint (tail q) + 1)" using lt by (intro slot_neq) auto
    then show "(requests q)[slot (sint (tail q) + 1) := r] ! slot i = requests q ! slot i" by simp
  qed
  ultimately show ?thesis using q' ok by (simp add: queued_def queue_ok_def)
qed

lemma queue_dequeue_spec:
  assumes ok: "queue_ok q" and rs: "queued q = r # rs"
  shows "\<exists>i q'. queue_dequeue q = Some (i, q') \<and> unat i = slot (sint (head q')) \<and>
    requests q ! unat i = r \<and> queue_top q' = i \<and>
    requests q' ! unat i = set_status (\<lambda>s. (s AND NOT 1) OR 2) r \<and>
    sint (head q') = sint (head q) + 1 \<and> tail q' = tail q \<and> flush_tail q' = flush_tail q \<and>
    queued q' = rs \<and> queue_ok q' \<and> read_at (requests q') i = Some (requests q' ! unat i)"
proof -
  let ?i = "ucast ((head q + 1) AND DMA_QUEUE_REQUESTS_MASK) :: u32"
  let ?f = "set_status (\<lambda>s. (s AND NOT DMA_QUEUE_STATUS_UNPROCESSED) OR DMA_QUEUE_STATUS_PROCESSING)"
  let ?q = "q\<lparr>requests := (requests q)[unat ?i := ?f (requests q ! unat ?i)], head := head q + 1\<rparr>"
  have lt: "sint (head q) < sint (tail q)" using length_queued [OF ok] rs by simp
  then have hd: "sint (head q + 1) = sint (head q) + 1"
    using sint8_bounds(2) [of "tail q"] by (intro sint_Suc8) linarith
  then have i: "unat ?i = slot (sint (head q) + 1)" using unat_slot [of "head q + 1"] by simp
  have len: "length (requests q) = 32" using ok by (simp add: queue_ok_def)
  have up: "[sint (head q) + 1..sint (tail q)] = (sint (head q) + 1) # [2 + sint (head q)..sint (tail q)]"
    using lt upto_rec1 [of "sint (head q) + 1" "sint (tail q)"] by (simp add: add.commute)
  then have r: "requests q ! unat ?i = r" "map (\<lambda>i. requests q ! slot i) [2 + sint (head q)..sint (tail q)] = rs"
    using rs i by (simp_all add: queued_def)
  have "map (\<lambda>j. requests ?q ! slot j) [2 + sint (head q)..sint (tail q)]
      = map (\<lambda>i. requests q ! slot i) [2 + sint (head q)..sint (tail q)]"
  proof (rule map_cong [OF refl])
    fix j assume "j \<in> set [2 + sint (head q)..sint (tail q)]"
    then have "slot (sint (head q) + 1) \<noteq> slot j"
      using ok by (intro slot_neq) (auto simp: queue_ok_def)
    then show "requests ?q ! slot j = requests q ! slot j" using i by simp
  qed
  moreover have up2: "sint (head q + 1) + 1 = 2 + sint (head q)" using hd by simp
  have "queued ?q = map (\<lambda>j. requests ?q ! slot j) [2 + sint (head q)..sint (tail q)]"
    unfolding queued_def using up2 by simp
  ultimately have qd: "queued ?q = rs" using r(2) by metis
  have "queue_ok ?q" using ok lt hd qd rs by (simp add: queue_ok_def)
  moreover have "queue_dequeue q = Some (?i, ?q)"
    using len i lt by (auto simp: queue_dequeue_def queue_empty_def and.assoc)
  moreover have "queue_top ?q = ?i" by (simp add: queue_top_def)
  ultimately show ?thesis
    using qd hd i r len
    by (intro exI [of _ ?i] exI [of _ ?q])
       (simp add: DMA_QUEUE_STATUS_UNPROCESSED_def DMA_QUEUE_STATUS_PROCESSING_def)
qed

section \<open>Queues in the machine\<close>

lemma intc_frame [simp]:
  "machine_ok (cpu_intc_mask_set k m) = machine_ok m"
  "scu_writes (cpu_intc_mask_set k m) = scu_writes m"
  "machine.more (cpu_intc_mask_set k m) = machine.more m"
  by (simp_all add: cpu_intc_mask_set_def machine_ok_def)

lemma cpu_cache_purge_frame [simp]:
  "machine_ok (cpu_cache_purge m) = machine_ok m"
  "scu_writes (cpu_cache_purge m) = scu_writes m"
  "machine.more (cpu_cache_purge m) = machine.more m"
  by (simp_all add: cpu_cache_purge_def machine_ok_def)

lemma scu_ic_mask_set_frame [simp]:
  "machine_ok (scu_ic_mask_set v m) = machine_ok m"
  "scu_writes (scu_ic_mask_set v m) = scu_writes m"
  "machine.more (scu_ic_mask_set v m) = machine.more m"
  by (simp_all add: scu_ic_mask_set_def machine_ok_def)

lemma dma_more_eqD:
  fixes m m' :: "'a dma_machine_scheme"
  assumes "machine.more m' = machine.more m"
  shows "dma_queues m' = dma_queues m" "current_tag m' = current_tag m"
    "dma_machine.more m' = dma_machine.more m" "simple_handle m' = simple_handle m"
  using assms by (cases m, cases m', simp)+

lemma intc_restore_queues:
  fixes m :: "'a dma_machine_scheme"
  shows "cpu_intc_mask_set (cpu_intc_mask_get m) ((cpu_intc_mask_set k m)\<lparr>dma_queues := qs\<rparr>)
    = m\<lparr>dma_queues := qs\<rparr>"
proof -
  have "sr ((cpu_intc_mask_set k m)\<lparr>dma_queues := qs\<rparr>) AND NOT CPU_SR_I_BITS_MASK
      = sr m AND NOT CPU_SR_I_BITS_MASK"
    by simp
  note r = cpu_intc_mask_restore [OF this]
  show ?thesis unfolding r by (simp add: cpu_intc_mask_set_def)
qed

lemma machine_ok_dma [simp]:
  "machine_ok (m\<lparr>dma_queues := qs\<rparr>) = machine_ok m"
  "machine_ok (m\<lparr>current_tag := t\<rparr>) = machine_ok m"
  "machine_ok (m\<lparr>dma_machine.more := x\<rparr>) = machine_ok m"
  by (simp_all add: machine_ok_def)

lemma put_queue_frame [simp]:
  "machine_ok (put_queue tag q m) = machine_ok m"
  "scu_writes (put_queue tag q m) = scu_writes m"
  "current_tag (put_queue tag q m) = current_tag m"
  "dma_machine.more (put_queue tag q m) = dma_machine.more m"
  "dma_queues (put_queue tag q m) = (dma_queues m)[unat tag := q]"
  "sr (put_queue tag q m) = sr m"
  by (simp_all add: put_queue_def machine_ok_def)

definition dma_ok :: "'a dma_machine_scheme \<Rightarrow> bool" where
  "dma_ok m \<longleftrightarrow> machine_ok m \<and> length (dma_queues m) = 3 \<and> (\<forall>q \<in> set (dma_queues m). queue_ok q)"

lemma dma_okD:
  assumes "dma_ok m"
  shows "machine_ok m" and "length (dma_queues m) = 3"
    and "unat (tag :: u8) < 3 \<Longrightarrow> queue_ok (dma_queues m ! unat tag)"
    and "unat tag < 3 \<Longrightarrow> get_queue tag m = Some (dma_queues m ! unat tag)"
  using assms by (auto simp: dma_ok_def get_queue_def)

lemma dma_ok_update:
  assumes "dma_ok m" and "queue_ok q" and "machine_ok m'"
    and "dma_queues m' = (dma_queues m)[i := q]"
  shows "dma_ok m'"
  using assms by (auto simp: dma_ok_def dest!: set_update_subset_insert [THEN subsetD])

lemma tag_less: "unat (tag :: u8) < 3 \<longleftrightarrow> tag < DMA_QUEUE_TAG_COUNT"
  by (simp add: DMA_QUEUE_TAG_COUNT_def word_less_nat_alt)

text \<open>Enqueueing into a queue of the machine.\<close>

definition new_request :: "scu_dma_handle \<Rightarrow> callback_handler \<Rightarrow> u32 \<Rightarrow> dma_queue_request" where
  "new_request h rh wk = \<lparr>request_handle = h,
     request_handler = (if rh = Null_handler then Default_handler else rh),
     transfer = \<lparr>status = DMA_QUEUE_STATUS_UNPROCESSED, transfer_work = wk\<rparr>\<rparr>"

lemma fresh_new_request [simp]: "fresh (new_request h rh wk)"
  by (simp add: fresh_def new_request_def)

text \<open>A queue with a request stored in the slot after its tail.\<close>

definition appended :: "dma_queue_request \<Rightarrow> dma_queue \<Rightarrow> dma_queue" where
  "appended r q = q\<lparr>tail := tail q + 1, requests := (requests q)[slot (sint (tail q + 1)) := r]\<rparr>"

lemma appended_sel [simp]:
  "length (requests (appended r q)) = length (requests q)"
  "head (appended r q) = head q" "tail (appended r q) = tail q + 1" "flush_tail (appended r q) = flush_tail q"
  by (simp_all add: appended_def)

lemma dma_queue_enqueue_accept:
  fixes m :: "'a dma_machine_scheme"
  assumes len: "length (dma_queues m) = 3" and tag: "unat tag < 3"
    and q: "q = dma_queues m ! unat tag" "length (requests q) = 32" "\<not> queue_full q"
  shows "dma_queue_enqueue h tag rh wk m =
    Some (0, m\<lparr>dma_queues := (dma_queues m)[unat tag := appended (new_request h rh wk) q]\<rparr>)"
proof -
  let ?m = "cpu_intc_mask_set 15 m" and ?i = "ucast ((tail q + 1) AND DMA_QUEUE_REQUESTS_MASK) :: u32"
  let ?r = "set_status (\<lambda>_. DMA_QUEUE_STATUS_UNPROCESSED) (requests q ! unat ?i)"
  let ?q1 = "q\<lparr>requests := (requests q)[unat ?i := ?r], tail := tail q + 1\<rparr>"
  let ?f = "\<lambda>r. r\<lparr>request_handle := h, request_handler := (if rh \<noteq> Null_handler then rh else Default_handler),
    transfer := (transfer r)\<lparr>transfer_work := wk\<rparr>\<rparr>"
  have dq: "dma_queues ?m = dma_queues m" by (rule dma_more_eqD) simp
  have i: "unat ?i = slot (sint (tail q + 1))" by (rule unat_slot)
  have gq: "get_queue tag ?m = Some q" using len tag q(1) by (simp add: get_queue_def dq)
  have e: "queue_enqueue q = Some (?i, ?q1)" using q(2,3) i by (simp add: queue_enqueue_def)
  have "?f ?r = new_request h rh wk"
    by (cases "requests q ! unat ?i"; cases "transfer (requests q ! unat ?i)") (auto simp: new_request_def set_status_def)
  then have "update_request tag ?i ?f (put_queue tag ?q1 ?m)
      = Some (?m\<lparr>dma_queues := (dma_queues m)[unat tag := appended (new_request h rh wk) q]\<rparr>)"
    using i q(2) len tag dq by (simp add: update_request_def get_queue_def appended_def) (simp add: put_queue_def)
  moreover have "tag < DMA_QUEUE_TAG_COUNT" using tag tag_less by simp
  ultimately show ?thesis
    using gq e q(3) intc_restore_queues [of m "(dma_queues m)[unat tag := appended (new_request h rh wk) q]"]
    by (simp add: dma_queue_enqueue_def)
qed

lemma queued_appended:
  assumes ok: "queue_ok q" and room: "length (queued q) < 32" and top: "sint (tail q) < 127" and r: "fresh r"
  shows "queued (appended r q) = queued q @ [r]" "queue_ok (appended r q)"
proof -
  have t: "sint (tail (appended r q)) = sint (tail q) + 1" using sint_Suc8 [OF top] by simp
  show qd: "queued (appended r q) = queued q @ [r]"
    by (rule queued_snoc [OF ok room]) (use t sint_Suc8 [OF top] in \<open>simp_all add: appended_def\<close>)
  show "queue_ok (appended r q)"
    unfolding queue_ok_def qd using t ok room length_queued [OF ok] r by (auto simp: queue_ok_def)
qed

lemma dma_queue_enqueue_full:
  fixes m :: "'a dma_machine_scheme"
  assumes "length (dma_queues m) = 3" and "unat tag < 3" and "queue_full (dma_queues m ! unat tag)"
  shows "dma_queue_enqueue h tag rh wk m = Some (-1, m)"
proof -
  have "dma_queues (cpu_intc_mask_set 15 m) = dma_queues m" by (rule dma_more_eqD) simp
  then have "get_queue tag (cpu_intc_mask_set 15 m) = Some (dma_queues m ! unat tag)"
    using assms(1,2) by (simp add: get_queue_def)
  moreover have "cpu_intc_mask_set (cpu_intc_mask_get m) (cpu_intc_mask_set 15 m) = m"
    unfolding cpu_intc_mask_restore [OF cpu_intc_mask_set_frame] by (simp add: cpu_intc_mask_set_def)
  ultimately show ?thesis using assms(2,3) tag_less by (simp add: dma_queue_enqueue_def)
qed

section \<open>Flushing a queue\<close>

text \<open>Request handlers that act on the client's part of the state only; \<open>eff\<close> is what they do there.\<close>

definition client_handlers ::
  "(u32 \<Rightarrow> dma_queue_transfer \<Rightarrow> 'a dma_machine_scheme \<Rightarrow> 'a dma_machine_scheme option)
     \<Rightarrow> (u32 \<Rightarrow> dma_queue_transfer \<Rightarrow> 'a \<Rightarrow> 'a) \<Rightarrow> bool" where
  "client_handlers hdl eff \<longleftrightarrow>
     (\<forall>f t m. hdl f t m = Some (m\<lparr>dma_machine.more := eff f t (dma_machine.more m)\<rparr>))"

definition notify ::
  "(u32 \<Rightarrow> dma_queue_transfer \<Rightarrow> 'a \<Rightarrow> 'a) \<Rightarrow> u8 \<Rightarrow> dma_queue_request \<Rightarrow> 'a \<Rightarrow> 'a" where
  "notify eff st r x =
     (case request_handler r of
        User_handler f \<Rightarrow> eff f \<lparr>status = st, transfer_work = transfer_work (transfer r)\<rparr> x
      | _ \<Rightarrow> x)"

lemma notify_set_status [simp]: "notify eff st (set_status g r) = notify eff st r"
  by (auto simp: notify_def set_status_def fun_eq_iff split: callback_handler.split)

lemma set_status_simps [simp]:
  "request_handler (set_status g r) = request_handler r"
  "request_handle (set_status g r) = request_handle r"
  "status (transfer (set_status g r)) = g (status (transfer r))"
  by (simp_all add: set_status_def)

text \<open>The SCU register writes that carry out one request.\<close>

definition transfer_writes :: "dma_queue_request \<Rightarrow> (u32 \<times> u32) list" where
  "transfer_writes r = config_writes 0 7 (request_handle r) @ [start_write 0]"

lemma transfer_writes_set_status [simp]: "transfer_writes (set_status g r) = transfer_writes r"
  by (simp add: transfer_writes_def)

lemma call_request_handler_eq:
  assumes "client_handlers hdl eff" and "get_queue tag m = Some q" and "read_at (requests q) i = Some r"
    and "request_handler r \<noteq> Null_handler"
  shows "call_request_handler hdl tag i m
    = Some (m\<lparr>dma_machine.more := notify eff (status (transfer r)) r (dma_machine.more m)\<rparr>)"
proof (cases "request_handler r")
  case (User_handler f)
  then show ?thesis using assms
    by (cases "transfer r") (simp add: call_request_handler_def client_handlers_def notify_def)
qed (use assms in \<open>simp_all add: call_request_handler_def notify_def\<close>)

lemma queue_request_start_returns:
  fixes m :: "'a dma_machine_scheme"
  assumes run: "quiet_callback run" and hw: "live_hardware hw" and ok: "machine_ok m"
    and "get_queue tag m = Some q" and "read_at (requests q) i = Some r"
  obtains m' where "queue_request_start hw run tag i m = Some m'" "machine_ok m'"
    "machine.more m' = machine.more m" "scu_writes m' = scu_writes m @ transfer_writes r"
proof -
  obtain m1 where m1: "scu_dma_config_set hw run 0 7 (request_handle r) m = Some m1" "machine_ok m1"
      "machine.more m1 = machine.more m" "scu_writes m1 = scu_writes m @ config_writes 0 7 (request_handle r)"
    using scu_dma_config_set_returns [OF run hw ok, of 0 7 "request_handle r"] by auto
  have "machine_ok (cpu_cache_purge m1)" using m1(2) by simp
  from scu_dma_level_start_returns [OF run hw this, of 0]
  obtain m' where "scu_dma_level_start hw run 0 (cpu_cache_purge m1) = Some m'" "machine_ok m'"
      "machine.more m' = machine.more m1" "scu_writes m' = scu_writes m1 @ [start_write 0]"
    by auto
  with m1 assms(4,5) show thesis
    by (intro that [of m']) (simp_all add: queue_request_start_def transfer_writes_def)
qed

text \<open>A transfer in flight: the request \<open>cur\<close> at \<open>head\<close> is being processed, \<open>rs\<close> are the requests up to
  the flush mark, \<open>rest\<close> those after it. The slot of \<open>cur\<close> is not the slot of a queued request.\<close>

definition in_flight ::
  "u8 \<Rightarrow> dma_queue_request \<Rightarrow> dma_queue_request list \<Rightarrow> dma_queue_request list \<Rightarrow> dma_queue \<Rightarrow> bool" where
  "in_flight tag cur rs rest q \<longleftrightarrow> queue_ok q \<and> queued q = rs @ rest \<and> length (queued q) < 32 \<and>
     sint (flush_tail q) = sint (head q) + int (length rs) \<and>
     requests q ! slot (sint (head q)) = cur \<and>
     status (transfer cur) = DMA_QUEUE_STATUS_PROCESSING \<and> request_handler cur \<noteq> Null_handler"

lemma update_head_slot:
  assumes ok: "queue_ok q" and room: "length (queued q) < 32"
  shows "queued (q\<lparr>requests := (requests q)[slot (sint (head q)) := r]\<rparr>) = queued q"
proof -
  have lt: "sint (tail q) - sint (head q) < 32" using length_queued [OF ok] room by linarith
  have "map (\<lambda>i. (requests q)[slot (sint (head q)) := r] ! slot i) [sint (head q) + 1..sint (tail q)]
      = map (\<lambda>i. requests q ! slot i) [sint (head q) + 1..sint (tail q)]"
  proof (rule map_cong [OF refl])
    fix i assume "i \<in> set [sint (head q) + 1..sint (tail q)]"
    then have "slot (sint (head q)) \<noteq> slot i" using lt by (intro slot_neq) auto
    then show "(requests q)[slot (sint (head q)) := r] ! slot i = requests q ! slot i" by simp
  qed
  then show ?thesis by (simp add: queued_def)
qed

lemma queue_ok_update_head_slot:
  assumes "queue_ok q" and "length (queued q) < 32"
  shows "queue_ok (q\<lparr>requests := (requests q)[slot (sint (head q)) := r]\<rparr>)"
  using assms update_head_slot [OF assms, of r] unfolding queue_ok_def by simp

lemma queue_flush_empty_iff:
  "in_flight tag cur rs rest q \<Longrightarrow> queue_flush_empty q \<longleftrightarrow> rs = []"
  unfolding in_flight_def queue_flush_empty_def
  by (metis add.right_neutral add_left_cancel length_0_conv of_nat_0 of_nat_eq_0_iff signed_word_eqI)
text \<open>What one round of \<open>dma_queue_flush_wait\<close> does before it looks for the next request: it waits,
  marks the request at \<open>head\<close> complete and tells its handler.\<close>

lemma wait_top:
  fixes m :: "'a dma_machine_scheme"
  assumes run: "quiet_callback run" and hw: "live_hardware hw" and hdl: "client_handlers hdl eff"
    and ok: "machine_ok m" and len: "length (dma_queues m) = 3"
    and tag: "current_tag m = tag" "unat tag < 3"
    and q: "q = dma_queues m ! unat tag" "length (requests q) = 32"
    and cur: "cur = requests q ! slot (sint (head q))" "request_handler cur \<noteq> Null_handler"
    and st: "st = (status (transfer cur) AND NOT DMA_QUEUE_STATUS_PROCESSING) OR DMA_QUEUE_STATUS_COMPLETE"
    and q': "q' = q\<lparr>requests := (requests q)[slot (sint (head q)) := set_status (\<lambda>_. st) cur]\<rparr>"
  obtains m' where
    "dma_queue_flush_wait hw run hdl m =
       (if queue_flush_empty q' then Some (m'\<lparr>current_tag := DMA_QUEUE_TAG_INVALID\<rparr>)
        else do {
          (nxt, q) \<leftarrow> queue_dequeue q';
          let m = put_queue tag q m';
          let intc_mask = flush_intc_mask (cpu_intc_mask_get m);
          let scu_mask = scu_ic_mask_get m AND NOT 0x00000800;
          let m = scu_ic_mask_set scu_mask (cpu_intc_mask_set intc_mask m);
          m \<leftarrow> queue_request_start hw run tag nxt m;
          dma_queue_flush_wait hw run hdl m
        })"
    "machine_ok m'" "current_tag m' = tag" "dma_queues m' = (dma_queues m)[unat tag := q']"
    "scu_writes m' = scu_writes m" "dma_machine.more m' = notify eff st cur (dma_machine.more m)"
    "get_queue tag m' = Some q'"
proof -
  have inv: "current_tag m \<noteq> DMA_QUEUE_TAG_INVALID"
    using tag by (auto simp: DMA_QUEUE_TAG_INVALID_def)
  obtain m1 where m1: "scu_dma_level_wait hw run 0 m = Some m1" "polled m m1"
    using scu_dma_level_wait_returns [OF run hw ok, of 0] by auto
  note same = dma_more_eqD [of m1 m]
  have more1: "machine.more m1 = machine.more m" using m1(2) by (simp add: polled_def)
  let ?g = "set_status (\<lambda>s. (s AND NOT DMA_QUEUE_STATUS_PROCESSING) OR DMA_QUEUE_STATUS_COMPLETE)"
  let ?m2 = "put_queue tag q' m1"
  let ?m' = "?m2\<lparr>dma_machine.more := notify eff st cur (dma_machine.more m)\<rparr>"
  have g: "?g cur = set_status (\<lambda>_. st) cur" by (simp add: set_status_def st)
  have g1: "get_queue tag m1 = Some q" using tag len q(1) by (simp add: get_queue_def same [OF more1])
  have top: "unat (queue_top q) = slot (sint (head q))" unfolding queue_top_def by (rule unat_slot)
  have up: "update_request tag (queue_top q) ?g m1 = Some ?m2"
    using g1 top q(2) cur(1) q' g by (simp add: update_request_def)
  have g2: "get_queue tag ?m2 = Some q'" using tag len by (simp add: get_queue_def same [OF more1])
  have "read_at (requests q') (queue_top q) = Some (set_status (\<lambda>_. st) cur)" using top q(2) q' by simp
  from call_request_handler_eq [OF hdl g2 this] cur(2)
  have call: "call_request_handler hdl tag (queue_top q) ?m2 = Some ?m'" by (simp add: same [OF more1])
  have g3: "get_queue tag ?m' = Some q'" using g2 by (simp add: get_queue_def)
  show thesis
  proof (rule that)
    show "dma_queue_flush_wait hw run hdl m =
       (if queue_flush_empty q' then Some (?m'\<lparr>current_tag := DMA_QUEUE_TAG_INVALID\<rparr>)
        else do {
          (nxt, q) \<leftarrow> queue_dequeue q';
          let m = put_queue tag q ?m';
          let intc_mask = flush_intc_mask (cpu_intc_mask_get m);
          let scu_mask = scu_ic_mask_get m AND NOT 0x00000800;
          let m = scu_ic_mask_set scu_mask (cpu_intc_mask_set intc_mask m);
          m \<leftarrow> queue_request_start hw run tag nxt m;
          dma_queue_flush_wait hw run hdl m
        })"
      apply (subst dma_queue_flush_wait.simps)
      using inv m1(1) tag(1) same [OF more1] g1 up call g3 by (simp only: if_False bind.simps Let_def)
    show "machine_ok ?m'" using polled_ok [OF m1(2)] by simp
  qed (use g3 tag same [OF more1] m1(2) in \<open>simp_all add: polled_def\<close>)
qed

lemma flush_round:
  fixes m :: "'a dma_machine_scheme"
  assumes run: "quiet_callback run" and hw: "live_hardware hw" and hdl: "client_handlers hdl eff"
    and ok: "machine_ok m" and len: "length (dma_queues m) = 3"
    and tag: "current_tag m = tag" "unat tag < 3"
    and fl: "in_flight tag cur rs rest (dma_queues m ! unat tag)"
  obtains m' q' where
    "dma_queue_flush_wait hw run hdl m =
       (if queue_flush_empty q' then Some (m'\<lparr>current_tag := DMA_QUEUE_TAG_INVALID\<rparr>)
        else do {
          (nxt, q) \<leftarrow> queue_dequeue q';
          let m = put_queue tag q m';
          let intc_mask = flush_intc_mask (cpu_intc_mask_get m);
          let scu_mask = scu_ic_mask_get m AND NOT 0x00000800;
          let m = scu_ic_mask_set scu_mask (cpu_intc_mask_set intc_mask m);
          m \<leftarrow> queue_request_start hw run tag nxt m;
          dma_queue_flush_wait hw run hdl m
        })"
    "machine_ok m'" "current_tag m' = tag" "dma_queues m' = (dma_queues m)[unat tag := q']"
    "scu_writes m' = scu_writes m" "dma_machine.more m' = notify eff 8 cur (dma_machine.more m)"
    "queue_ok q'" "queued q' = rs @ rest" "length (queued q') < 32" "queue_flush_empty q' \<longleftrightarrow> rs = []"
    "sint (flush_tail q') = sint (head q') + int (length rs)" "get_queue tag m' = Some q'"
proof -
  let ?q = "dma_queues m ! unat tag"
  note fl' = fl [unfolded in_flight_def]
  let ?q' = "?q\<lparr>requests := (requests ?q)[slot (sint (head ?q)) := set_status (\<lambda>_. 8) cur]\<rparr>"
  have lr: "length (requests ?q) = 32" using fl' by (simp add: queue_ok_def)
  have cur: "cur = requests ?q ! slot (sint (head ?q))" "request_handler cur \<noteq> Null_handler" using fl' by auto
  have st: "8 = (status (transfer cur) AND NOT DMA_QUEUE_STATUS_PROCESSING) OR DMA_QUEUE_STATUS_COMPLETE"
    using fl' by (simp add: DMA_QUEUE_STATUS_PROCESSING_def DMA_QUEUE_STATUS_COMPLETE_def)
  have qok: "queue_ok ?q'" using fl' by (intro queue_ok_update_head_slot) auto
  have qd: "queued ?q' = queued ?q" using fl' by (intro update_head_slot) auto
  have fe: "queue_flush_empty ?q' \<longleftrightarrow> rs = []"
    using queue_flush_empty_iff [OF fl] by (simp add: queue_flush_empty_def)
  have ft: "sint (flush_tail ?q') = sint (head ?q') + int (length rs)" using fl' by simp
  have le: "queued ?q' = rs @ rest" "length (queued ?q') < 32" using fl' unfolding qd by blast+
  show thesis
    by (rule wait_top [OF run hw hdl ok len tag refl lr cur st refl]) (rule that [OF _ _ _ _ _ _ qok le fe ft])
qed

lemma mask_set_dma_frame [simp]:
  fixes m :: "'a dma_machine_scheme"
  shows "dma_queues (cpu_intc_mask_set k m) = dma_queues m"
    "current_tag (cpu_intc_mask_set k m) = current_tag m"
    "dma_machine.more (cpu_intc_mask_set k m) = dma_machine.more m"
    "dma_queues (scu_ic_mask_set v m) = dma_queues m"
    "current_tag (scu_ic_mask_set v m) = current_tag m"
    "dma_machine.more (scu_ic_mask_set v m) = dma_machine.more m"
  by (simp_all add: scu_ic_mask_set_def cpu_intc_mask_set_def)

text \<open>Taking the next request out of the queue and starting it puts it in flight.\<close>

lemma start_next:
  fixes m :: "'a dma_machine_scheme"
  assumes run: "quiet_callback run" and hw: "live_hardware hw"
    and ok: "machine_ok m" and len: "length (dma_queues m) = 3" and tag: "unat tag < 3"
    and q: "queue_ok q" "queued q = r # rs @ rest"
      "sint (flush_tail q) = sint (head q) + int (Suc (length rs))"
    and frame: "\<And>q m. machine_ok (F q m) = machine_ok m" "\<And>q m. scu_writes (F q m) = scu_writes m"
      "\<And>q m. dma_queues (F q m) = (dma_queues m)[unat tag := q]"
  obtains i q' m' where "queue_dequeue q = Some (i, q')"
    "queue_request_start hw run tag i (F q' m) = Some m'" "machine_ok m'"
    "machine.more m' = machine.more (F q' m)" "scu_writes m' = scu_writes m @ transfer_writes r"
    "in_flight tag (set_status (\<lambda>s. (s AND NOT 1) OR 2) r) rs rest q'"
    "read_at (requests q') i = Some (set_status (\<lambda>s. (s AND NOT 1) OR 2) r)"
proof -
  obtain i q' where d: "queue_dequeue q = Some (i, q')" "unat i = slot (sint (head q'))"
      "requests q' ! unat i = set_status (\<lambda>s. (s AND NOT 1) OR 2) r"
      "sint (head q') = sint (head q) + 1" "flush_tail q' = flush_tail q"
      "queued q' = rs @ rest" "queue_ok q'" "read_at (requests q') i = Some (requests q' ! unat i)"
    using queue_dequeue_spec [OF q(1,2)] by blast
  have "fresh r" using q(1,2) by (simp add: queue_ok_def)
  moreover have "length (queued q) \<le> 32" using length_queued [OF q(1)] q(1) by (simp add: queue_ok_def)
  ultimately have fl: "in_flight tag (set_status (\<lambda>s. (s AND NOT 1) OR 2) r) rs rest q'"
    using d q by (simp add: in_flight_def fresh_def DMA_QUEUE_STATUS_UNPROCESSED_def
        DMA_QUEUE_STATUS_PROCESSING_def)
  have g: "get_queue tag (F q' m) = Some q'" using len tag by (simp add: get_queue_def frame)
  have okF: "machine_ok (F q' m)" using ok by (simp add: frame)
  obtain m' where "queue_request_start hw run tag i (F q' m) = Some m'" "machine_ok m'"
      "machine.more m' = machine.more (F q' m)"
      "scu_writes m' = scu_writes (F q' m) @ transfer_writes (requests q' ! unat i)"
    by (rule queue_request_start_returns [OF run hw okF g d(8)])
  with d fl show thesis by (intro that [of i q' m']) (simp_all add: frame)
qed

lemma dma_queue_flush_wait_spec:
  fixes m :: "'a dma_machine_scheme"
  assumes run: "quiet_callback run" and hw: "live_hardware hw" and hdl: "client_handlers hdl eff"
    and "machine_ok m" and "length (dma_queues m) = 3"
    and "current_tag m = tag" and tag: "unat tag < 3"
    and "in_flight tag cur rs rest (dma_queues m ! unat tag)"
  shows "\<exists>m' q'. dma_queue_flush_wait hw run hdl m = Some m' \<and> machine_ok m' \<and>
    current_tag m' = DMA_QUEUE_TAG_INVALID \<and> dma_queues m' = (dma_queues m)[unat tag := q'] \<and>
    scu_writes m' = scu_writes m @ concat (map transfer_writes rs) \<and>
    dma_machine.more m' = fold (notify eff 8) (cur # rs) (dma_machine.more m) \<and>
    queue_ok q' \<and> queued q' = rest"
  using assms(4,5,6,8)
proof (induction rs arbitrary: m cur)
  case Nil
  note pr = Nil.prems
  show ?case
    by (rule flush_round [OF run hw hdl pr(1,2,3) tag pr(4)]) auto
next
  case (Cons r rs)
  note pr = Cons.prems
  define F where "F q m = (let m = put_queue tag q m; intc_mask = flush_intc_mask (cpu_intc_mask_get m);
          scu_mask = scu_ic_mask_get m AND NOT 0x00000800
        in scu_ic_mask_set scu_mask (cpu_intc_mask_set intc_mask m))"
    for q and m :: "'a dma_machine_scheme"
  have fr: "machine_ok (F q m) = machine_ok m" "scu_writes (F q m) = scu_writes m"
     "dma_queues (F q m) = (dma_queues m)[unat tag := q]" "current_tag (F q m) = current_tag m"
     "dma_machine.more (F q m) = dma_machine.more m" for q and m :: "'a dma_machine_scheme"
    by (simp_all add: F_def Let_def)
  obtain m1 q1 where m1: "dma_queue_flush_wait hw run hdl m =
       (if queue_flush_empty q1 then Some (m1\<lparr>current_tag := DMA_QUEUE_TAG_INVALID\<rparr>)
        else do {
          (nxt, q) \<leftarrow> queue_dequeue q1;
          let m = put_queue tag q m1;
          let intc_mask = flush_intc_mask (cpu_intc_mask_get m);
          let scu_mask = scu_ic_mask_get m AND NOT 0x00000800;
          let m = scu_ic_mask_set scu_mask (cpu_intc_mask_set intc_mask m);
          m \<leftarrow> queue_request_start hw run tag nxt m;
          dma_queue_flush_wait hw run hdl m
        })"
    "machine_ok m1" "current_tag m1 = tag" "dma_queues m1 = (dma_queues m)[unat tag := q1]"
    "scu_writes m1 = scu_writes m" "dma_machine.more m1 = notify eff 8 cur (dma_machine.more m)"
    "queue_ok q1" "queued q1 = (r # rs) @ rest" "queue_flush_empty q1 \<longleftrightarrow> r # rs = []"
    "sint (flush_tail q1) = sint (head q1) + int (length (r # rs))"
    by (rule flush_round [OF run hw hdl pr(1,2,3) tag pr(4)])
  have len1: "length (dma_queues m1) = 3" using m1(4) pr(2) by simp
  obtain i q2 m2 where s: "queue_dequeue q1 = Some (i, q2)"
      "queue_request_start hw run tag i (F q2 m1) = Some m2" "machine_ok m2"
      "machine.more m2 = machine.more (F q2 m1)" "scu_writes m2 = scu_writes m1 @ transfer_writes r"
      "in_flight tag (set_status (\<lambda>s. (s AND NOT 1) OR 2) r) rs rest q2"
    using start_next [OF run hw m1(2) len1 tag m1(7), of r rs rest F] m1(8,10) fr(1-3)
    by (metis append_Cons length_Cons)
  note same = dma_more_eqD [OF s(4)]
  have q2: "dma_queues m2 = (dma_queues m)[unat tag := q2]" using same(1) m1(4) by (simp add: fr)
  have eq: "dma_queue_flush_wait hw run hdl m = dma_queue_flush_wait hw run hdl m2"
    using m1(1,9) s(1,2) by (simp add: F_def Let_def)
  have "in_flight tag (set_status (\<lambda>s. (s AND NOT 1) OR 2) r) rs rest (dma_queues m2 ! unat tag)"
    using s(6) q2 tag pr(2) by simp
  from Cons.IH [OF s(3) _ _ this] q2 pr(2) same(2) m1(3)
  obtain m' q' where "dma_queue_flush_wait hw run hdl m2 = Some m'" "machine_ok m'"
      "current_tag m' = DMA_QUEUE_TAG_INVALID" "dma_queues m' = (dma_queues m2)[unat tag := q']"
      "scu_writes m' = scu_writes m2 @ concat (map transfer_writes rs)"
      "dma_machine.more m' = fold (notify eff 8) (r # rs) (dma_machine.more m2)"
      "queue_ok q'" "queued q' = rest"
    by (auto simp: fr)
  with eq q2 s(5) m1(5,6) same(3) show ?case by (auto simp: fr)
qed
lemma queued_flush_tail [simp]: "queued (q\<lparr>flush_tail := t\<rparr>) = queued q"
  by (simp add: queued_def)

lemma dma_queue_flush_spec:
  fixes m :: "'a dma_machine_scheme"
  assumes run: "quiet_callback run" and hw: "live_hardware hw" and hdl: "client_handlers hdl eff"
    and ok: "dma_ok m" and cur: "current_tag m = DMA_QUEUE_TAG_INVALID" and tag: "unat tag < 3"
    and rs: "queued (dma_queues m ! unat tag) = r # rs"
  shows "\<exists>m' q'. dma_queue_flush hw run hdl tag m = Some (0, m') \<and> machine_ok m' \<and>
    current_tag m' = tag \<and> dma_queues m' = (dma_queues m)[unat tag := q'] \<and>
    scu_writes m' = scu_writes m @ transfer_writes r \<and>
    dma_machine.more m' = notify eff 2 r (dma_machine.more m) \<and>
    in_flight tag (set_status (\<lambda>s. (s AND NOT 1) OR 2) r) rs [] q'"
proof -
  let ?q = "dma_queues m ! unat tag"
  let ?qf = "?q\<lparr>flush_tail := tail ?q\<rparr>"
  define m0 where "m0 = cpu_intc_mask_set 15 m"
  define m1 where "m1 = (put_queue tag ?qf m0)\<lparr>current_tag := tag\<rparr>"
  define F where "F q m = (put_queue tag q m)\<lparr>dma_machine.more := notify eff 2 r (dma_machine.more m)\<rparr>"
    for q and m :: "'a dma_machine_scheme"
  have fr: "machine_ok (F q m) = machine_ok m" "scu_writes (F q m) = scu_writes m"
     "dma_queues (F q m) = (dma_queues m)[unat tag := q]" "current_tag (F q m) = current_tag m"
     "dma_machine.more (F q m) = notify eff 2 r (dma_machine.more m)"
    for q and m :: "'a dma_machine_scheme"
    by (simp_all add: F_def)
  note qok = dma_okD(3) [OF ok tag] and len = dma_okD(2) [OF ok]
  have m1: "machine_ok m1" "length (dma_queues m1) = 3" "dma_queues m1 = (dma_queues m)[unat tag := ?qf]"
      "scu_writes m1 = scu_writes m" "dma_machine.more m1 = dma_machine.more m" "current_tag m1 = tag"
    using dma_okD(1) [OF ok] len by (simp_all add: m1_def m0_def)
  have q0: "queue_ok ?qf" "queued ?qf = r # rs @ []"
      "sint (flush_tail ?qf) = sint (head ?qf) + int (Suc (length rs))"
    using qok rs length_queued [OF qok] by (simp_all add: queue_ok_def)
  obtain i q2 m2 where s: "queue_dequeue ?qf = Some (i, q2)"
      "queue_request_start hw run tag i (F q2 m1) = Some m2" "machine_ok m2"
      "machine.more m2 = machine.more (F q2 m1)" "scu_writes m2 = scu_writes m1 @ transfer_writes r"
      "in_flight tag (set_status (\<lambda>s. (s AND NOT 1) OR 2) r) rs [] q2"
      "read_at (requests q2) i = Some (set_status (\<lambda>s. (s AND NOT 1) OR 2) r)"
    by (rule start_next [OF run hw m1(1,2) tag q0, of F]) (auto simp: fr)
  have st: "status (transfer (set_status (\<lambda>s. (s AND NOT 1) OR 2) r)) = 2"
    and nn: "request_handler (set_status (\<lambda>s. (s AND NOT 1) OR 2) r) \<noteq> Null_handler"
    using s(6) by (auto simp: in_flight_def DMA_QUEUE_STATUS_PROCESSING_def)
  have "get_queue tag (put_queue tag q2 m1) = Some q2" using tag m1(2) by (simp add: get_queue_def)
  from call_request_handler_eq [OF hdl this s(7) nn]
  have call: "call_request_handler hdl tag i (put_queue tag q2 m1) = Some (F q2 m1)"
    unfolding st by (simp add: F_def)
  note same = dma_more_eqD [OF s(4)]
  let ?m' = "scu_ic_mask_set (scu_ic_mask_get m0 AND NOT 0x00000800)
        (cpu_intc_mask_set (flush_intc_mask (cpu_intc_mask_get m)) m2)"
  have "dma_queue_flush_wait hw run hdl m = Some m"
    using cur by (subst dma_queue_flush_wait.simps) simp
  moreover have "get_queue tag m0 = Some ?q" using dma_okD(4) [OF ok tag] by (simp add: m0_def get_queue_def)
  moreover have "\<not> queue_empty ?q" using queue_empty_iff [OF qok] rs by simp
  moreover have "tag < DMA_QUEUE_TAG_COUNT" using tag tag_less by simp
  ultimately have "dma_queue_flush hw run hdl tag m = Some (0, ?m')"
    using s(1,2) call by (simp add: dma_queue_flush_def m0_def [symmetric] m1_def [symmetric])
  then show ?thesis
    using s m1 same by (intro exI [of _ ?m'] exI [of _ q2]) (simp add: fr)
qed
section \<open>Properties\<close>

text \<open>C17: A DMA queue is a bounded first-in first-out queue. As long as its 8-bit tail counter has
  not reached its maximum, enqueueing on a full queue (32 requests) returns -1 and changes
  nothing; otherwise it returns 0 and appends the request, unprocessed and with \<open>NULL\<close> replaced
  by the default handler, after the ones already queued. Only one slot and the tail of that queue
  change: its head, its flush mark and its other slots, the other queues, the driver's state
  and the CPU's interrupt mask are as before.\<close>

theorem dma_queue_enqueue_correct:
  fixes m :: "'a dma_machine_scheme"
  assumes ok: "dma_ok m" and tag: "unat tag < 3"
    and q: "q = dma_queues m ! unat tag" and top: "sint (tail q) < 127"
    and r: "r = \<lparr>request_handle = h, request_handler = (if rh = Null_handler then Default_handler else rh),
      transfer = \<lparr>status = DMA_QUEUE_STATUS_UNPROCESSED, transfer_work = wk\<rparr>\<rparr>"
    and q': "q' = q\<lparr>tail := tail q + 1, requests := (requests q)[slot (sint (tail q + 1)) := r]\<rparr>"
  shows "if length (queued q) = 32 then dma_queue_enqueue h tag rh wk m = Some (-1, m)
    else dma_queue_enqueue h tag rh wk m = Some (0, m\<lparr>dma_queues := (dma_queues m)[unat tag := q']\<rparr>) \<and>
      queued q' = queued q @ [r] \<and> dma_ok (m\<lparr>dma_queues := (dma_queues m)[unat tag := q']\<rparr>)"
proof -
  have qok: "queue_ok q" and len: "length (dma_queues m) = 3" using dma_okD(2,3) [OF ok] tag q by auto
  have r': "r = new_request h rh wk" by (simp add: r new_request_def)
  have q'': "q' = appended r q" by (simp add: q' appended_def)
  show ?thesis
  proof (cases "length (queued q) = 32")
    case True
    then show ?thesis using dma_queue_enqueue_full [OF len tag] queue_full_iff [OF qok] q by simp
  next
    case False
    then have room: "length (queued q) < 32" using length_queued [OF qok] qok by (auto simp: queue_ok_def)
    note new = queued_appended [OF qok room top, of r]
    have "dma_ok (m\<lparr>dma_queues := (dma_queues m)[unat tag := q']\<rparr>)"
      by (rule dma_ok_update [OF ok new(2)]) (simp_all add: dma_okD(1) [OF ok] q'' r')
    then show ?thesis
      using False new dma_queue_enqueue_accept [OF len tag q, of h rh wk] queue_full_iff [OF qok] qok
      by (simp add: q'' r' queue_ok_def)
  qed
qed

text \<open>A machine with three empty queues, for concrete runs. Its client state is a log of calls.\<close>

definition blank_request :: dma_queue_request where
  "blank_request = \<lparr>request_handle = \<lparr>dnr = 0, dnw = 0, dnc = 0, dnad = 0, dnmd = 0\<rparr>,
     request_handler = Default_handler, transfer = \<lparr>status = 0, transfer_work = 0\<rparr>\<rparr>"

definition idle_queue :: "s8 \<Rightarrow> dma_queue" where
  "idle_queue k = \<lparr>requests = replicate 32 blank_request, head = k, tail = k, flush_tail = k\<rparr>"

definition idle_machine :: "s8 \<Rightarrow> (u32 \<times> dma_queue_transfer) list dma_machine_scheme" where
  "idle_machine k = \<lparr>sr = 0, ccr = 0, ims = 0xBFFF,
     ihrs = (\<lambda>v. if v = 0x4B then Ihr_dma_level 0 else if v = 0x4A then Ihr_dma_level 1
                 else if v = 0x49 then Ihr_dma_level 2 else Ihr_null),
     scu_writes = [],
     levels = replicate 3 \<lparr>flags = LEVEL_STATE_IDLING, level_callback = \<lparr>handler = Default_handler, work = 0\<rparr>\<rparr>,
     clock = 0, current_tag = DMA_QUEUE_TAG_INVALID, dma_queues = replicate 3 (idle_queue k),
     simple_handle = \<lparr>dnr = 0, dnw = 0, dnc = 0, dnad = 0x101, dnmd = 0x10100\<rparr>, \<dots> = []\<rparr>"

definition log_handler ::
  "u32 \<Rightarrow> dma_queue_transfer \<Rightarrow> (u32 \<times> dma_queue_transfer) list dma_machine_scheme
     \<Rightarrow> (u32 \<times> dma_queue_transfer) list dma_machine_scheme option" where
  "log_handler f t m = Some (m\<lparr>dma_machine.more := dma_machine.more m @ [(f, t)]\<rparr>)"

definition test_handle :: "u32 \<Rightarrow> scu_dma_handle" where
  "test_handle k = \<lparr>dnr = k, dnw = 0x25C00000, dnc = 32, dnad = 0x101, dnmd = 0\<rparr>"

lemma idle_queue_ok: "queue_ok (idle_queue k)" and queued_idle: "queued (idle_queue k) = []"
  by (simp_all add: queue_ok_def idle_queue_def queued_def)

lemma idle_machine_ok: "dma_ok (idle_machine k)"
  by (auto simp: dma_ok_def machine_ok_def idle_machine_def idle_queue_ok dest!: level_cases)

lemma log_handler_client: "client_handlers log_handler (\<lambda>f t log. log @ [(f, t)])"
  by (simp add: client_handlers_def log_handler_def)

theorem dma_queue_enqueue_correct_witness:
  "\<exists>q'. dma_queue_enqueue (test_handle 1) 1 Null_handler 5 (idle_machine (-1))
     = Some (0, (idle_machine (-1))\<lparr>dma_queues := (dma_queues (idle_machine (-1)))[1 := q']\<rparr>) \<and>
   flush_tail q' = -1 \<and> head q' = -1 \<and> tail q' = 0 \<and> length (queued q') = 1"
proof -
  have 1: "unat (1 :: u8) < 3" by simp
  have q: "idle_queue (-1) = dma_queues (idle_machine (-1)) ! unat (1 :: u8)"
    by (simp add: idle_machine_def)
  have 2: "sint (tail (idle_queue (-1))) < 127" by (simp add: idle_queue_def)
  show ?thesis
    using dma_queue_enqueue_correct [OF idle_machine_ok 1 q 2 refl refl, of "test_handle 1" Null_handler 5]
    unfolding queued_idle by (auto simp: idle_queue_def)
qed

text \<open>C9: Flushing a tag and waiting for it carries out every request that was queued, in the order
  in which they were queued: the SCU sees exactly the register writes of these transfers on
  level 0, one after the other. Each request's handler is told once, on completion (status
  \<open>COMPLETE\<close>), in the same order; the first one is also told when it starts (status
  \<open>PROCESSING\<close>). Afterwards the queue is empty and no flush is active. This holds with handlers
  that act on their own data and hardware that does not stay busy for ever.\<close>

theorem dma_queue_flush_transfers_all:
  fixes m :: "'a dma_machine_scheme"
  assumes "quiet_callback run" and "live_hardware hw" and "client_handlers hdl eff"
    and "dma_ok m" and "current_tag m = DMA_QUEUE_TAG_INVALID" and "unat tag < 3"
    and "queued (dma_queues m ! unat tag) = r # rs"
  shows "\<exists>m1 m2 q'. dma_queue_flush hw run hdl tag m = Some (0, m1) \<and>
    dma_queue_flush_wait hw run hdl m1 = Some m2 \<and>
    scu_writes m2 = scu_writes m @ concat (map transfer_writes (r # rs)) \<and>
    dma_machine.more m2 = fold (notify eff 8) (r # rs) (notify eff 2 r (dma_machine.more m)) \<and>
    dma_queues m2 = (dma_queues m)[unat tag := q'] \<and> queued q' = [] \<and>
    dma_ok m2 \<and> current_tag m2 = DMA_QUEUE_TAG_INVALID"
proof -
  obtain m1 q1 where f: "dma_queue_flush hw run hdl tag m = Some (0, m1)" "machine_ok m1"
      "current_tag m1 = tag" "dma_queues m1 = (dma_queues m)[unat tag := q1]"
      "scu_writes m1 = scu_writes m @ transfer_writes r"
      "dma_machine.more m1 = notify eff 2 r (dma_machine.more m)"
      "in_flight tag (set_status (\<lambda>s. (s AND NOT 1) OR 2) r) rs [] q1"
    using dma_queue_flush_spec [OF assms] by blast
  have len: "length (dma_queues m1) = 3" using f(4) dma_okD(2) [OF assms(4)] by simp
  have "in_flight tag (set_status (\<lambda>s. (s AND NOT 1) OR 2) r) rs [] (dma_queues m1 ! unat tag)"
    using f(4,7) dma_okD(2) [OF assms(4)] assms(6) by simp
  from dma_queue_flush_wait_spec [OF assms(1,2,3) f(2) len f(3) assms(6) this]
  obtain m2 q' where "dma_queue_flush_wait hw run hdl m1 = Some m2" "machine_ok m2"
      "current_tag m2 = DMA_QUEUE_TAG_INVALID" "dma_queues m2 = (dma_queues m1)[unat tag := q']"
      "scu_writes m2 = scu_writes m1 @ concat (map transfer_writes rs)"
      "dma_machine.more m2 = fold (notify eff 8) (r # rs) (dma_machine.more m1)"
      "queue_ok q'" "queued q' = []"
    by auto
  with f show ?thesis
    by (intro exI [of _ m1] exI [of _ m2] exI [of _ q'])
       (auto intro: dma_ok_update [OF assms(4)])
qed
definition loaded_queue :: dma_queue where
  "loaded_queue = \<lparr>requests = (replicate 32 blank_request)[0 := new_request (test_handle 1) (User_handler 7) 9],
     head = -1, tail = 0, flush_tail = -1\<rparr>"

definition loaded_machine :: "(u32 \<times> dma_queue_transfer) list dma_machine_scheme" where
  "loaded_machine = (idle_machine (-1))\<lparr>dma_queues := [loaded_queue, idle_queue (-1), idle_queue (-1)]\<rparr>"

lemma queued_loaded: "queued loaded_queue = [new_request (test_handle 1) (User_handler 7) 9]"
  by (simp add: queued_def loaded_queue_def slot_def)

lemma loaded_machine_ok: "dma_ok loaded_machine"
proof -
  have "queue_ok loaded_queue"
    unfolding queue_ok_def queued_loaded by (simp add: loaded_queue_def)
  then show ?thesis
    using idle_machine_ok [of "-1"] by (auto simp: dma_ok_def loaded_machine_def idle_queue_ok)
qed

theorem dma_queue_flush_transfers_all_witness:
  "\<exists>m1 m2. dma_queue_flush idle_hardware (\<lambda>f wk m. Some m) log_handler 0 loaded_machine = Some (0, m1) \<and>
     dma_queue_flush_wait idle_hardware (\<lambda>f wk m. Some m) log_handler m1 = Some m2 \<and>
     dma_machine.more m2 = [(7, \<lparr>status = 2, transfer_work = 9\<rparr>), (7, \<lparr>status = 8, transfer_work = 9\<rparr>)]"
proof -
  have q: "queued (dma_queues loaded_machine ! unat (0 :: u8))
      = new_request (test_handle 1) (User_handler 7) 9 # []"
    by (simp add: loaded_machine_def queued_loaded)
  have c: "current_tag loaded_machine = DMA_QUEUE_TAG_INVALID" "unat (0 :: u8) < 3"
      "dma_machine.more loaded_machine = []"
    by (simp_all add: loaded_machine_def idle_machine_def)
  from dma_queue_flush_transfers_all [OF no_callback_quiet idle_hardware_live log_handler_client
      loaded_machine_ok c(1,2) q] c(3)
  show ?thesis by (auto simp: notify_def new_request_def)
qed

text \<open>Enqueues of several requests in a row on one tag, with the result of each.\<close>

fun enqueue_all ::
  "(scu_dma_handle \<times> callback_handler \<times> u32) list \<Rightarrow> u8 \<Rightarrow> 'a dma_machine_scheme
     \<Rightarrow> (s8 list \<times> 'a dma_machine_scheme) option" where
  "enqueue_all [] tag m = Some ([], m)"
| "enqueue_all ((h, rh, wk) # rs) tag m =
     dma_queue_enqueue h tag rh wk m \<bind> (\<lambda>(st, m).
       enqueue_all rs tag m \<bind> (\<lambda>(sts, m). Some (st # sts, m)))"

text \<open>Once the tail counter has wrapped around below the head counter, the queue counts as neither full
  nor small.\<close>

lemma wrapped_queue:
  assumes "sint (tail q) < sint (head q)"
  shows "\<not> queue_full q" "32 < unat (queue_size q)"
proof -
  define d where "d = sint (head q) - sint (tail q)"
  have d: "0 < d" "d \<le> 255" using assms sint8_bounds [of "tail q"] sint8_bounds [of "head q"] by (auto simp: d_def)
  have "queue_size q = word_of_int (- d)" by (simp add: queue_size_def d_def)
  then have "uint (queue_size q) = (- d) mod 2 ^ 32" by (simp only: uint_word_of_int) simp
  also have "\<dots> = 2 ^ 32 - d" using d by (subst zmod_zminus1_eq_if) simp
  finally have u: "uint (queue_size q) = 2 ^ 32 - d" .
  then have "int (unat (queue_size q)) = 4294967296 - d" by simp
  then show "32 < unat (queue_size q)" using d by linarith
  then show "\<not> queue_full q" by (auto simp: queue_full_def DMA_QUEUE_REQUESTS_MAX_COUNT_def)
qed

lemma enqueue_all_wrapped:
  fixes m :: "'a dma_machine_scheme"
  assumes "length (dma_queues m) = 3" "unat tag < 3" "length (requests (dma_queues m ! unat tag)) = 32"
    "sint (tail (dma_queues m ! unat tag)) + int (length rs) < sint (head (dma_queues m ! unat tag))"
  shows "\<exists>m'. enqueue_all rs tag m = Some (replicate (length rs) 0, m') \<and> length (dma_queues m') = 3 \<and>
    head (dma_queues m' ! unat tag) = head (dma_queues m ! unat tag) \<and>
    sint (tail (dma_queues m' ! unat tag)) = sint (tail (dma_queues m ! unat tag)) + int (length rs)"
  using assms
proof (induction rs arbitrary: m)
  case (Cons r rs)
  obtain h rh wk where r: "r = (h, rh, wk)" by (cases r)
  let ?q = "dma_queues m ! unat tag"
  let ?m = "m\<lparr>dma_queues := (dma_queues m)[unat tag := appended (new_request h rh wk) ?q]\<rparr>"
  have "\<not> queue_full ?q" using wrapped_queue(1) [of ?q] Cons.prems(4) by simp
  then have e: "dma_queue_enqueue h tag rh wk m = Some (0, ?m)"
    by (rule dma_queue_enqueue_accept [OF Cons.prems(1,2) refl Cons.prems(3)])
  have t: "sint (tail ?q + 1) = sint (tail ?q) + 1"
    using Cons.prems(4) sint8_bounds(2) [of "head ?q"] by (intro sint_Suc8) simp
  have "\<exists>m'. enqueue_all rs tag ?m = Some (replicate (length rs) 0, m') \<and> length (dma_queues m') = 3 \<and>
    head (dma_queues m' ! unat tag) = head (dma_queues ?m ! unat tag) \<and>
    sint (tail (dma_queues m' ! unat tag)) = sint (tail (dma_queues ?m ! unat tag)) + int (length rs)"
    using Cons.prems t by (intro Cons.IH) simp_all
  then show ?case using r e Cons.prems(1,2) t by auto
qed simp

text \<open>C34: The 8-bit counters overflow. On any queue that is not full and whose tail counter stands at
  127, any 33 requests in a row are all accepted, although the capacity is 32, and
  \<open>dma_queue_count_get\<close> then reports more requests than the capacity.\<close>

theorem dma_queue_counter_overflow:
  fixes m :: "'a dma_machine_scheme"
  assumes ok: "dma_ok m" and tag: "unat tag < 3" and q: "q = dma_queues m ! unat tag" "tail q = 127"
    and room: "length (queued q) < 32" and rs: "length rs = 33"
  shows "\<exists>m' m'' n. enqueue_all rs tag m = Some (replicate 33 0, m') \<and>
    dma_queue_count_get tag m' = Some (n, m'') \<and> dma_queue_capacity_get < n"
proof -
  obtain h rh wk rs' where r: "rs = (h, rh, wk) # rs'" "length rs' = 32"
    using rs by (cases rs) auto
  have qok: "queue_ok q" and len: "length (dma_queues m) = 3" using dma_okD(2,3) [OF ok] tag q by auto
  have l32: "length (requests q) = 32" using qok by (simp add: queue_ok_def)
  let ?m = "m\<lparr>dma_queues := (dma_queues m)[unat tag := appended (new_request h rh wk) q]\<rparr>"
  have "\<not> queue_full q" using queue_full_iff [OF qok] room by simp
  then have e: "dma_queue_enqueue h tag rh wk m = Some (0, ?m)"
    by (rule dma_queue_enqueue_accept [OF len tag q(1) l32])
  have s: "sint (127 :: s8) = 127" "sint (127 + 1 :: s8) = - 128" by code_simp+
  have hd: "96 \<le> sint (head q)" using length_queued [OF qok] room q(2) s(1) by simp
  obtain m' where m': "enqueue_all rs' tag ?m = Some (replicate 32 0, m')" "length (dma_queues m') = 3"
      "head (dma_queues m' ! unat tag) = head q" "sint (tail (dma_queues m' ! unat tag)) = - 96"
    using enqueue_all_wrapped [of ?m tag rs'] len tag l32 hd r(2) q(2) s(2) by auto
  let ?q = "dma_queues m' ! unat tag"
  have "32 < unat (queue_size ?q)" by (rule wrapped_queue(2)) (use m'(3,4) hd in simp)
  then have "dma_queue_capacity_get < queue_size ?q"
    by (simp add: dma_queue_capacity_get_def DMA_QUEUE_REQUESTS_MAX_COUNT_def word_less_nat_alt)
  moreover have "\<exists>m''. dma_queue_count_get tag m' = Some (queue_size ?q, m'')"
    using m'(2) tag tag_less by (simp add: dma_queue_count_get_def get_queue_def)
  moreover have "enqueue_all rs tag m = Some (replicate 33 0, m')" using r e m'(1) by (simp add: numeral_eq_Suc)
  ultimately show ?thesis by blast
qed

theorem dma_queue_counter_overflow_witness:
  "\<exists>m' m'' n. enqueue_all (replicate 33 (test_handle 1, User_handler 7, 9)) 2 (idle_machine 127) = Some (replicate 33 0, m') \<and>
    dma_queue_count_get 2 m' = Some (n, m'') \<and> dma_queue_capacity_get < n"
  using dma_queue_counter_overflow [OF idle_machine_ok, of 2 "idle_queue 127" 127
      "replicate 33 (test_handle 1, User_handler 7, 9)"]
  by (simp add: idle_machine_def queued_idle) (simp add: idle_queue_def)

text \<open>C35: A request in flight can be overwritten. The request being transferred has left the queue
  but still occupies its slot. Whenever the last request of a flush is in flight and 31 requests
  have been enqueued behind it, the next one is accepted and takes that slot: when the transfer
  ends, the handler told of its completion is that of the new request, which has not been
  transferred, and the handler of the finished request is not told.\<close>

theorem dma_queue_in_flight_overwritten:
  fixes m :: "'a dma_machine_scheme"
  assumes env: "quiet_callback run" "live_hardware hw" "client_handlers hdl eff"
    and ok: "machine_ok m" "length (dma_queues m) = 3" and tag: "current_tag m = tag" "unat tag < 3"
    and fl: "in_flight tag cur [] rest (dma_queues m ! unat tag)" "length rest = 31"
    and top: "sint (tail (dma_queues m ! unat tag)) < 127"
  shows "\<exists>m1 m2. dma_queue_enqueue h tag (User_handler f) wk m = Some (0, m1) \<and>
    dma_queue_flush_wait hw run hdl m1 = Some m2 \<and> scu_writes m2 = scu_writes m \<and>
    dma_machine.more m2 = eff f \<lparr>status = DMA_QUEUE_STATUS_UNPROCESSED OR DMA_QUEUE_STATUS_COMPLETE, transfer_work = wk\<rparr>
      (dma_machine.more m)"
proof -
  let ?q = "dma_queues m ! unat tag" and ?r = "new_request h (User_handler f) wk"
  note fl' = fl(1) [unfolded in_flight_def]
  have qok: "queue_ok ?q" and qd: "queued ?q = rest" using fl' by auto
  have l32: "length (requests ?q) = 32" using qok by (simp add: queue_ok_def)
  have full: "\<not> queue_full ?q" using queue_full_iff [OF qok] qd fl(2) by simp
  let ?q1 = "appended ?r ?q"
  let ?m1 = "m\<lparr>dma_queues := (dma_queues m)[unat tag := ?q1]\<rparr>"
  have e: "dma_queue_enqueue h tag (User_handler f) wk m = Some (0, ?m1)"
    by (rule dma_queue_enqueue_accept [OF ok(2) tag(2) refl l32 full])
  have "sint (tail ?q + 1) = sint (head ?q) + 32"
    using sint_Suc8 [OF top] length_queued [OF qok] qd fl(2) by simp
  then have slot: "slot (sint (tail ?q + 1)) = slot (sint (head ?q))" by (simp add: slot_def)
  have cur: "?r = requests ?q1 ! slot (sint (head ?q1))" "request_handler ?r \<noteq> Null_handler"
    using slot l32 by (simp_all add: appended_def new_request_def)
  have q1: "?q1 = dma_queues ?m1 ! unat tag" "length (requests ?q1) = 32" using ok(2) tag(2) l32 by simp_all
  have m1: "machine_ok ?m1" "length (dma_queues ?m1) = 3" "current_tag ?m1 = tag" using ok tag by simp_all
  let ?st = "(status (transfer ?r) AND NOT DMA_QUEUE_STATUS_PROCESSING) OR DMA_QUEUE_STATUS_COMPLETE"
  let ?q2 = "?q1\<lparr>requests := (requests ?q1)[slot (sint (head ?q1)) := set_status (\<lambda>_. ?st) ?r]\<rparr>"
  have fe: "queue_flush_empty ?q2" using queue_flush_empty_iff [OF fl(1)] by (simp add: queue_flush_empty_def)
  have st: "?st = DMA_QUEUE_STATUS_UNPROCESSED OR DMA_QUEUE_STATUS_COMPLETE"
    by (simp add: new_request_def DMA_QUEUE_STATUS_UNPROCESSED_def DMA_QUEUE_STATUS_PROCESSING_def DMA_QUEUE_STATUS_COMPLETE_def)
  obtain m' where "dma_queue_flush_wait hw run hdl ?m1 = Some (m'\<lparr>current_tag := DMA_QUEUE_TAG_INVALID\<rparr>)"
      "scu_writes m' = scu_writes ?m1" "dma_machine.more m' = notify eff ?st ?r (dma_machine.more ?m1)"
    by (rule wait_top [OF env m1(1,2,3) tag(2) q1 cur refl refl]) (use fe in simp)
  then show ?thesis
    using e st by (intro exI conjI) (assumption | simp add: notify_def new_request_def)+
qed

text \<open>A transfer in flight with 31 requests behind it.\<close>

definition flight_queue :: dma_queue where
  "flight_queue = \<lparr>requests = (replicate 32 (new_request (test_handle 2) (User_handler 8) 3))
       [0 := set_status (\<lambda>_. DMA_QUEUE_STATUS_PROCESSING) (new_request (test_handle 1) (User_handler 7) 9)],
     head = 0, tail = 31, flush_tail = 0\<rparr>"

definition flight_machine :: "(u32 \<times> dma_queue_transfer) list dma_machine_scheme" where
  "flight_machine = (idle_machine (-1))\<lparr>current_tag := 1, dma_queues := [idle_queue (-1), flight_queue, idle_queue (-1)]\<rparr>"

lemma flight_queue_in_flight:
  "in_flight 1 (set_status (\<lambda>_. DMA_QUEUE_STATUS_PROCESSING) (new_request (test_handle 1) (User_handler 7) 9)) []
     (replicate 31 (new_request (test_handle 2) (User_handler 8) 3)) flight_queue"
proof -
  have "requests flight_queue ! slot i = new_request (test_handle 2) (User_handler 8) 3" if "i \<in> set [1..31]" for i
  proof -
    have "0 < i" "i < 32" using that by auto
    then have "slot i = nat i" "0 < nat i" "nat i < 32" by (auto simp: slot_def)
    then show ?thesis by (simp add: flight_queue_def)
  qed
  then have "queued flight_queue = map (\<lambda>_. new_request (test_handle 2) (User_handler 8) 3) [1..31]"
    unfolding queued_def by (intro map_cong) (simp_all add: flight_queue_def)
  then have qd: "queued flight_queue = replicate 31 (new_request (test_handle 2) (User_handler 8) 3)"
    by (simp add: map_replicate_const)
  then have "queue_ok flight_queue" unfolding queue_ok_def by (auto simp: flight_queue_def)
  then show ?thesis
    unfolding in_flight_def qd by (simp add: flight_queue_def slot_def new_request_def)
qed

theorem dma_queue_in_flight_overwritten_witness:
  "\<exists>m1 m2. dma_queue_enqueue (test_handle 3) 1 (User_handler 5) 4 flight_machine = Some (0, m1) \<and>
    dma_queue_flush_wait idle_hardware (\<lambda>f wk m. Some m) log_handler m1 = Some m2 \<and> scu_writes m2 = scu_writes flight_machine \<and>
    dma_machine.more m2 = [(5, \<lparr>status = DMA_QUEUE_STATUS_UNPROCESSED OR DMA_QUEUE_STATUS_COMPLETE, transfer_work = 4\<rparr>)]"
proof -
  have ok: "machine_ok flight_machine" "length (dma_queues flight_machine) = 3" "current_tag flight_machine = 1"
    "dma_machine.more flight_machine = []"
    using dma_okD(1) [OF idle_machine_ok [of "-1"]] by (simp_all add: flight_machine_def) (simp add: idle_machine_def)
  have tag: "unat (1 :: u8) < 3" by simp
  have q: "dma_queues flight_machine ! unat (1 :: u8) = flight_queue" by (simp add: flight_machine_def)
  have t: "sint (tail flight_queue) < 127" by (simp add: flight_queue_def)
  show ?thesis
    using dma_queue_in_flight_overwritten [OF no_callback_quiet idle_hardware_live log_handler_client ok(1,2,3) tag
        flight_queue_in_flight [folded q] _ t [folded q], of "test_handle 3" 5 4] ok(4)
    by simp
qed

end
