(* ===== verification/Tlsf_Mapping.thy ===== *)
theory Tlsf_Mapping
  imports Prelude
begin

text \<open>
  The arithmetic of the TLSF allocator, \<open>libyaul/kernel/mm/tlsf.c\<close> (lines 47-341 and 468-541): bit
  scans, the constants of the 32-bit build, alignment, the adjustment of requests, and the
  mapping of block sizes to the two-level array of free lists.

  The C type \<open>int\<close> of the list indices is \<open>int\<close>: their computation never overflows. The SH-2 build
  uses the compiler's \<open>__builtin_ffs\<close> and \<open>__builtin_clz\<close>; the portable fallback of the file is
  modelled as well and shown to agree.
\<close>

section \<open>Bit scans\<close>

definition builtin_ffs :: "u32 \<Rightarrow> int" where
  "builtin_ffs w = (if w = 0 then 0 else int (length (takeWhile (\<lambda>i. \<not> bit w i) [0..<32])) + 1)"

definition builtin_clz :: "u32 \<Rightarrow> int" where
  "builtin_clz w = int (length (takeWhile (\<lambda>i. \<not> bit w i) (rev [0..<32])))"

definition tlsf_ffs :: "u32 \<Rightarrow> int" where
  "tlsf_ffs w = builtin_ffs w - 1"

definition tlsf_fls :: "u32 \<Rightarrow> int" where
  "tlsf_fls w = (let bit = (if w \<noteq> 0 then 32 - builtin_clz w else 0) in bit - 1)"

text \<open>The portable version: each step shifts the word up by half of the remaining distance when its
  upper part is empty.\<close>

definition fls_step :: "u32 \<Rightarrow> nat \<Rightarrow> u32 \<times> int \<Rightarrow> u32 \<times> int" where
  "fls_step upper k wb = (let (w, b) = wb in if w AND upper = 0 then (push_bit k w, b - int k) else (w, b))"

definition tlsf_fls_generic :: "u32 \<Rightarrow> int" where
  "tlsf_fls_generic w =
     (let b = (if w = 0 then 32 - 1 else 32);
          (w, b) = fls_step 0xffff0000 16 (w, b);
          (w, b) = fls_step 0xff000000 8 (w, b);
          (w, b) = fls_step 0xf0000000 4 (w, b);
          (w, b) = fls_step 0xc0000000 2 (w, b);
          (w, b) = fls_step 0x80000000 1 (w, b)
      in b)"

definition tlsf_ffs_generic :: "u32 \<Rightarrow> int" where
  "tlsf_ffs_generic w = tlsf_fls_generic (w AND (NOT w + 1)) - 1"

section \<open>Constants\<close>

definition SL_INDEX_COUNT_LOG2 :: int where "SL_INDEX_COUNT_LOG2 = 5"
definition ALIGN_SIZE :: u32 where "ALIGN_SIZE = 4"
definition FL_INDEX_MAX :: int where "FL_INDEX_MAX = 30"
definition SL_INDEX_COUNT :: int where "SL_INDEX_COUNT = 32"
definition FL_INDEX_SHIFT :: int where "FL_INDEX_SHIFT = 7"
definition FL_INDEX_COUNT :: int where "FL_INDEX_COUNT = 24"
definition SMALL_BLOCK_SIZE :: u32 where "SMALL_BLOCK_SIZE = 128"

definition block_header_overhead :: u32 where "block_header_overhead = 4"
definition block_start_offset :: u32 where "block_start_offset = 8"
definition block_size_min :: u32 where "block_size_min = 12"
definition block_size_max :: u32 where "block_size_max = 0x40000000"

lemmas tlsf_consts = SL_INDEX_COUNT_LOG2_def ALIGN_SIZE_def FL_INDEX_MAX_def SL_INDEX_COUNT_def
  FL_INDEX_SHIFT_def FL_INDEX_COUNT_def SMALL_BLOCK_SIZE_def block_header_overhead_def
  block_start_offset_def block_size_min_def block_size_max_def

section \<open>Alignment and requests\<close>

definition align_up :: "u32 \<Rightarrow> u32 \<Rightarrow> u32 option" where
  "align_up x align =
     assert_c (align AND (align - 1) = 0) \<bind> (\<lambda>_. Some ((x + (align - 1)) AND NOT (align - 1)))"

definition align_down :: "u32 \<Rightarrow> u32 \<Rightarrow> u32 option" where
  "align_down x align =
     assert_c (align AND (align - 1) = 0) \<bind> (\<lambda>_. Some (x - (x AND (align - 1))))"

definition align_ptr :: "u32 \<Rightarrow> u32 \<Rightarrow> u32 option" where
  "align_ptr ptr align =
     (let aligned = (ptr + (align - 1)) AND NOT (align - 1)
      in assert_c (align AND (align - 1) = 0) \<bind> (\<lambda>_. Some aligned))"

definition adjust_request_size :: "u32 \<Rightarrow> u32 \<Rightarrow> u32 option" where
  "adjust_request_size sz align =
     (if sz \<noteq> 0 then
        align_up sz align \<bind> (\<lambda>aligned.
          if aligned < block_size_max then Some (max aligned block_size_min) else Some 0)
      else Some 0)"

section \<open>Size classes\<close>

definition mapping_insert :: "u32 \<Rightarrow> int \<times> int" where
  "mapping_insert sz =
     (if sz < SMALL_BLOCK_SIZE then (0, sint sz div (128 div 32))
      else
        let fl = tlsf_fls sz;
            sl = sint (drop_bit (nat (fl - SL_INDEX_COUNT_LOG2)) sz XOR 32)
        in (fl - (FL_INDEX_SHIFT - 1), sl))"

definition mapping_search :: "u32 \<Rightarrow> int \<times> int" where
  "mapping_search sz =
     (if SMALL_BLOCK_SIZE \<le> sz then
        let round = push_bit (nat (tlsf_fls sz - SL_INDEX_COUNT_LOG2)) 1 - 1
        in mapping_insert (sz + round)
      else mapping_insert sz)"

section \<open>What the bit scans compute\<close>

lemma bit_u32_exists: "(w :: u32) \<noteq> 0 \<Longrightarrow> \<exists>i < 32. bit w i"
proof (rule ccontr)
  assume "w \<noteq> 0" and no: "\<not> (\<exists>i < 32. bit w i)"
  have "w = 0" by (rule bit_word_eqI) (use no in auto)
  with \<open>w \<noteq> 0\<close> show False by simp
qed

lemma scan_first:
  assumes "\<exists>x \<in> set xs. P x"
  shows "length (takeWhile (\<lambda>x. \<not> P x) xs) < length xs"
    and "P (xs ! length (takeWhile (\<lambda>x. \<not> P x) xs))"
    and "\<And>j. j < length (takeWhile (\<lambda>x. \<not> P x) xs) \<Longrightarrow> \<not> P (xs ! j)"
proof -
  have "takeWhile (\<lambda>x. \<not> P x) xs \<noteq> xs" using assms by (metis takeWhile_eq_all_conv)
  then show lt: "length (takeWhile (\<lambda>x. \<not> P x) xs) < length xs"
    by (metis length_takeWhile_le le_neq_implies_less takeWhile_eq_take take_all_iff order_refl)
  show "P (xs ! length (takeWhile (\<lambda>x. \<not> P x) xs))" using nth_length_takeWhile [OF lt] by simp
  show "\<not> P (xs ! j)" if "j < length (takeWhile (\<lambda>x. \<not> P x) xs)" for j
    using nth_mem [OF that] takeWhile_nth [OF that] by (metis set_takeWhileD)
qed

lemma tlsf_ffs_spec:
  assumes "w \<noteq> 0"
  shows "0 \<le> tlsf_ffs w" and "tlsf_ffs w < 32" and "bit w (nat (tlsf_ffs w))"
    and "\<And>i. i < nat (tlsf_ffs w) \<Longrightarrow> \<not> bit w i"
proof -
  let ?k = "length (takeWhile (\<lambda>i. \<not> bit w i) [0..<32])"
  have ex: "\<exists>i \<in> set [0..<32]. bit w i" using bit_u32_exists [OF assms] by auto
  note s = scan_first [of "[0..<32]" "bit w", OF ex]
  have f: "tlsf_ffs w = int ?k" using assms by (simp add: tlsf_ffs_def builtin_ffs_def)
  then show "0 \<le> tlsf_ffs w" "tlsf_ffs w < 32" "bit w (nat (tlsf_ffs w))"
    using s(1,2) by simp_all
  show "\<not> bit w i" if "i < nat (tlsf_ffs w)" for i using s(1) s(3) [of i] that f by simp
qed

lemma tlsf_fls_spec:
  assumes "w \<noteq> 0"
  shows "0 \<le> tlsf_fls w" and "tlsf_fls w < 32" and "bit w (nat (tlsf_fls w))"
    and "\<And>i. nat (tlsf_fls w) < i \<Longrightarrow> \<not> bit w i"
proof -
  let ?k = "length (takeWhile (\<lambda>i. \<not> bit w i) (rev [0..<32]))"
  have ex: "\<exists>i \<in> set (rev [0..<32]). bit w i" using bit_u32_exists [OF assms] by auto
  note s = scan_first [of "rev [0..<32]" "bit w", OF ex]
  have lt: "?k < 32" using s(1) by simp
  have f: "tlsf_fls w = 31 - int ?k"
    using assms by (simp add: tlsf_fls_def builtin_clz_def Let_def)
  have at: "rev [0..<32] ! j = 31 - j" if "j < 32" for j
    using that by (simp add: rev_nth)
  show "0 \<le> tlsf_fls w" "tlsf_fls w < 32" using f lt by simp_all
  have n: "nat (tlsf_fls w) = 31 - ?k" using f lt by simp
  show "bit w (nat (tlsf_fls w))" using s(2) at [OF lt] n by simp
  show "\<not> bit w i" if "nat (tlsf_fls w) < i" for i
  proof (cases "i < 32")
    case True
    then have "31 - i < ?k" using that n lt by simp
    from s(3) [OF this] at [of "31 - i"] True show ?thesis by simp
  next
    case False
    then show ?thesis using bit_imp_le_length [of w i] by auto
  qed
qed

lemma fls_bounds:
  assumes "w \<noteq> 0"
  shows "2 ^ nat (tlsf_fls w) \<le> unat w" and "unat w < 2 ^ Suc (nat (tlsf_fls w))"
proof -
  let ?e = "nat (tlsf_fls w)"
  have "bit w (?e + n) \<longleftrightarrow> n = 0" for n
    using tlsf_fls_spec(3) [OF assms] tlsf_fls_spec(4) [OF assms, of "?e + n"] by (cases n) auto
  then have "drop_bit ?e w = 1"
    by (intro bit_word_eqI) (simp add: bit_drop_bit_eq bit_1_iff)
  then have "unat w div 2 ^ ?e = 1"
    by (metis drop_bit_eq_div unat_drop_bit_eq unsigned_1)
  then show "2 ^ ?e \<le> unat w" "unat w < 2 ^ Suc ?e"
    by (metis div_le_dividend le_div_geq less_numeral_extra(3) not_less div_less zero_neq_one,
        metis (no_types, lifting) div_less_iff_less_mult mult.commute numeral_2_eq_2 One_nat_def lessI power_Suc zero_less_power zero_less_numeral)
qed

lemma fls_unique:
  assumes "2 ^ e \<le> unat w" and "unat w < 2 ^ Suc e"
  shows "tlsf_fls w = int e"
proof -
  have "w \<noteq> 0" using assms(1) by (metis unsigned_0 power_eq_0_iff le_zero_eq zero_neq_numeral)
  note b = fls_bounds [OF this] tlsf_fls_spec(1) [OF this]
  have "(2 :: nat) ^ e < 2 ^ Suc (nat (tlsf_fls w))" "(2 :: nat) ^ nat (tlsf_fls w) < 2 ^ Suc e"
    using assms b by linarith+
  then have "e < Suc (nat (tlsf_fls w))" "nat (tlsf_fls w) < Suc e"
    by (metis one_less_numeral_iff power_strict_increasing_iff semiring_norm(76))+
  with b(3) show ?thesis by linarith
qed
section \<open>Size classes over natural numbers\<close>

definition lg :: "nat \<Rightarrow> nat" where
  "lg n = nat (tlsf_fls (of_nat n))"

definition cls :: "nat \<Rightarrow> nat \<times> nat" where
  "cls n = (if n < 128 then (0, n div 4) else (lg n - 6, n div 2 ^ (lg n - 5) - 32))"

text \<open>The size a search for \<open>n\<close> bytes is rounded up to.\<close>

definition rounded :: "nat \<Rightarrow> nat" where
  "rounded n = (if n < 128 then n else n + 2 ^ (lg n - 5) - 1)"

definition class_le :: "nat \<times> nat \<Rightarrow> nat \<times> nat \<Rightarrow> bool" where
  "class_le k l \<longleftrightarrow> fst k < fst l \<or> fst k = fst l \<and> snd k \<le> snd l"

lemma lg_bounds:
  assumes "0 < n" and "n < 2 ^ 32"
  shows "2 ^ lg n \<le> n" and "n < 2 ^ Suc (lg n)" and "lg n < 32" and "tlsf_fls (of_nat n) = int (lg n)"
proof -
  have u: "unat (of_nat n :: u32) = n" by (rule unat_of_nat32 [OF assms(2)])
  then have nz: "(of_nat n :: u32) \<noteq> 0" using assms(1) by (metis unsigned_0 less_numeral_extra(3))
  show "2 ^ lg n \<le> n" "n < 2 ^ Suc (lg n)" using fls_bounds [OF nz] u by (simp_all add: lg_def)
  show "lg n < 32" "tlsf_fls (of_nat n) = int (lg n)"
    using tlsf_fls_spec(1,2) [OF nz] by (simp_all add: lg_def)
qed

lemma power2_less_iff: "(2 :: nat) ^ a < 2 ^ b \<longleftrightarrow> a < b"
  by (simp add: power_strict_increasing_iff)

lemma lg_mono:
  assumes "0 < m" and "m \<le> n" and "n < 2 ^ 32"
  shows "lg m \<le> lg n"
proof -
  have "(2 :: nat) ^ lg m < 2 ^ Suc (lg n)"
    using lg_bounds(1) [of m] lg_bounds(2) [of n] assms by linarith
  then have "lg m < Suc (lg n)" by (simp only: power2_less_iff)
  then show ?thesis by simp
qed

lemma lg_ge7: "128 \<le> n \<Longrightarrow> n < 2 ^ 32 \<Longrightarrow> 7 \<le> lg n"
proof -
  assume n: "128 \<le> n" "n < 2 ^ 32"
  have "(2 :: nat) ^ 7 < 2 ^ Suc (lg n)" using lg_bounds(2) [of n] n by simp
  then have "7 < Suc (lg n)" by (simp only: power2_less_iff)
  then show ?thesis by simp
qed

lemma lg_lt30: "0 < n \<Longrightarrow> n < 2 ^ 30 \<Longrightarrow> lg n < 30"
proof -
  assume n: "0 < n" "n < 2 ^ 30"
  have "(2 :: nat) ^ lg n < 2 ^ 30" using lg_bounds(1) [of n] n by simp
  then show ?thesis by (simp only: power2_less_iff)
qed

text \<open>The position inside a first-level class: between 32 and 63.\<close>

lemma second_level:
  assumes "128 \<le> n" and "n < 2 ^ 32"
  shows "32 \<le> n div 2 ^ (lg n - 5)" and "n div 2 ^ (lg n - 5) < 64"
proof -
  have e: "lg n = 5 + (lg n - 5)" using lg_ge7 [OF assms] by simp
  have b: "2 ^ lg n \<le> n" "n < 2 ^ Suc (lg n)" using lg_bounds [of n] assms by auto
  have "(2 :: nat) ^ (5 + (lg n - 5)) = 32 * 2 ^ (lg n - 5)" by (simp add: power_add)
  then have "(2 :: nat) ^ lg n = 32 * 2 ^ (lg n - 5)" using e by simp
  with b show "32 \<le> n div 2 ^ (lg n - 5)" "n div 2 ^ (lg n - 5) < 64"
    by (simp_all add: less_eq_div_iff_mult_less_eq div_less_iff_less_mult)
qed

lemma cls_range:
  assumes "n < 2 ^ 30"
  shows "fst (cls n) < 24" and "snd (cls n) < 32"
proof -
  show "fst (cls n) < 24" using lg_lt30 [of n] assms by (auto simp: cls_def)
  show "snd (cls n) < 32"
    using second_level(2) [of n] assms by (cases "n < 128") (auto simp: cls_def)
qed

lemma cls_mono:
  assumes "m \<le> n" and "n < 2 ^ 32"
  shows "class_le (cls m) (cls n)"
proof (cases "m < 128")
  case True
  then show ?thesis using assms lg_ge7 [of n] by (auto simp: cls_def class_le_def div_le_mono)
next
  case False
  then have n: "\<not> n < 128" using assms by simp
  have le: "lg m \<le> lg n" using lg_mono [of m n] assms False by simp
  show ?thesis
  proof (cases "lg m = lg n")
    case True
    then show ?thesis using False n assms(1) by (auto simp: cls_def class_le_def intro: diff_le_mono div_le_mono)
  next
    case neq: False
    then show ?thesis using le False n lg_ge7 [of m] assms by (auto simp: cls_def class_le_def)
  qed
qed

lemma rounded_ge: "n \<le> rounded n"
proof -
  obtain k where "(2 :: nat) ^ (lg n - 5) = Suc k" by (metis gr0_conv_Suc zero_less_numeral zero_less_power)
  then show ?thesis by (simp add: rounded_def)
qed

lemma rounded_lt32:
  assumes "n < 2 ^ 30"
  shows "rounded n < 2 ^ 31"
proof (cases "n < 128")
  case False
  have "(2 :: nat) ^ (lg n - 5) \<le> 2 ^ lg n" by (intro power_increasing) auto
  also have "\<dots> \<le> n" using lg_bounds(1) [of n] False assms by simp
  finally have "n + 2 ^ (lg n - 5) - 1 < 2 ^ 31" using assms by simp
  then show ?thesis using False by (simp add: rounded_def)
qed (simp add: rounded_def)

text \<open>The good-fit property: every block in a class at or above the class searched is large enough.\<close>

lemma class_fits:
  assumes n: "n < 2 ^ 30" "n mod 4 = 0" and m: "m < 2 ^ 30"
    and le: "class_le (cls (rounded n)) (cls m)"
  shows "n \<le> m"
proof (cases "n < 128")
  case True
  show ?thesis
  proof (cases "m < 128")
    case m': True
    with True le have "n div 4 \<le> m div 4" by (simp add: cls_def rounded_def class_le_def)
    then show ?thesis using n(2) by presburger
  qed (use True in simp)
next
  case False
  let ?r = "rounded n"
  have r: "128 \<le> ?r" "?r < 2 ^ 32" "n \<le> ?r"
    using False rounded_ge [of n] rounded_lt32 [OF n(1)] by simp_all
  show ?thesis
  proof (rule ccontr)
    assume "\<not> n \<le> m"
    then have mn: "m < n" by simp
    have m128: "\<not> m < 128"
      using le r lg_ge7 [of ?r] by (auto simp: cls_def class_le_def split: if_splits)
    have "lg ?r \<le> lg m"
      using le r m128 lg_ge7 [of ?r] lg_ge7 [of m] m by (auto simp: cls_def class_le_def split: if_splits)
    moreover have "lg m \<le> lg n" "lg n \<le> lg ?r"
      using lg_mono [of m n] lg_mono [of n ?r] mn m128 n r by simp_all
    ultimately have e: "lg ?r = lg n" "lg m = lg n" by simp_all
    let ?d = "(2 :: nat) ^ (lg n - 5)"
    have sr: "32 \<le> ?r div ?d" using second_level(1) [of ?r] r e by simp
    have sm: "32 \<le> m div ?d" using second_level(1) [of m] m128 m e by simp
    have "?r div ?d - 32 \<le> m div ?d - 32"
      using le e r m128 by (simp add: cls_def class_le_def split: if_splits)
    then have "?r div ?d \<le> m div ?d" using sr sm by linarith
    then have "?r div ?d * ?d \<le> m" by (meson div_times_less_eq_dividend le_trans mult_le_mono1)
    moreover have "?r < ?r div ?d * ?d + ?d" using dividend_less_div_times [of ?d ?r] by simp
    moreover have "?r = n + ?d - 1" using False by (simp add: rounded_def)
    moreover have "0 < ?d" by simp
    ultimately show False using mn by linarith
  qed
qed
section \<open>The mapping functions compute the size classes\<close>

lemma sint_of_nat_small: "n < 2 ^ 31 \<Longrightarrow> sint (of_nat n :: u32) = int n"
proof -
  assume "n < 2 ^ 31"
  then have "signed_take_bit 31 (int n) = int n" by (intro signed_take_bit_int_eq_self) simp_all
  then show ?thesis by (simp add: signed_of_nat)
qed

lemma xor_32:
  assumes "32 \<le> v" and "v < 64"
  shows "sint ((of_nat v :: u32) XOR 32) = int v - 32"
proof -
  have "list_all (\<lambda>v. sint ((of_nat v :: u32) XOR 32) = int v - 32) [32..<64]" by code_simp
  moreover have "v \<in> set [32..<64]" using assms unfolding set_upt by simp
  ultimately show ?thesis unfolding list_all_iff by blast
qed

lemma drop_bit_of_nat: "n < 2 ^ 32 \<Longrightarrow> drop_bit k (of_nat n :: u32) = of_nat (n div 2 ^ k)"
proof -
  assume n: "n < 2 ^ 32"
  then have "n div 2 ^ k < 2 ^ 32" using div_le_dividend [of n "2 ^ k"] by linarith
  moreover have "unat (drop_bit k (of_nat n :: u32)) = drop_bit k (unat (of_nat n :: u32))"
    by (rule unat_drop_bit_eq)
  ultimately have "unat (drop_bit k (of_nat n :: u32)) = unat (of_nat (n div 2 ^ k) :: u32)"
    using n by (simp only: unat_of_nat32) (simp add: drop_bit_eq_div)
  then show ?thesis by (simp only: word_unat_eq_iff)
qed

lemma of_nat_less_u32:
  assumes "m < 2 ^ 32" and "n < 2 ^ 32"
  shows "(of_nat m :: u32) < of_nat n \<longleftrightarrow> m < n" and "(of_nat m :: u32) \<le> of_nat n \<longleftrightarrow> m \<le> n"
    and "(of_nat m :: u32) = of_nat n \<longleftrightarrow> m = n"
  using unat_of_nat32 [OF assms(1)] unat_of_nat32 [OF assms(2)]
  by (simp_all add: word_less_nat_alt word_le_nat_alt word_unat_eq_iff)

lemma mapping_insert_eq:
  assumes "n < 2 ^ 32"
  shows "mapping_insert (of_nat n) = (int (fst (cls n)), int (snd (cls n)))"
proof (cases "n < 128")
  case True
  then have "(of_nat n :: u32) < SMALL_BLOCK_SIZE"
    using of_nat_less_u32(1) [of n 128] assms by (simp add: SMALL_BLOCK_SIZE_def)
  with True show ?thesis
    using sint_of_nat_small [of n] by (simp add: mapping_insert_def cls_def zdiv_int)
next
  case False
  then have small: "\<not> (of_nat n :: u32) < SMALL_BLOCK_SIZE"
    using of_nat_less_u32(1) [of n 128] assms by (simp add: SMALL_BLOCK_SIZE_def)
  have e: "tlsf_fls (of_nat n) = int (lg n)" "7 \<le> lg n"
    using lg_bounds(4) [of n] lg_ge7 [of n] False assms by simp_all
  have k: "nat (int (lg n) - 5) = lg n - 5" by simp
  note sl = second_level [of n]
  have "sint ((of_nat (n div 2 ^ (lg n - 5)) :: u32) XOR 32) = int (n div 2 ^ (lg n - 5)) - 32"
    using sl False assms by (intro xor_32) simp_all
  then have "sint (drop_bit (lg n - 5) (of_nat n :: u32) XOR 32) = int (n div 2 ^ (lg n - 5) - 32)"
    using sl False assms by (simp add: drop_bit_of_nat of_nat_diff)
  then show ?thesis
    using small e False by (simp add: mapping_insert_def cls_def k SL_INDEX_COUNT_LOG2_def FL_INDEX_SHIFT_def)
qed

lemma mapping_search_eq:
  assumes "n < 2 ^ 30"
  shows "mapping_search (of_nat n) = (int (fst (cls (rounded n))), int (snd (cls (rounded n))))"
proof (cases "n < 128")
  case True
  then have "\<not> SMALL_BLOCK_SIZE \<le> (of_nat n :: u32)"
    using of_nat_less_u32(2) [of 128 n] by (simp add: SMALL_BLOCK_SIZE_def)
  with True show ?thesis using mapping_insert_eq [of n] by (simp add: mapping_search_def rounded_def)
next
  case False
  then have "SMALL_BLOCK_SIZE \<le> (of_nat n :: u32)"
    using of_nat_less_u32(2) [of 128 n] assms by (simp add: SMALL_BLOCK_SIZE_def)
  moreover have "tlsf_fls (of_nat n) = int (lg n)" using lg_bounds(4) [of n] False assms by simp
  moreover have "(of_nat n :: u32) + (push_bit (nat (int (lg n) - 5)) 1 - 1) = of_nat (rounded n)"
  proof -
    have "nat (int (lg n) - 5) = lg n - 5" by simp
    then show ?thesis using False by (simp add: rounded_def push_bit_eq_mult of_nat_diff)
  qed
  ultimately show ?thesis
    using mapping_insert_eq [of "rounded n"] rounded_lt32 [OF assms]
    by (simp add: mapping_search_def SL_INDEX_COUNT_LOG2_def)
qed

section \<open>Alignment\<close>

lemma align4: "(4 :: u32) AND (4 - 1) = 0"
  by simp

lemma and_3: "(of_nat x :: u32) AND 3 = of_nat (x mod 4)"
proof -
  have "(of_nat x :: u32) AND 3 = take_bit 2 (of_nat x)"
    by (simp add: take_bit_eq_mask mask_eq_exp_minus_1)
  also have "\<dots> = of_nat (take_bit 2 x)" by (rule take_bit_of_nat)
  finally show ?thesis by (simp only: take_bit_eq_mod) simp
qed

lemma and_not_mask: "(w :: u32) AND NOT (mask k) = w - take_bit k w"
proof -
  have "w AND NOT (mask k) = push_bit k (drop_bit k w)"
    by (rule bit_word_eqI)
       (auto simp: bit_and_iff bit_not_iff bit_mask_iff bit_push_bit_iff bit_drop_bit_eq)
  then show ?thesis using bits_ident [of k w] by (simp add: algebra_simps)
qed

lemma and_not_3: "(of_nat x :: u32) AND NOT 3 = of_nat (x - x mod 4)"
proof -
  have "(of_nat x :: u32) AND NOT 3 = of_nat x - (of_nat x AND 3)"
    using and_not_mask [of "of_nat x" 2] by (simp add: take_bit_eq_mask mask_eq_exp_minus_1)
  then show ?thesis by (simp only: and_3) (simp add: of_nat_diff)
qed

lemma align_up_4:
  assumes "x + 3 < 2 ^ 32"
  shows "align_up (of_nat x) ALIGN_SIZE = Some (of_nat ((x + 3) div 4 * 4))"
proof -
  have "(of_nat x :: u32) + 3 = of_nat (x + 3)" by simp
  then have "((of_nat x :: u32) + 3) AND NOT 3 = of_nat (x + 3 - (x + 3) mod 4)"
    using and_not_3 [of "x + 3"] by simp
  then show ?thesis by (simp add: align_up_def ALIGN_SIZE_def minus_mod_eq_div_mult)
qed

lemma align_down_4:
  assumes "x < 2 ^ 32"
  shows "align_down (of_nat x) ALIGN_SIZE = Some (of_nat (x div 4 * 4))"
proof -
  have "(of_nat x :: u32) - (of_nat x AND 3) = of_nat (x - x mod 4)"
    by (simp only: and_3) (simp add: of_nat_diff)
  then show ?thesis by (simp add: align_down_def ALIGN_SIZE_def minus_mod_eq_div_mult)
qed

lemma align_ptr_4:
  assumes "x mod 4 = 0" and "x + 3 < 2 ^ 32"
  shows "align_ptr (of_nat x) ALIGN_SIZE = Some (of_nat x)"
proof -
  have "(of_nat x :: u32) + 3 = of_nat (x + 3)" by simp
  moreover have "x + 3 - (x + 3) mod 4 = x" using assms(1) by presburger
  ultimately have "((of_nat x :: u32) + 3) AND NOT 3 = of_nat x"
    using and_not_3 [of "x + 3"] by simp
  then show ?thesis by (simp add: align_ptr_def ALIGN_SIZE_def)
qed

text \<open>The request a program makes, and the block size the allocator looks for: 0 when the request is
  0 or too large.\<close>

definition adjusted :: "nat \<Rightarrow> nat" where
  "adjusted n = (let a = (n + 3) div 4 * 4 in if n = 0 \<or> 2 ^ 30 \<le> a then 0 else max a 12)"

lemma adjust_request_size_eq:
  assumes "n + 3 < 2 ^ 32"
  shows "adjust_request_size (of_nat n) ALIGN_SIZE = Some (of_nat (adjusted n))"
proof (cases "n = 0")
  case False
  let ?a = "(n + 3) div 4 * 4"
  have nz: "(of_nat n :: u32) \<noteq> 0" using False assms of_nat_less_u32(3) [of n 0] by simp
  have a: "?a < 2 ^ 32" using assms by linarith
  have "(of_nat ?a :: u32) < block_size_max \<longleftrightarrow> ?a < 2 ^ 30"
    using of_nat_less_u32(1) [of ?a "2 ^ 30"] a by (simp add: block_size_max_def)
  moreover have "max (of_nat ?a :: u32) block_size_min = of_nat (max ?a 12)"
    using of_nat_less_u32(2) [of ?a 12] a by (auto simp: block_size_min_def max_def)
  ultimately show ?thesis
    using nz False align_up_4 [OF assms] by (simp add: adjust_request_size_def adjusted_def Let_def)
qed (simp add: adjust_request_size_def adjusted_def)

lemma adjusted_props:
  shows "adjusted n mod 4 = 0" and "adjusted n < 2 ^ 30"
    and "adjusted n \<noteq> 0 \<Longrightarrow> n \<le> adjusted n \<and> 12 \<le> adjusted n \<and> adjusted n \<le> max 12 (n + 3)"
proof -
  show "adjusted n mod 4 = 0" "adjusted n < 2 ^ 30" by (auto simp: adjusted_def Let_def max_def)
  assume "adjusted n \<noteq> 0"
  then have a: "adjusted n = max ((n + 3) div 4 * 4) 12" by (auto simp: adjusted_def Let_def split: if_splits)
  have "n \<le> (n + 3) div 4 * 4" "(n + 3) div 4 * 4 \<le> n + 3" by presburger+
  with a show "n \<le> adjusted n \<and> 12 \<le> adjusted n \<and> adjusted n \<le> max 12 (n + 3)" by auto
qed
section \<open>The portable bit scan\<close>

lemma and_not_mask_zero: "(w :: u32) AND NOT (mask j) = 0 \<longleftrightarrow> unat w < 2 ^ j"
proof -
  have "w AND NOT (mask j) = 0 \<longleftrightarrow> take_bit j w = w" by (auto simp: and_not_mask)
  also have "\<dots> \<longleftrightarrow> take_bit j (unat w) = unat w"
    by (metis unsigned_take_bit_eq word_unat_eq_iff)
  also have "\<dots> \<longleftrightarrow> unat w < 2 ^ j" by (simp add: take_bit_nat_eq_self_iff)
  finally show ?thesis .
qed

lemma fls_step_inv:
  assumes nz: "w \<noteq> 0" and k: "k \<le> 32" and upper: "upper = NOT (mask (32 - k))"
    and lo: "32 - 2 * int k \<le> tlsf_fls w"
  obtains w' b' where "fls_step upper k (w, b) = (w', b')" "w' \<noteq> 0" "32 - int k \<le> tlsf_fls w'"
    "tlsf_fls w' + b' = tlsf_fls w + b"
proof (cases "w AND upper = 0")
  case True
  then have lt: "unat w < 2 ^ (32 - k)" by (simp only: upper and_not_mask_zero)
  note f = fls_bounds [OF nz] tlsf_fls_spec(1) [OF nz]
  let ?e = "nat (tlsf_fls w)"
  have p: "(2 :: nat) ^ (32 - k) * 2 ^ k = 2 ^ 32" using k by (simp add: power_add [symmetric])
  have "unat w * 2 ^ k < 2 ^ (32 - k) * 2 ^ k" using lt by simp
  then have "unat w * 2 ^ k < 2 ^ 32" using p by simp
  then have u: "unat (push_bit k w) = unat w * 2 ^ k"
    using unsigned_push_bit_eq [of k w, where ?'a = nat] by (simp add: push_bit_eq_mult take_bit_nat_eq_self)
  have "2 ^ (?e + k) \<le> unat (push_bit k w)" "unat (push_bit k w) < 2 ^ Suc (?e + k)"
    using f(1,2) by (simp_all add: u power_add)
  then have e: "tlsf_fls (push_bit k w) = int (?e + k)" by (rule fls_unique)
  have "push_bit k w \<noteq> 0" using u nz by (metis mult_is_0 unsigned_0 unat_eq_zero power_not_zero zero_neq_numeral)
  with e f(3) lo True show thesis
    by (intro that [of "push_bit k w" "b - int k"]) (simp_all add: fls_step_def)
next
  case False
  then have "\<not> unat w < 2 ^ (32 - k)" by (simp only: upper and_not_mask_zero not_False_eq_True)
  then have "(2 :: nat) ^ (32 - k) < 2 ^ Suc (nat (tlsf_fls w))" using fls_bounds(2) [OF nz] by linarith
  then have "32 - k < Suc (nat (tlsf_fls w))" by (simp only: power2_less_iff)
  with False nz k tlsf_fls_spec(1) [OF nz] show thesis
    by (intro that [of w b]) (simp_all add: fls_step_def)
qed

lemma fls_masks:
  "(0xffff0000 :: u32) = NOT (mask (32 - 16))" "(0xff000000 :: u32) = NOT (mask (32 - 8))"
  "(0xf0000000 :: u32) = NOT (mask (32 - 4))" "(0xc0000000 :: u32) = NOT (mask (32 - 2))"
  "(0x80000000 :: u32) = NOT (mask (32 - 1))"
  by (simp_all add: mask_eq_exp_minus_1)

lemma tlsf_fls_generic_nonzero:
  assumes "w \<noteq> 0"
  shows "tlsf_fls_generic w = tlsf_fls w + 1"
proof -
  obtain w1 b1 where 1: "fls_step 0xffff0000 16 (w, 32) = (w1, b1)" "w1 \<noteq> 0" "16 \<le> tlsf_fls w1"
      "tlsf_fls w1 + b1 = tlsf_fls w + 32"
    by (rule fls_step_inv [OF assms _ fls_masks(1), of 32]) (use tlsf_fls_spec(1) [OF assms] in auto)
  obtain w2 b2 where 2: "fls_step 0xff000000 8 (w1, b1) = (w2, b2)" "w2 \<noteq> 0" "24 \<le> tlsf_fls w2"
      "tlsf_fls w2 + b2 = tlsf_fls w1 + b1"
    by (rule fls_step_inv [OF 1(2) _ fls_masks(2), of b1]) (use 1(3) in auto)
  obtain w3 b3 where 3: "fls_step 0xf0000000 4 (w2, b2) = (w3, b3)" "w3 \<noteq> 0" "28 \<le> tlsf_fls w3"
      "tlsf_fls w3 + b3 = tlsf_fls w2 + b2"
    by (rule fls_step_inv [OF 2(2) _ fls_masks(3), of b2]) (use 2(3) in auto)
  obtain w4 b4 where 4: "fls_step 0xc0000000 2 (w3, b3) = (w4, b4)" "w4 \<noteq> 0" "30 \<le> tlsf_fls w4"
      "tlsf_fls w4 + b4 = tlsf_fls w3 + b3"
    by (rule fls_step_inv [OF 3(2) _ fls_masks(4), of b3]) (use 3(3) in auto)
  obtain w5 b5 where 5: "fls_step 0x80000000 1 (w4, b4) = (w5, b5)" "w5 \<noteq> 0" "31 \<le> tlsf_fls w5"
      "tlsf_fls w5 + b5 = tlsf_fls w4 + b4"
    by (rule fls_step_inv [OF 4(2) _ fls_masks(5), of b4]) (use 4(3) in auto)
  have "tlsf_fls w5 = 31" using 5(3) tlsf_fls_spec(2) [OF 5(2)] by simp
  then have "b5 = tlsf_fls w + 1" using 1(4) 2(4) 3(4) 4(4) 5(4) by linarith
  then show ?thesis
    using assms 1(1) 2(1) 3(1) 4(1) 5(1) by (simp only: tlsf_fls_generic_def Let_def) simp
qed

section \<open>Properties\<close>

text \<open>C26: The portable bit scan of \<open>tlsf.c\<close>, five conditional shifts, agrees with the compiler's
  count-leading-zeros on every word, zero included.\<close>

theorem tlsf_fls_generic_correct: "tlsf_fls_generic w - 1 = tlsf_fls w"
proof (cases "w = 0")
  case True
  then show ?thesis by (simp add: tlsf_fls_generic_def fls_step_def tlsf_fls_def)
next
  case False
  then show ?thesis using tlsf_fls_generic_nonzero by simp
qed

text \<open>C20: The list indices of a block of less than \<open>block_size_max\<close> bytes are always inside the
  arrays \<open>sl_bitmap\<close> and \<open>blocks\<close>; for a block of exactly \<open>block_size_max\<close> bytes, which
  \<open>tlsf_add_pool\<close> accepts, the first-level index is 24, one past the end.\<close>

theorem mapping_insert_in_range:
  "(sz < block_size_max \<longrightarrow>
      (case mapping_insert sz of (fl, sl) \<Rightarrow> 0 \<le> fl \<and> fl < FL_INDEX_COUNT \<and> 0 \<le> sl \<and> sl < SL_INDEX_COUNT)) \<and>
   fst (mapping_insert block_size_max) = FL_INDEX_COUNT"
proof -
  have "tlsf_fls 0x40000000 = int 30" by (rule fls_unique) simp_all
  then have "fst (mapping_insert block_size_max) = FL_INDEX_COUNT"
    by (simp add: mapping_insert_def tlsf_consts Let_def)
  moreover have "case mapping_insert sz of (fl, sl) \<Rightarrow> 0 \<le> fl \<and> fl < FL_INDEX_COUNT \<and> 0 \<le> sl \<and> sl < SL_INDEX_COUNT"
    if "sz < block_size_max"
  proof -
    have n: "unat sz < 2 ^ 30" using that by (simp add: block_size_max_def word_less_nat_alt)
    have "mapping_insert sz = (int (fst (cls (unat sz))), int (snd (cls (unat sz))))"
      using mapping_insert_eq [of "unat sz"] n by simp
    with cls_range [OF n] show ?thesis by (simp add: FL_INDEX_COUNT_def SL_INDEX_COUNT_def)
  qed
  ultimately show ?thesis by blast
qed

theorem mapping_insert_in_range_witness:
  "(100 :: u32) < block_size_max \<and>
   (case mapping_insert 100 of (fl, sl) \<Rightarrow> 0 \<le> fl \<and> fl < FL_INDEX_COUNT \<and> 0 \<le> sl \<and> sl < SL_INDEX_COUNT)"
  using mapping_insert_in_range [of 100] by (simp add: block_size_max_def)

text \<open>C19: The good-fit property that makes the search constant-time. Take a request \<open>n\<close> that is a
  multiple of the alignment. Every block stored in a list at or after the one that
  \<open>mapping_search\<close> selects (later first-level list, or same first-level and same or later
  second-level list) has at least \<open>n\<close> bytes, so the first block found needs no check.\<close>

theorem mapping_search_good_fit:
  assumes "n < block_size_max" and "n AND 3 = 0" and "blk < block_size_max"
    and "mapping_search n = (fl, sl)" and "mapping_insert blk = (fl', sl')"
    and "fl < fl' \<or> fl = fl' \<and> sl \<le> sl'"
  shows "n \<le> blk"
proof -
  have n: "unat n < 2 ^ 30" "unat blk < 2 ^ 30"
    using assms(1,3) by (simp_all add: block_size_max_def word_less_nat_alt)
  have "of_nat (unat n mod 4) = (0 :: u32)" using assms(2) and_3 [of "unat n"] by simp
  then have m: "unat n mod 4 = 0" using of_nat_less_u32(3) [of "unat n mod 4" 0] by simp
  have "class_le (cls (rounded (unat n))) (cls (unat blk))"
    using assms(4,5,6) mapping_search_eq [OF n(1)] mapping_insert_eq [of "unat blk"] n
    by (auto simp: class_le_def)
  then have "unat n \<le> unat blk" by (rule class_fits [OF n(1) m n(2)])
  then show ?thesis by (simp add: word_le_nat_alt)
qed

theorem mapping_search_good_fit_witness:
  "mapping_search 1000 = (3, 31) \<and> mapping_insert 1008 = (3, 31) \<and> (1000 :: u32) \<le> 1008"
proof -
  have 1: "mapping_search 1000 = (3, 31)" "mapping_insert 1008 = (3, 31)" by code_simp+
  have "(1000 :: u32) \<le> 1008"
    by (rule mapping_search_good_fit [OF _ _ _ 1]) (simp_all add: block_size_max_def)
  with 1 show ?thesis by blast
qed

text \<open>C23: \<open>adjust_request_size\<close> with the allocator's own alignment. Up to 2^32 - 4 bytes, the result is
  0 exactly for the request 0 and for requests that do not fit below \<open>block_size_max\<close>; otherwise
  it is the smallest multiple of 4 that holds the request and a free block's links (12 bytes).
  For the last three sizes the rounding wraps around: a request of 2^32 - 1 bytes is turned into
  one of 12 bytes instead of being refused.\<close>

theorem adjust_request_size_correct:
  assumes "sz \<le> 0xFFFFFFFC"
  shows "(\<exists>a. adjust_request_size sz ALIGN_SIZE = Some a \<and>
     (a = 0 \<longleftrightarrow> sz = 0 \<or> 0x3FFFFFFC < sz) \<and>
     (a \<noteq> 0 \<longrightarrow> sz \<le> a \<and> 12 \<le> a \<and> unat a mod 4 = 0 \<and> (a = 12 \<or> unat a < unat sz + 4))) \<and>
   adjust_request_size 0xFFFFFFFF ALIGN_SIZE = Some 12"
proof (intro conjI)
  show "adjust_request_size 0xFFFFFFFF ALIGN_SIZE = Some 12"
    by (simp add: adjust_request_size_def align_up_def tlsf_consts)
  let ?n = "unat sz" and ?a = "adjusted (unat sz)"
  have le: "?n \<le> 4294967292" using assms by (simp add: word_le_nat_alt)
  note p = adjusted_props [of ?n]
  have u: "unat (of_nat ?a :: u32) = ?a" using p(2) by (intro unat_of_nat32) simp
  have eq: "adjust_request_size sz ALIGN_SIZE = Some (of_nat ?a)"
    using adjust_request_size_eq [of ?n] le by simp
  have "?a = 0 \<longleftrightarrow> ?n = 0 \<or> 1073741824 \<le> (?n + 3) div 4 * 4" by (auto simp: adjusted_def Let_def)
  also have "\<dots> \<longleftrightarrow> ?n = 0 \<or> 0x3FFFFFFC < ?n" by presburger
  finally have z: "?a = 0 \<longleftrightarrow> sz = 0 \<or> 0x3FFFFFFC < sz" by (simp add: word_less_nat_alt unat_eq_zero)
  have "of_nat ?a = (0 :: u32) \<longleftrightarrow> ?a = 0" using of_nat_less_u32(3) [of ?a 0] p(2) by simp
  then show "\<exists>a. adjust_request_size sz ALIGN_SIZE = Some a \<and>
     (a = 0 \<longleftrightarrow> sz = 0 \<or> 0x3FFFFFFC < sz) \<and>
     (a \<noteq> 0 \<longrightarrow> sz \<le> a \<and> 12 \<le> a \<and> unat a mod 4 = 0 \<and> (a = 12 \<or> unat a < unat sz + 4))"
    using eq z p u by (intro exI [of _ "of_nat ?a"]) (auto simp: word_le_nat_alt word_unat_eq_iff)
qed

theorem adjust_request_size_correct_witness:
  "\<exists>a. adjust_request_size 13 ALIGN_SIZE = Some a \<and> a \<noteq> 0 \<and> 13 \<le> a"
  using adjust_request_size_correct [of 13] by auto

end
