(* ===== verification/Tlsf.thy ===== *)
theory Tlsf
  imports Tlsf_Mapping
begin

text \<open>
  The TLSF allocator, \<open>libyaul/kernel/mm/tlsf.c\<close> (lines 302-1263), function by function.

  Memory is a function from word addresses to 32-bit words. A block header at address \<open>b\<close> occupies
  the words \<open>b\<close> (\<open>prev_phys_block\<close>), \<open>b + 4\<close> (\<open>size\<close>, with the two flag bits), \<open>b + 8\<close> (\<open>next_free\<close>) and
  \<open>b + 12\<close> (\<open>prev_free\<close>), as laid out by the compiler, so that the overlaying of headers with the
  user's data and with the end of the previous block is the one of the code. The control
  structure is at address \<open>control\<close>, which is also the address of its first field \<open>block_null\<close>;
  its bitmaps and list heads are fields of the state. Assertions are active.
\<close>

section \<open>State\<close>

record tlsf =
  mem :: "u32 \<Rightarrow> u32"
  control :: u32
  fl_bitmap :: u32
  sl_bitmap :: "u32 list"
  blocks :: "u32 list list"

definition load :: "tlsf \<Rightarrow> u32 \<Rightarrow> u32" where
  "load s a = mem s a"

definition store :: "u32 \<Rightarrow> u32 \<Rightarrow> tlsf \<Rightarrow> tlsf" where
  "store a v s = s\<lparr>mem := (mem s)(a := v)\<rparr>"

text \<open>An array element selected by a C \<open>int\<close>.\<close>

definition nth_int :: "'a list \<Rightarrow> int \<Rightarrow> 'a option" where
  "nth_int xs i = (if 0 \<le> i \<and> nat i < length xs then Some (xs ! nat i) else None)"

definition set_sl_bitmap :: "int \<Rightarrow> u32 \<Rightarrow> tlsf \<Rightarrow> tlsf" where
  "set_sl_bitmap fl v s = s\<lparr>sl_bitmap := (sl_bitmap s)[nat fl := v]\<rparr>"

definition get_list :: "tlsf \<Rightarrow> int \<Rightarrow> int \<Rightarrow> u32 option" where
  "get_list s fl sl = nth_int (blocks s) fl \<bind> (\<lambda>row. nth_int row sl)"

definition set_list :: "int \<Rightarrow> int \<Rightarrow> u32 \<Rightarrow> tlsf \<Rightarrow> tlsf" where
  "set_list fl sl v s = s\<lparr>blocks := (blocks s)[nat fl := (blocks s ! nat fl)[nat sl := v]]\<rparr>"

section \<open>Block headers\<close>

definition block_header_free_bit :: u32 where "block_header_free_bit = 1"
definition block_header_prev_free_bit :: u32 where "block_header_prev_free_bit = 2"

definition block_size :: "tlsf \<Rightarrow> u32 \<Rightarrow> u32" where
  "block_size s b = load s (b + 4) AND NOT (block_header_free_bit OR block_header_prev_free_bit)"

definition block_set_size :: "u32 \<Rightarrow> u32 \<Rightarrow> tlsf \<Rightarrow> tlsf" where
  "block_set_size b sz s =
     store (b + 4) (sz OR (load s (b + 4) AND (block_header_free_bit OR block_header_prev_free_bit))) s"

definition block_is_last :: "tlsf \<Rightarrow> u32 \<Rightarrow> bool" where
  "block_is_last s b \<longleftrightarrow> block_size s b = 0"

definition block_is_free :: "tlsf \<Rightarrow> u32 \<Rightarrow> bool" where
  "block_is_free s b \<longleftrightarrow> load s (b + 4) AND block_header_free_bit \<noteq> 0"

definition block_set_free :: "u32 \<Rightarrow> tlsf \<Rightarrow> tlsf" where
  "block_set_free b s = store (b + 4) (load s (b + 4) OR block_header_free_bit) s"

definition block_set_used :: "u32 \<Rightarrow> tlsf \<Rightarrow> tlsf" where
  "block_set_used b s = store (b + 4) (load s (b + 4) AND NOT block_header_free_bit) s"

definition block_is_prev_free :: "tlsf \<Rightarrow> u32 \<Rightarrow> bool" where
  "block_is_prev_free s b \<longleftrightarrow> load s (b + 4) AND block_header_prev_free_bit \<noteq> 0"

definition block_set_prev_free :: "u32 \<Rightarrow> tlsf \<Rightarrow> tlsf" where
  "block_set_prev_free b s = store (b + 4) (load s (b + 4) OR block_header_prev_free_bit) s"

definition block_set_prev_used :: "u32 \<Rightarrow> tlsf \<Rightarrow> tlsf" where
  "block_set_prev_used b s = store (b + 4) (load s (b + 4) AND NOT block_header_prev_free_bit) s"

definition block_from_ptr :: "u32 \<Rightarrow> u32" where
  "block_from_ptr ptr = ptr - block_start_offset"

definition block_to_ptr :: "u32 \<Rightarrow> u32" where
  "block_to_ptr b = b + block_start_offset"

definition offset_to_block :: "u32 \<Rightarrow> u32 \<Rightarrow> u32" where
  "offset_to_block ptr sz = ptr + sz"

definition block_prev :: "tlsf \<Rightarrow> u32 \<Rightarrow> u32 option" where
  "block_prev s b = assert_c (block_is_prev_free s b) \<bind> (\<lambda>_. Some (load s b))"

definition block_next :: "tlsf \<Rightarrow> u32 \<Rightarrow> u32 option" where
  "block_next s b =
     (let next = offset_to_block (block_to_ptr b) (block_size s b - block_header_overhead)
      in assert_c (\<not> block_is_last s b) \<bind> (\<lambda>_. Some next))"

definition block_link_next :: "u32 \<Rightarrow> tlsf \<Rightarrow> (u32 \<times> tlsf) option" where
  "block_link_next b s = block_next s b \<bind> (\<lambda>next. Some (next, store next b s))"

definition block_mark_as_free :: "u32 \<Rightarrow> tlsf \<Rightarrow> tlsf option" where
  "block_mark_as_free b s =
     block_link_next b s \<bind> (\<lambda>(next, s). Some (block_set_free b (block_set_prev_free next s)))"

definition block_mark_as_used :: "u32 \<Rightarrow> tlsf \<Rightarrow> tlsf option" where
  "block_mark_as_used b s =
     block_next s b \<bind> (\<lambda>next. Some (block_set_used b (block_set_prev_used next s)))"

section \<open>Free lists\<close>

definition next_free :: "tlsf \<Rightarrow> u32 \<Rightarrow> u32" where
  "next_free s b = load s (b + 8)"

definition prev_free :: "tlsf \<Rightarrow> u32 \<Rightarrow> u32" where
  "prev_free s b = load s (b + 12)"

text \<open>The block found and the indices of its list; the block is 0 when there is none.\<close>

definition search_suitable_block :: "tlsf \<Rightarrow> int \<Rightarrow> int \<Rightarrow> (u32 \<times> int \<times> int) option" where
  "search_suitable_block s fl sl = do {
     sl_list \<leftarrow> nth_int (sl_bitmap s) fl;
     let sl_map = sl_list AND push_bit (nat sl) (NOT 0);
     if sl_map = 0 then do {
       let fl_map = fl_bitmap s AND push_bit (nat (fl + 1)) (NOT 0);
       if fl_map = 0 then Some (0, fl, sl)
       else do {
         let fl = tlsf_ffs fl_map;
         sl_map \<leftarrow> nth_int (sl_bitmap s) fl;
         assert_c (sl_map \<noteq> 0);
         let sl = tlsf_ffs sl_map;
         b \<leftarrow> get_list s fl sl;
         Some (b, fl, sl)
       }
     } else do {
       assert_c (sl_map \<noteq> 0);
       let sl = tlsf_ffs sl_map;
       b \<leftarrow> get_list s fl sl;
       Some (b, fl, sl)
     }
   }"

definition remove_free_block :: "u32 \<Rightarrow> int \<Rightarrow> int \<Rightarrow> tlsf \<Rightarrow> tlsf option" where
  "remove_free_block b fl sl s = do {
     let prv = prev_free s b;
     let nxt = next_free s b;
     assert_c (prv \<noteq> 0);
     assert_c (nxt \<noteq> 0);
     let s = store (nxt + 12) prv s;
     let s = store (prv + 8) nxt s;
     hd \<leftarrow> get_list s fl sl;
     if hd = b then do {
       let s = set_list fl sl nxt s;
       if nxt = control s then do {
         sl_list \<leftarrow> nth_int (sl_bitmap s) fl;
         let s = set_sl_bitmap fl (sl_list AND NOT (push_bit (nat sl) 1)) s;
         sl_list \<leftarrow> nth_int (sl_bitmap s) fl;
         if sl_list = 0 then Some (s\<lparr>fl_bitmap := fl_bitmap s AND NOT (push_bit (nat fl) 1)\<rparr>)
         else Some s
       } else Some s
     } else Some s
   }"

definition insert_free_block :: "u32 \<Rightarrow> int \<Rightarrow> int \<Rightarrow> tlsf \<Rightarrow> tlsf option" where
  "insert_free_block b fl sl s = do {
     current \<leftarrow> get_list s fl sl;
     assert_c (current \<noteq> 0);
     assert_c (b \<noteq> 0);
     let s = store (b + 8) current s;
     let s = store (b + 12) (control s) s;
     let s = store (current + 12) b s;
     p \<leftarrow> align_ptr (block_to_ptr b) ALIGN_SIZE;
     assert_c (block_to_ptr b = p);
     let s = set_list fl sl b s;
     let s = s\<lparr>fl_bitmap := fl_bitmap s OR push_bit (nat fl) 1\<rparr>;
     sl_list \<leftarrow> nth_int (sl_bitmap s) fl;
     Some (set_sl_bitmap fl (sl_list OR push_bit (nat sl) 1) s)
   }"

definition block_remove :: "u32 \<Rightarrow> tlsf \<Rightarrow> tlsf option" where
  "block_remove b s = (let (fl, sl) = mapping_insert (block_size s b) in remove_free_block b fl sl s)"

definition block_insert :: "u32 \<Rightarrow> tlsf \<Rightarrow> tlsf option" where
  "block_insert b s = (let (fl, sl) = mapping_insert (block_size s b) in insert_free_block b fl sl s)"

section \<open>Splitting and merging\<close>

definition block_can_split :: "tlsf \<Rightarrow> u32 \<Rightarrow> u32 \<Rightarrow> bool" where
  "block_can_split s b sz \<longleftrightarrow> 16 + sz \<le> block_size s b"

definition block_split :: "u32 \<Rightarrow> u32 \<Rightarrow> tlsf \<Rightarrow> (u32 \<times> tlsf) option" where
  "block_split b sz s = do {
     let remaining = offset_to_block (block_to_ptr b) (sz - block_header_overhead);
     let remain_size = block_size s b - (sz + block_header_overhead);
     p \<leftarrow> align_ptr (block_to_ptr remaining) ALIGN_SIZE;
     assert_c (block_to_ptr remaining = p);
     assert_c (block_size s b = remain_size + sz + block_header_overhead);
     let s = block_set_size remaining remain_size s;
     assert_c (block_size_min \<le> block_size s remaining);
     let s = block_set_size b sz s;
     s \<leftarrow> block_mark_as_free remaining s;
     Some (remaining, s)
   }"

definition block_absorb :: "u32 \<Rightarrow> u32 \<Rightarrow> tlsf \<Rightarrow> (u32 \<times> tlsf) option" where
  "block_absorb prv b s = do {
     assert_c (\<not> block_is_last s prv);
     let s = store (prv + 4) (load s (prv + 4) + (block_size s b + block_header_overhead)) s;
     (_, s) \<leftarrow> block_link_next prv s;
     Some (prv, s)
   }"

definition block_merge_prev :: "u32 \<Rightarrow> tlsf \<Rightarrow> (u32 \<times> tlsf) option" where
  "block_merge_prev b s =
     (if block_is_prev_free s b then do {
        prv \<leftarrow> block_prev s b;
        assert_c (prv \<noteq> 0);
        assert_c (block_is_free s prv);
        s \<leftarrow> block_remove prv s;
        block_absorb prv b s
      } else Some (b, s))"

definition block_merge_next :: "u32 \<Rightarrow> tlsf \<Rightarrow> (u32 \<times> tlsf) option" where
  "block_merge_next b s = do {
     nxt \<leftarrow> block_next s b;
     assert_c (nxt \<noteq> 0);
     if block_is_free s nxt then do {
       assert_c (\<not> block_is_last s b);
       s \<leftarrow> block_remove nxt s;
       block_absorb b nxt s
     } else Some (b, s)
   }"

definition block_trim_free :: "u32 \<Rightarrow> u32 \<Rightarrow> tlsf \<Rightarrow> tlsf option" where
  "block_trim_free b sz s = do {
     assert_c (block_is_free s b);
     if block_can_split s b sz then do {
       (remaining_block, s) \<leftarrow> block_split b sz s;
       (_, s) \<leftarrow> block_link_next b s;
       let s = block_set_prev_free remaining_block s;
       block_insert remaining_block s
     } else Some s
   }"

definition block_trim_used :: "u32 \<Rightarrow> u32 \<Rightarrow> tlsf \<Rightarrow> tlsf option" where
  "block_trim_used b sz s = do {
     assert_c (\<not> block_is_free s b);
     if block_can_split s b sz then do {
       (remaining_block, s) \<leftarrow> block_split b sz s;
       let s = block_set_prev_used remaining_block s;
       (remaining_block, s) \<leftarrow> block_merge_next remaining_block s;
       block_insert remaining_block s
     } else Some s
   }"

definition block_trim_free_leading :: "u32 \<Rightarrow> u32 \<Rightarrow> tlsf \<Rightarrow> (u32 \<times> tlsf) option" where
  "block_trim_free_leading b sz s =
     (if block_can_split s b sz then do {
        (remaining_block, s) \<leftarrow> block_split b (sz - block_header_overhead) s;
        let s = block_set_prev_free remaining_block s;
        (_, s) \<leftarrow> block_link_next b s;
        s \<leftarrow> block_insert b s;
        Some (remaining_block, s)
      } else Some (b, s))"

definition block_locate_free :: "u32 \<Rightarrow> tlsf \<Rightarrow> (u32 \<times> tlsf) option" where
  "block_locate_free sz s = do {
     (b, fl, sl) \<leftarrow>
       (if sz \<noteq> 0 then do {
          let (fl, sl) = mapping_search sz;
          if fl < FL_INDEX_COUNT then search_suitable_block s fl sl else Some (0, fl, sl)
        } else Some (0, 0, 0));
     if b \<noteq> 0 then do {
       assert_c (sz \<le> block_size s b);
       s \<leftarrow> remove_free_block b fl sl s;
       Some (b, s)
     } else Some (b, s)
   }"

definition block_prepare_used :: "u32 \<Rightarrow> u32 \<Rightarrow> tlsf \<Rightarrow> (u32 \<times> tlsf) option" where
  "block_prepare_used b sz s =
     (if b \<noteq> 0 then do {
        assert_c (sz \<noteq> 0);
        s \<leftarrow> block_trim_free b sz s;
        s \<leftarrow> block_mark_as_used b s;
        Some (block_to_ptr b, s)
      } else Some (0, s))"

section \<open>Control structure and pools\<close>

definition control_construct :: "tlsf \<Rightarrow> tlsf" where
  "control_construct s =
     (let s = store (control s + 8) (control s) s;
          s = store (control s + 12) (control s) s
      in s\<lparr>fl_bitmap := 0, sl_bitmap := replicate 24 0,
           blocks := replicate 24 (replicate 32 (control s))\<rparr>)"

definition tlsf_size :: u32 where "tlsf_size = 16 + 4 + 24 * 4 + 24 * 32 * 4"
definition tlsf_align_size :: u32 where "tlsf_align_size = ALIGN_SIZE"
definition tlsf_block_size_min :: u32 where "tlsf_block_size_min = block_size_min"
definition tlsf_block_size_max :: u32 where "tlsf_block_size_max = block_size_max"
definition tlsf_pool_overhead :: u32 where "tlsf_pool_overhead = 2 * block_header_overhead"
definition tlsf_alloc_overhead :: u32 where "tlsf_alloc_overhead = block_header_overhead"

definition tlsf_block_size :: "tlsf \<Rightarrow> u32 \<Rightarrow> u32" where
  "tlsf_block_size s ptr = (if ptr \<noteq> 0 then block_size s (block_from_ptr ptr) else 0)"

definition tlsf_add_pool :: "u32 \<Rightarrow> u32 \<Rightarrow> tlsf \<Rightarrow> (u32 \<times> tlsf) option" where
  "tlsf_add_pool m bytes s = do {
     pool_bytes \<leftarrow> align_down (bytes - tlsf_pool_overhead) ALIGN_SIZE;
     if m mod ALIGN_SIZE \<noteq> 0 then Some (0, s)
     else if pool_bytes < block_size_min \<or> block_size_max < pool_bytes then Some (0, s)
     else do {
       let b = offset_to_block m (- block_header_overhead);
       let s = block_set_size b pool_bytes s;
       let s = block_set_free b s;
       let s = block_set_prev_used b s;
       s \<leftarrow> block_insert b s;
       (next, s) \<leftarrow> block_link_next b s;
       let s = block_set_size next 0 s;
       let s = block_set_used next s;
       let s = block_set_prev_free next s;
       Some (m, s)
     }
   }"

definition tlsf_remove_pool :: "u32 \<Rightarrow> tlsf \<Rightarrow> tlsf option" where
  "tlsf_remove_pool pool s = do {
     let b = offset_to_block pool (- block_header_overhead);
     assert_c (block_is_free s b);
     next \<leftarrow> block_next s b;
     assert_c (\<not> block_is_free s next);
     assert_c (block_size s next = 0);
     let (fl, sl) = mapping_insert (block_size s b);
     remove_free_block b fl sl s
   }"

text \<open>\<open>tlsf_create\<close> places the control structure at \<open>m\<close>.\<close>

definition tlsf_create :: "u32 \<Rightarrow> tlsf \<Rightarrow> u32 \<times> tlsf" where
  "tlsf_create m s =
     (if m mod ALIGN_SIZE \<noteq> 0 then (0, s) else (m, control_construct (s\<lparr>control := m\<rparr>)))"

definition tlsf_create_with_pool :: "u32 \<Rightarrow> u32 \<Rightarrow> tlsf \<Rightarrow> (u32 \<times> tlsf) option" where
  "tlsf_create_with_pool m bytes s = do {
     let (t, s) = tlsf_create m s;
     (_, s) \<leftarrow> tlsf_add_pool (m + tlsf_size) (bytes - tlsf_size) s;
     Some (t, s)
   }"

definition tlsf_get_pool :: "u32 \<Rightarrow> u32" where
  "tlsf_get_pool t = t + tlsf_size"

section \<open>Allocation\<close>

definition tlsf_malloc :: "u32 \<Rightarrow> tlsf \<Rightarrow> (u32 \<times> tlsf) option" where
  "tlsf_malloc sz s = do {
     adjust \<leftarrow> adjust_request_size sz ALIGN_SIZE;
     (b, s) \<leftarrow> block_locate_free adjust s;
     block_prepare_used b adjust s
   }"

definition tlsf_memalign :: "u32 \<Rightarrow> u32 \<Rightarrow> tlsf \<Rightarrow> (u32 \<times> tlsf) option" where
  "tlsf_memalign align sz s = do {
     adjust \<leftarrow> adjust_request_size sz ALIGN_SIZE;
     let gap_minimum = 16;
     size_with_gap \<leftarrow> adjust_request_size (adjust + align + gap_minimum) align;
     let aligned_size = (if adjust \<noteq> 0 \<and> ALIGN_SIZE < align then size_with_gap else adjust);
     (b, s) \<leftarrow> block_locate_free aligned_size s;
     assert_c ((16 :: u32) = block_size_min + block_header_overhead);
     (b, s) \<leftarrow>
       (if b \<noteq> 0 then do {
          let ptr = block_to_ptr b;
          aligned \<leftarrow> align_ptr ptr align;
          let gap = aligned - ptr;
          gap \<leftarrow>
            (if gap \<noteq> 0 \<and> gap < gap_minimum then do {
               let gap_remain = gap_minimum - gap;
               let offset = max gap_remain align;
               let next_aligned = aligned + offset;
               aligned \<leftarrow> align_ptr next_aligned align;
               Some (aligned - ptr)
             } else Some gap);
          if gap \<noteq> 0 then do {
            assert_c (gap_minimum \<le> gap);
            block_trim_free_leading b gap s
          } else Some (b, s)
        } else Some (b, s));
     block_prepare_used b adjust s
   }"

definition tlsf_free :: "u32 \<Rightarrow> tlsf \<Rightarrow> tlsf option" where
  "tlsf_free ptr s =
     (if ptr \<noteq> 0 then do {
        let b = block_from_ptr ptr;
        assert_c (\<not> block_is_free s b);
        s \<leftarrow> block_mark_as_free b s;
        (b, s) \<leftarrow> block_merge_prev b s;
        (b, s) \<leftarrow> block_merge_next b s;
        block_insert b s
      } else Some s)"

text \<open>\<open>memcpy\<close> on the word memory: bytes are stored most significant first.\<close>

definition load_byte :: "tlsf \<Rightarrow> u32 \<Rightarrow> u8" where
  "load_byte s a = ucast (drop_bit (8 * (3 - unat (a AND 3))) (load s (a AND NOT 3)))"

definition store_byte :: "u32 \<Rightarrow> u8 \<Rightarrow> tlsf \<Rightarrow> tlsf" where
  "store_byte a v s =
     (let k = 8 * (3 - unat (a AND 3)); w = a AND NOT 3
      in store w ((load s w AND NOT (push_bit k 0xFF)) OR push_bit k (ucast v)) s)"

fun copy_bytes :: "nat \<Rightarrow> u32 \<Rightarrow> u32 \<Rightarrow> tlsf \<Rightarrow> tlsf" where
  "copy_bytes 0 dst src s = s"
| "copy_bytes (Suc n) dst src s = copy_bytes n (dst + 1) (src + 1) (store_byte dst (load_byte s src) s)"

definition tlsf_realloc :: "u32 \<Rightarrow> u32 \<Rightarrow> tlsf \<Rightarrow> (u32 \<times> tlsf) option" where
  "tlsf_realloc ptr sz s =
     (if ptr \<noteq> 0 \<and> sz = 0 then tlsf_free ptr s \<bind> (\<lambda>s. Some (0, s))
      else if ptr = 0 then tlsf_malloc sz s
      else do {
        let b = block_from_ptr ptr;
        next \<leftarrow> block_next s b;
        let cursize = block_size s b;
        let combined = cursize + block_size s next + block_header_overhead;
        adjust \<leftarrow> adjust_request_size sz ALIGN_SIZE;
        assert_c (\<not> block_is_free s b);
        if cursize < adjust \<and> (\<not> block_is_free s next \<or> combined < adjust) then do {
          (p, s) \<leftarrow> tlsf_malloc sz s;
          if p \<noteq> 0 then do {
            let minsize = min cursize sz;
            let s = copy_bytes (unat minsize) p ptr s;
            s \<leftarrow> tlsf_free ptr s;
            Some (p, s)
          } else Some (p, s)
        } else do {
          s \<leftarrow>
            (if cursize < adjust then do {
               (_, s) \<leftarrow> block_merge_next b s;
               block_mark_as_used b s
             } else Some s);
          s \<leftarrow> block_trim_used b adjust s;
          Some (ptr, s)
        }
      })"

section \<open>Consistency checks\<close>

record integrity =
  prev_status :: int
  integ_status :: int

definition tlsf_insist :: "bool \<Rightarrow> int \<Rightarrow> int option" where
  "tlsf_insist x st = assert_c x \<bind> (\<lambda>_. Some (if \<not> x then st - 1 else st))"

definition integrity_walker :: "tlsf \<Rightarrow> u32 \<Rightarrow> u32 \<Rightarrow> bool \<Rightarrow> integrity \<Rightarrow> integrity option" where
  "integrity_walker s ptr sz used integ = do {
     let b = block_from_ptr ptr;
     let this_prev_status = (if block_is_prev_free s b then 1 else 0);
     let this_status = (if block_is_free s b then 1 else 0);
     let this_block_size = block_size s b;
     st \<leftarrow> tlsf_insist (prev_status integ = this_prev_status) 0;
     st \<leftarrow> tlsf_insist (sz = this_block_size) st;
     Some (integ\<lparr>prev_status := this_status, integ_status := integ_status integ + st\<rparr>)
   }"

definition default_walker :: "u32 \<Rightarrow> u32 \<Rightarrow> bool \<Rightarrow> 'u \<Rightarrow> 'u option" where
  "default_walker ptr sz used user = Some user"

partial_function (option) walk_blocks ::
  "(u32 \<Rightarrow> u32 \<Rightarrow> bool \<Rightarrow> 'u \<Rightarrow> 'u option) \<Rightarrow> tlsf \<Rightarrow> u32 \<Rightarrow> 'u \<Rightarrow> 'u option" where
  "walk_blocks walker s b user =
     (if b \<noteq> 0 \<and> \<not> block_is_last s b then do {
        user \<leftarrow> walker (block_to_ptr b) (block_size s b) (\<not> block_is_free s b) user;
        b \<leftarrow> block_next s b;
        walk_blocks walker s b user
      } else Some user)"

declare walk_blocks.simps [code]

definition tlsf_walk_pool ::
  "(u32 \<Rightarrow> u32 \<Rightarrow> bool \<Rightarrow> 'u \<Rightarrow> 'u option) option \<Rightarrow> tlsf \<Rightarrow> u32 \<Rightarrow> 'u \<Rightarrow> 'u option" where
  "tlsf_walk_pool walker s pool user =
     (let pool_walker = (case walker of Some w \<Rightarrow> w | None \<Rightarrow> default_walker);
          b = offset_to_block pool (- block_header_overhead)
      in walk_blocks pool_walker s b user)"

definition tlsf_check_pool :: "tlsf \<Rightarrow> u32 \<Rightarrow> int option" where
  "tlsf_check_pool s pool = do {
     integ \<leftarrow> tlsf_walk_pool (Some (integrity_walker s)) s pool \<lparr>prev_status = 0, integ_status = 0\<rparr>;
     Some (integ_status integ)
   }"

text \<open>The inner loop of \<open>tlsf_check\<close>, along one free list.\<close>

partial_function (option) check_list :: "tlsf \<Rightarrow> int \<Rightarrow> int \<Rightarrow> u32 \<Rightarrow> int \<Rightarrow> int option" where
  "check_list s i j b st =
     (if b \<noteq> control s then do {
        st \<leftarrow> tlsf_insist (block_is_free s b) st;
        st \<leftarrow> tlsf_insist (\<not> block_is_prev_free s b) st;
        nxt \<leftarrow> block_next s b;
        st \<leftarrow> tlsf_insist (\<not> block_is_free s nxt) st;
        nxt \<leftarrow> block_next s b;
        st \<leftarrow> tlsf_insist (block_is_prev_free s nxt) st;
        st \<leftarrow> tlsf_insist (block_size_min \<le> block_size s b) st;
        let (fli, sli) = mapping_insert (block_size s b);
        st \<leftarrow> tlsf_insist (fli = i \<and> sli = j) st;
        check_list s i j (next_free s b) st
      } else Some st)"

declare check_list.simps [code]

definition check_entry :: "tlsf \<Rightarrow> int \<Rightarrow> int \<Rightarrow> int \<Rightarrow> int option" where
  "check_entry s i j st = do {
     let fl_map = fl_bitmap s AND push_bit (nat i) 1;
     sl_list \<leftarrow> nth_int (sl_bitmap s) i;
     let sl_map = sl_list AND push_bit (nat j) 1;
     b \<leftarrow> get_list s i j;
     st \<leftarrow> (if fl_map = 0 then tlsf_insist (sl_map = 0) st else Some st);
     if sl_map = 0 then tlsf_insist (b = control s) st
     else do {
       st \<leftarrow> tlsf_insist (sl_list \<noteq> 0) st;
       st \<leftarrow> tlsf_insist (b \<noteq> control s) st;
       check_list s i j b st
     }
   }"

fun check_entries :: "tlsf \<Rightarrow> (int \<times> int) list \<Rightarrow> int \<Rightarrow> int option" where
  "check_entries s [] st = Some st"
| "check_entries s ((i, j) # ijs) st = check_entry s i j st \<bind> check_entries s ijs"

definition tlsf_check :: "tlsf \<Rightarrow> int option" where
  "tlsf_check s = check_entries s (List.product [0..FL_INDEX_COUNT - 1] [0..SL_INDEX_COUNT - 1]) 0"

end
