(* ===== verification/Tlsf_Blocks.thy ===== *)
theory Tlsf_Blocks
  imports Tlsf
begin

text \<open>
  The physical side of the TLSF heap. A pool is a row of blocks that tile its memory; this theory
  defines that layout over natural numbers (\<open>geom\<close>), what the headers in memory say about it
  (\<open>hdrs\<close>), and shows for each of the primitive operations on blocks of \<open>libyaul/kernel/mm/tlsf.c\<close>
  (marking, splitting, absorbing) how it changes the row and which words it writes.
\<close>

section \<open>Words for natural numbers\<close>

text \<open>Addresses and sizes are natural numbers in the specification; \<open>W\<close> takes them to machine words.\<close>

definition W :: "nat \<Rightarrow> u32" where
  "W n = of_nat n"

lemma W_add: "W (a + b) = W a + W b"
  by (simp add: W_def)

lemma W_diff: "b \<le> a \<Longrightarrow> W (a - b) = W a - W b"
  by (simp add: W_def of_nat_diff)

lemma W_const [simp]: "W 0 = 0" "W 1 = 1" "W (numeral k) = numeral k"
  by (simp_all add: W_def)

lemma W_plus_numeral: "W a + numeral k = W (a + numeral k)"
  by (simp add: W_add)

lemma W_eq_iff: "a < 2 ^ 32 \<Longrightarrow> b < 2 ^ 32 \<Longrightarrow> W a = W b \<longleftrightarrow> a = b"
  unfolding W_def by (rule of_nat_less_u32(3))

lemma W_le_iff: "a < 2 ^ 32 \<Longrightarrow> b < 2 ^ 32 \<Longrightarrow> W a \<le> W b \<longleftrightarrow> a \<le> b"
  unfolding W_def by (rule of_nat_less_u32(2))

lemma W_less_iff: "a < 2 ^ 32 \<Longrightarrow> b < 2 ^ 32 \<Longrightarrow> W a < W b \<longleftrightarrow> a < b"
  unfolding W_def by (rule of_nat_less_u32(1))

lemma W_eq_0_iff: "a < 2 ^ 32 \<Longrightarrow> W a = 0 \<longleftrightarrow> a = 0"
  using W_eq_iff [of a 0] by simp

lemma W_unat [simp]: "W (unat x) = x"
  by (simp add: W_def)

lemma unat_W: "a < 2 ^ 32 \<Longrightarrow> unat (W a) = a"
  unfolding W_def by (rule unat_of_nat32)

section \<open>The size field\<close>

definition tag :: "bool \<Rightarrow> bool \<Rightarrow> u32" where
  "tag f pf = (if f then 1 else 0) OR (if pf then 2 else 0)"

definition hdr :: "nat \<Rightarrow> bool \<Rightarrow> bool \<Rightarrow> u32" where
  "hdr n f pf = W n OR tag f pf"

lemma low_bits_W:
  assumes "n mod 4 = 0" and "i < 2"
  shows "\<not> bit (W n) i"
proof -
  have "take_bit 2 (W n) = 0" using and_3 [of n] assms(1)
    by (simp add: W_def take_bit_eq_mask mask_eq_exp_minus_1)
  then have "bit (take_bit 2 (W n)) i = bit 0 i" by simp
  then show ?thesis using assms(2) by (simp add: bit_take_bit_iff)
qed

lemma bit_tag: "bit (tag f pf) i \<longleftrightarrow> i = 0 \<and> f \<or> i = 1 \<and> pf"
  by (auto simp: tag_def bit_or_iff bit_1_iff bit_2_iff)

lemma bit_low [simp]: "bit (1 :: u32) i \<longleftrightarrow> i = 0" "bit (2 :: u32) i \<longleftrightarrow> i = 1" 
  by (auto simp: bit_1_iff bit_2_iff)

lemma bit_3: "bit (1 OR 2 :: u32) i \<longleftrightarrow> i = 0 \<or> i = 1"
  by (simp only: bit_or_iff bit_low)

lemma bit_hdr: "n mod 4 = 0 \<Longrightarrow> bit (hdr n f pf) i \<longleftrightarrow> i = 0 \<and> f \<or> i = 1 \<and> pf \<or> 2 \<le> i \<and> bit (W n) i"
  using low_bits_W [of n i] by (cases "i < 2") (auto simp: hdr_def bit_or_iff bit_tag)

lemma hdr_ops:
  assumes "n mod 4 = 0"
  shows "hdr n f pf AND NOT (1 OR 2) = W n"
    and "hdr n f pf OR 1 = hdr n True pf" and "hdr n f pf AND NOT 1 = hdr n False pf"
    and "hdr n f pf OR 2 = hdr n f True" and "hdr n f pf AND NOT 2 = hdr n f False"
proof -
  note b = bit_or_iff bit_and_iff bit_not_iff bit_hdr [OF assms] bit_3 bit_low possible_bit_word
  have "bit (hdr n f pf AND NOT (1 OR 2)) i = bit (W n) i" if "i < 32" for i
    using low_bits_W [OF assms, of i] that by (cases "i < 2") (simp_all only: b, auto)
  then show "hdr n f pf AND NOT (1 OR 2) = W n" by (intro bit_word_eqI) simp
  show "hdr n f pf OR 1 = hdr n True pf" "hdr n f pf OR 2 = hdr n f True"
    by (rule bit_word_eqI, simp only: b, blast)+
  show "hdr n f pf AND NOT 1 = hdr n False pf" "hdr n f pf AND NOT 2 = hdr n f False"
    by (rule bit_word_eqI, auto simp only: b)+
qed
lemma hdr_flags:
  assumes "n mod 4 = 0"
  shows "hdr n f pf AND 1 \<noteq> 0 \<longleftrightarrow> f" and "hdr n f pf AND 2 \<noteq> 0 \<longleftrightarrow> pf"
proof -
  have "bit (hdr n f pf AND 1) 0 = f" "bit (hdr n f pf AND 2) 1 = pf"
    by (simp_all only: bit_and_iff bit_low bit_hdr [OF assms]) auto
  moreover have "hdr n False pf AND 1 = 0" "hdr n f False AND 2 = 0"
    by (rule bit_word_eqI, auto simp only: bit_and_iff bit_low bit_hdr [OF assms] bit_0_eq)+
  ultimately show "hdr n f pf AND 1 \<noteq> 0 \<longleftrightarrow> f" "hdr n f pf AND 2 \<noteq> 0 \<longleftrightarrow> pf"
    by (cases f; cases pf; force)+
qed

lemma hdr_set_size: "n mod 4 = 0 \<Longrightarrow> W n OR (x AND (1 OR 2)) = hdr n (bit x 0) (bit x 1)"
  by (rule bit_word_eqI) (auto simp only: hdr_def bit_or_iff bit_and_iff bit_3 bit_low bit_tag)

lemma hdr_bits: "n mod 4 = 0 \<Longrightarrow> bit (hdr n f pf) 0 = f" "n mod 4 = 0 \<Longrightarrow> bit (hdr n f pf) 1 = pf"
  by (simp_all only: bit_hdr) auto

lemma hdr_plus: "n mod 4 = 0 \<Longrightarrow> hdr n f pf = W n + tag f pf"
  unfolding hdr_def
  by (rule disjunctive_add [symmetric]) (use low_bits_W [of n] in \<open>auto simp: bit_tag\<close>)

lemma hdr_absorb:
  assumes "k mod 4 = 0" and "n mod 4 = 0"
  shows "hdr k f pf + (W n + 4) = hdr (k + n + 4) f pf"
proof -
  have "(k + n + 4) mod 4 = 0" using assms by presburger
  then show ?thesis using assms by (simp add: hdr_plus W_add algebra_simps)
qed

section \<open>Geometry\<close>

text \<open>
  A block is its header's address, its size and whether it is free. All pools together form one
  list of blocks in physical order, each pool closed by its sentinel, a used block of size 0. The
  bytes of a block are those from its size field to the end of its user area.
\<close>

type_synonym blk = "nat \<times> nat \<times> bool"

fun wf_blk :: "blk \<Rightarrow> bool" where
  "wf_blk (a, n, f) \<longleftrightarrow> 0 < a \<and> a mod 4 = 0 \<and> n mod 4 = 0 \<and> (n = 0 \<and> \<not> f \<or> 12 \<le> n) \<and> a + n + 16 \<le> 2 ^ 30"

fun apart :: "blk \<Rightarrow> blk \<Rightarrow> bool" where
  "apart (a, n, f) (b, k, g) \<longleftrightarrow> a + n + 4 \<le> b \<or> b + k + 4 \<le> a"

fun off_control :: "nat \<Rightarrow> blk \<Rightarrow> bool" where
  "off_control c (a, n, f) \<longleftrightarrow> c + 3188 \<le> a + 4 \<or> a + n + 8 \<le> c"

fun chain :: "blk list \<Rightarrow> bool" where
  "chain [] \<longleftrightarrow> True"
| "chain [(a, n, f)] \<longleftrightarrow> n = 0"
| "chain ((a, n, f) # (b, k, g) # B) \<longleftrightarrow> (n = 0 \<or> b = a + n + 4) \<and> chain ((b, k, g) # B)"

definition geom :: "nat \<Rightarrow> blk list \<Rightarrow> bool" where
  "geom c B \<longleftrightarrow> 0 < c \<and> c mod 4 = 0 \<and> c + 3188 \<le> 2 ^ 30 \<and> chain B \<and> sorted_wrt apart B \<and>
     (\<forall>x \<in> set B. wf_blk x \<and> off_control c x)"

lemma chain_append_Cons:
  "chain (xs @ (a, n, f) # ys) \<longleftrightarrow> chain (xs @ [(a, 0, f)]) \<and> chain ((a, n, f) # ys)"
proof (induction xs)
  case Nil
  then show ?case by simp
next
  case (Cons x xs)
  obtain b k g where x: "x = (b, k, g)" by (cases x)
  show ?case
  proof (cases xs)
    case Nil
    then show ?thesis by (auto simp: x)
  next
    case (Cons y zs)
    then show ?thesis using Cons.IH by (cases y) (auto simp: x)
  qed
qed

lemma apart_sym: "apart x y \<Longrightarrow> apart y x"
  by (cases x; cases y) auto

lemma geom_mid:
  assumes "geom c (xs @ (a, n, f) # ys)"
  shows "wf_blk (a, n, f)" and "off_control c (a, n, f)"
    and "x \<in> set xs \<union> set ys \<Longrightarrow> apart x (a, n, f)"
proof -
  show "wf_blk (a, n, f)" "off_control c (a, n, f)" using assms unfolding geom_def by auto
  have "\<forall>x \<in> set xs. apart x (a, n, f)" "\<forall>y \<in> set ys. apart (a, n, f) y"
    using assms unfolding geom_def by (simp_all add: sorted_wrt_append del: apart.simps)
  then show "apart x (a, n, f)" if "x \<in> set xs \<union> set ys"
    using that apart_sym by blast
qed

lemma geom_next:
  assumes "geom c (xs @ (a, n, f) # ys)" and "n \<noteq> 0"
  obtains k g zs where "ys = (a + n + 4, k, g) # zs"
proof -
  have "chain ((a, n, f) # ys)" using assms by (auto simp: geom_def chain_append_Cons [of xs a n f ys])
  then show thesis using assms(2) by (cases ys rule: list.exhaust) (auto intro: that)
qed

lemma geom_distinct:
  assumes "geom c (xs @ (a, n, f) # ys)" and "(b, k, g) \<in> set xs \<union> set ys"
  shows "b \<noteq> a"
  using geom_mid(3) [OF assms] by auto
lemma geom_replace:
  assumes g: "geom c (xs @ us @ ys)" and ch: "chain (xs @ zs @ ys)" and so: "sorted_wrt apart zs"
    and zs: "\<And>z. z \<in> set zs \<Longrightarrow> wf_blk z \<and> off_control c z \<and> (\<forall>x \<in> set xs \<union> set ys. apart x z)"
  shows "geom c (xs @ zs @ ys)"
proof -
  have s: "sorted_wrt apart xs" "sorted_wrt apart ys" "\<forall>x \<in> set xs. \<forall>y \<in> set ys. apart x y"
    using g unfolding geom_def by (auto simp: sorted_wrt_append simp del: apart.simps)
  have "sorted_wrt apart (xs @ zs @ ys)"
    unfolding sorted_wrt_append set_append ball_Un using s so zs apart_sym by blast
  moreover have "\<forall>x \<in> set (xs @ zs @ ys). wf_blk x \<and> off_control c x"
    using g zs unfolding geom_def set_append ball_Un by blast
  ultimately show ?thesis using g ch unfolding geom_def by blast
qed

lemma chain_flag: "chain (xs @ (a, n, f) # ys) = chain (xs @ (a, n, g) # ys)"
proof -
  have "chain (xs @ [(a, 0, f)]) = chain (xs @ [(a, 0, g)])"
  proof (induction xs)
    case Nil
    then show ?case by simp
  next
    case (Cons x xs)
    then show ?case by (cases x; cases xs) auto
  qed
  moreover have "chain ((a, n, f) # ys) = chain ((a, n, g) # ys)" by (cases ys) auto
  ultimately show ?thesis by (simp add: chain_append_Cons [of xs a n _ ys])
qed

lemma geom_flag:
  assumes "geom c (xs @ (a, n, f) # ys)" and "n \<noteq> 0"
  shows "geom c (xs @ (a, n, g) # ys)"
proof -
  note m = geom_mid [OF assms(1)]
  have "geom c (xs @ [(a, n, g)] @ ys)"
  proof (rule geom_replace [of c xs "[(a, n, f)]" ys])
    show "chain (xs @ [(a, n, g)] @ ys)"
      using assms(1) chain_flag [of xs a n f ys g] by (simp add: geom_def)
    fix z assume z: "z \<in> set [(a, n, g)]"
    have "apart x (a, n, g)" if "x \<in> set xs \<union> set ys" for x
      using m(3) [OF that] by (cases x) simp
    moreover have "wf_blk (a, n, g)" "off_control c (a, n, g)" using m(1,2) assms(2) by auto
    ultimately show "wf_blk z \<and> off_control c z \<and> (\<forall>x \<in> set xs \<union> set ys. apart x z)"
      using z by (auto simp del: wf_blk.simps apart.simps off_control.simps)
  qed (use assms in auto)
  then show ?thesis by simp
qed

lemma geom_split:
  assumes g: "geom c (xs @ (a, n, f) # ys)" and k: "k mod 4 = 0" "12 \<le> k" "k + 16 \<le> n"
  shows "geom c (xs @ (a, k, f') # (a + k + 4, n - k - 4, f'') # ys)"
proof -
  note m = geom_mid [OF g]
  have n0: "n \<noteq> 0" using k by simp
  obtain k' g' zs where ys: "ys = (a + n + 4, k', g') # zs" by (rule geom_next [OF g n0])
  have ch: "chain (xs @ [(a, 0, f')])" "chain ((a, n, f) # ys)"
    using g chain_append_Cons [of xs a n f ys] chain_flag [of xs a 0 f "[]" f'] by (auto simp: geom_def)
  have "geom c (xs @ [(a, k, f'), (a + k + 4, n - k - 4, f'')] @ ys)"
  proof (rule geom_replace [of c xs "[(a, n, f)]" ys])
    show "chain (xs @ [(a, k, f'), (a + k + 4, n - k - 4, f'')] @ ys)"
      using ch k ys chain_append_Cons [of xs a k f' "(a + k + 4, n - k - 4, f'') # ys"] by simp
    fix z assume z: "z \<in> set [(a, k, f'), (a + k + 4, n - k - 4, f'')]"
    have "apart x (a, k, f')" "apart x (a + k + 4, n - k - 4, f'')" if "x \<in> set xs \<union> set ys" for x
      using m(3) [OF that] k by (cases x, auto)+
    moreover have "wf_blk (a, k, f')" "wf_blk (a + k + 4, n - k - 4, f'')"
        "off_control c (a, k, f')" "off_control c (a + k + 4, n - k - 4, f'')"
      using m(1,2) k by (auto simp: mod_0_imp_dvd)
    ultimately show "wf_blk z \<and> off_control c z \<and> (\<forall>x \<in> set xs \<union> set ys. apart x z)"
      using z by (auto simp del: wf_blk.simps apart.simps off_control.simps)
  qed (use g in auto)
  then show ?thesis by simp
qed

lemma geom_merge:
  assumes g: "geom c (xs @ (a, n, f) # (b, k, g') # ys)" and nz: "n \<noteq> 0" "k \<noteq> 0"
  shows "geom c (xs @ (a, n + k + 4, f) # ys)"
proof -
  have b: "b = a + n + 4" using geom_next [OF g nz(1)] by auto
  have g2: "geom c ((xs @ [(a, n, f)]) @ (b, k, g') # ys)" using g by simp
  note m = geom_mid [OF g] and m2 = geom_mid [OF g2]
  have ch: "chain (xs @ [(a, 0, f)])" "chain ((a, n, f) # (b, k, g') # ys)"
    using g chain_append_Cons [of xs a n f "(b, k, g') # ys"] by (auto simp: geom_def)
  have "geom c (xs @ [(a, n + k + 4, f)] @ ys)"
  proof (rule geom_replace [of c xs "[(a, n, f), (b, k, g')]" ys])
    have "chain ((a, n + k + 4, f) # ys)" using ch(2) nz b by (cases ys) auto
    then show "chain (xs @ [(a, n + k + 4, f)] @ ys)"
      using ch(1) chain_append_Cons [of xs a "n + k + 4" f ys] by simp
    fix z assume z: "z \<in> set [(a, n + k + 4, f)]"
    have "apart x (a, n + k + 4, f)" if "x \<in> set xs \<union> set ys" for x
      using m(3) [of x] m2(3) [of x] that b by (cases x) auto
    moreover have "wf_blk (a, n + k + 4, f)" "off_control c (a, n + k + 4, f)"
      using m(1,2) m2(1,2) b nz by auto
    ultimately show "wf_blk z \<and> off_control c z \<and> (\<forall>x \<in> set xs \<union> set ys. apart x z)"
      using z by (auto simp del: wf_blk.simps apart.simps off_control.simps)
  qed (use g in auto)
  then show ?thesis by simp
qed

section \<open>Headers in memory\<close>

text \<open>The size field of every block, with its own status and that of its predecessor, and the back
  link at the end of every free block.\<close>

fun blk_mem :: "(u32 \<Rightarrow> u32) \<Rightarrow> bool \<Rightarrow> blk \<Rightarrow> bool" where
  "blk_mem m pf (a, n, f) \<longleftrightarrow> m (W (a + 4)) = hdr n f pf \<and> (f \<longrightarrow> m (W (a + n + 4)) = W a)"

fun hdrs :: "(u32 \<Rightarrow> u32) \<Rightarrow> bool \<Rightarrow> blk list \<Rightarrow> bool" where
  "hdrs m pf [] \<longleftrightarrow> True"
| "hdrs m pf (x # B) \<longleftrightarrow> blk_mem m pf x \<and> hdrs m (snd (snd x)) B"

fun last_free :: "bool \<Rightarrow> blk list \<Rightarrow> bool" where
  "last_free pf [] = pf"
| "last_free pf (x # B) = last_free (snd (snd x)) B"

lemma hdrs_append: "hdrs m pf (xs @ ys) \<longleftrightarrow> hdrs m pf xs \<and> hdrs m (last_free pf xs) ys"
  by (induction xs arbitrary: pf) auto

lemma last_free_append [simp]: "last_free pf (xs @ ys) = last_free (last_free pf xs) ys"
  by (induction xs arbitrary: pf) auto

text \<open>The memory words of a block.\<close>

fun span :: "blk \<Rightarrow> nat set" where
  "span (a, n, f) = {a + 4..<a + n + 8}"

lemma hdrs_frame:
  assumes "hdrs m pf B" and "\<And>x y. x \<in> set B \<Longrightarrow> y \<in> span x \<Longrightarrow> m' (W y) = m (W y)"
  shows "hdrs m' pf B"
  using assms
proof (induction B arbitrary: pf)
  case Nil
  then show ?case by simp
next
  case (Cons x B)
  obtain a n f where x: "x = (a, n, f)" by (cases x)
  have "m' (W (a + 4)) = m (W (a + 4))" "m' (W (a + n + 4)) = m (W (a + n + 4))"
    using Cons.prems(2) [of x] by (simp_all add: x)
  moreover have "hdrs m' f B"
  proof (rule Cons.IH)
    show "hdrs m f B" using Cons.prems(1) by (simp add: x)
    show "m' (W y) = m (W y)" if "z \<in> set B" "y \<in> span z" for z y
      using Cons.prems(2) [of z y] that by simp
  qed
  ultimately show ?case using Cons.prems(1) by (simp add: x)
qed
section \<open>The physical heap\<close>

definition phys :: "tlsf \<Rightarrow> blk list \<Rightarrow> bool" where
  "phys s B \<longleftrightarrow> geom (unat (control s)) B \<and> hdrs (mem s) False B"

text \<open>Two states that differ in memory only, and there only in the words \<open>S\<close>.\<close>

definition differ :: "nat set \<Rightarrow> tlsf \<Rightarrow> tlsf \<Rightarrow> bool" where
  "differ S s s' \<longleftrightarrow> control s' = control s \<and> fl_bitmap s' = fl_bitmap s \<and> sl_bitmap s' = sl_bitmap s \<and>
     blocks s' = blocks s \<and> (\<forall>y. y < 2 ^ 32 \<longrightarrow> y \<notin> S \<longrightarrow> mem s' (W y) = mem s (W y))"

lemma differ_refl [simp]: "differ S s s"
  by (simp add: differ_def)

lemma differ_mono: "differ S s s' \<Longrightarrow> S \<subseteq> T \<Longrightarrow> differ T s s'"
  by (auto simp: differ_def)

lemma differ_trans: "differ S s s1 \<Longrightarrow> differ T s1 s2 \<Longrightarrow> differ (S \<union> T) s s2"
  by (simp add: differ_def)

lemma differ_store: "x < 2 ^ 32 \<Longrightarrow> differ {x} s (store (W x) v s)"
  by (auto simp: differ_def store_def W_eq_iff)

lemma differ_store2: "differ S s s' \<Longrightarrow> x \<in> S \<Longrightarrow> x < 2 ^ 32 \<Longrightarrow> differ S s (store (W x) v s')"
  using differ_trans [OF _ differ_store, of S s s' x v] by (simp add: insert_absorb)

lemma load_store [simp]:
  "x < 2 ^ 32 \<Longrightarrow> y < 2 ^ 32 \<Longrightarrow> load (store (W x) v s) (W y) = (if y = x then v else load s (W y))"
  by (simp add: load_def store_def W_eq_iff)

lemma store_sel [simp]:
  "control (store x v s) = control s" "fl_bitmap (store x v s) = fl_bitmap s"
  "sl_bitmap (store x v s) = sl_bitmap s" "blocks (store x v s) = blocks s"
  by (simp_all add: store_def)

lemma block_next_W: "W a + 8 + (W n - 4) = W (a + n + 4)"
  by (simp add: W_add)

lemma phys_block:
  assumes "phys s (xs @ (a, n, f) # ys)"
  shows "load s (W (a + 4)) = hdr n f (last_free False xs)"
    and "f \<Longrightarrow> load s (W (a + n + 4)) = W a" and "wf_blk (a, n, f)" and "W a \<noteq> 0"
  using assms geom_mid(1) [of "unat (control s)" xs a n f ys] W_eq_0_iff [of a]
  by (auto simp: phys_def hdrs_append load_def)

lemma header_ops:
  assumes "load s (W (a + 4)) = hdr n f pf" and "n mod 4 = 0" and "n < 2 ^ 32"
  shows "block_size s (W a) = W n" and "block_is_free s (W a) = f" and "block_is_prev_free s (W a) = pf"
    and "block_is_last s (W a) \<longleftrightarrow> n = 0"
    and "n \<noteq> 0 \<Longrightarrow> block_next s (W a) = Some (W (a + n + 4))"
    and "block_set_free (W a) s = store (W (a + 4)) (hdr n True pf) s"
    and "block_set_used (W a) s = store (W (a + 4)) (hdr n False pf) s"
    and "block_set_prev_free (W a) s = store (W (a + 4)) (hdr n f True) s"
    and "block_set_prev_used (W a) s = store (W (a + 4)) (hdr n f False) s"
proof -
  have a4: "W a + 4 = W (a + 4)" by (rule W_plus_numeral)
  show bs: "block_size s (W a) = W n"
    using assms hdr_ops(1) [OF assms(2)]
    by (simp only: block_size_def a4 block_header_free_bit_def block_header_prev_free_bit_def)
  show "block_is_free s (W a) = f" "block_is_prev_free s (W a) = pf"
    using assms hdr_flags [OF assms(2)]
    by (simp_all only: block_is_free_def block_is_prev_free_def a4 block_header_free_bit_def
        block_header_prev_free_bit_def)
  show l: "block_is_last s (W a) \<longleftrightarrow> n = 0"
    using bs W_eq_0_iff [OF assms(3)] by (simp add: block_is_last_def)
  show "block_next s (W a) = Some (W (a + n + 4))" if "n \<noteq> 0"
    using that l bs by (simp add: block_next_def offset_to_block_def block_to_ptr_def tlsf_consts block_next_W)
  show "block_set_free (W a) s = store (W (a + 4)) (hdr n True pf) s"
    "block_set_used (W a) s = store (W (a + 4)) (hdr n False pf) s"
    "block_set_prev_free (W a) s = store (W (a + 4)) (hdr n f True) s"
    "block_set_prev_used (W a) s = store (W (a + 4)) (hdr n f False) s"
    using assms hdr_ops [OF assms(2)]
    by (simp_all only: block_set_free_def block_set_used_def block_set_prev_free_def
        block_set_prev_used_def a4 block_header_free_bit_def block_header_prev_free_bit_def)
qed

lemma block_set_size_eq:
  assumes "n mod 4 = 0"
  shows "block_set_size (W a) (W n) s
    = store (W (a + 4)) (hdr n (bit (load s (W (a + 4))) 0) (bit (load s (W (a + 4))) 1)) s"
  using hdr_set_size [OF assms, of "load s (W (a + 4))"]
  by (simp only: block_set_size_def W_plus_numeral block_header_free_bit_def block_header_prev_free_bit_def)

text \<open>Replacing a run of adjacent blocks, when memory changes inside that run only.\<close>

lemma span_apart: "apart x y \<Longrightarrow> span x \<inter> span y = {}"
  by (cases x; cases y) auto

lemma span_bound: "wf_blk x \<Longrightarrow> y \<in> span x \<Longrightarrow> y < 2 ^ 32"
  by (cases x) auto

lemma geom_apart_mid:
  assumes "geom c (xs @ us @ zs)" and "x \<in> set xs \<union> set zs" and "u \<in> set us"
  shows "apart x u"
proof -
  have "sorted_wrt apart (xs @ us @ zs)" using assms(1) by (simp add: geom_def)
  then show ?thesis
    using assms(2,3) apart_sym unfolding sorted_wrt_append set_append by blast
qed

lemma phys_replace:
  assumes p: "phys s (xs @ us @ zs)" and d: "differ S s s'" and S: "S \<subseteq> \<Union> (span ` set us)"
    and g: "geom (unat (control s)) (xs @ vs @ zs)"
    and vs: "hdrs (mem s') (last_free False xs) vs"
    and fl: "last_free (last_free False xs) vs = last_free (last_free False xs) us"
  shows "phys s' (xs @ vs @ zs)"
proof -
  have geo: "geom (unat (control s)) (xs @ us @ zs)" using p by (simp add: phys_def)
  have same: "mem s' (W y) = mem s (W y)" if x: "x \<in> set xs \<union> set zs" and y: "y \<in> span x" for x y
  proof -
    have "wf_blk x" using geo x by (auto simp: geom_def)
    moreover have "y \<notin> S"
      using S y span_apart [OF geom_apart_mid [OF geo x]] by blast
    ultimately show ?thesis using d y span_bound by (auto simp: differ_def)
  qed
  have h: "hdrs (mem s) False xs" "hdrs (mem s) (last_free (last_free False xs) us) zs"
    using p by (auto simp: phys_def hdrs_append)
  have "hdrs (mem s') False xs" by (rule hdrs_frame [OF h(1)]) (use same in blast)
  moreover have "hdrs (mem s') (last_free (last_free False xs) us) zs"
    by (rule hdrs_frame [OF h(2)]) (use same in blast)
  ultimately show ?thesis using g vs fl d by (simp add: phys_def hdrs_append differ_def)
qed

section \<open>Operations on blocks\<close>

text \<open>What the geometry says about two adjacent blocks.\<close>

lemma phys_pair:
  assumes p: "phys s (xs @ (a, n, f) # (b, k, g) # zs)" and n: "n \<noteq> 0"
  shows "b = a + n + 4" and "12 \<le> n" and "n mod 4 = 0" and "k mod 4 = 0"
    and "b + k + 16 \<le> 2 ^ 30" and "k = 0 \<or> 12 \<le> k" and "a mod 4 = 0" and "0 < a"
    and "load s (W (a + 4)) = hdr n f (last_free False xs)" and "load s (W (b + 4)) = hdr k g f"
    and "f \<Longrightarrow> load s (W b) = W a" and "g \<Longrightarrow> load s (W (b + k + 4)) = W b"
    and "g \<Longrightarrow> k \<noteq> 0" and "geom (unat (control s)) (xs @ (a, n, f) # (b, k, g) # zs)"
proof -
  show geo: "geom (unat (control s)) (xs @ (a, n, f) # (b, k, g) # zs)" using p by (simp add: phys_def)
  show b: "b = a + n + 4" using geom_next [OF geo n] by auto
  have p2: "phys s ((xs @ [(a, n, f)]) @ (b, k, g) # zs)" using p by simp
  note 1 = phys_block [OF p] and 2 = phys_block [OF p2]
  show "12 \<le> n" "n mod 4 = 0" "k mod 4 = 0" "b + k + 16 \<le> 2 ^ 30" "k = 0 \<or> 12 \<le> k" "a mod 4 = 0" "0 < a"
    "load s (W (a + 4)) = hdr n f (last_free False xs)" "load s (W (b + 4)) = hdr k g f"
    "f \<Longrightarrow> load s (W b) = W a" "g \<Longrightarrow> load s (W (b + k + 4)) = W b" "g \<Longrightarrow> k \<noteq> 0"
    using 1 2 n b by auto
qed

lemma block_mark_as_free_phys:
  assumes p: "phys s (xs @ (a, n, False) # (b, k, g) # zs)" and n: "n \<noteq> 0"
  obtains s' where "block_mark_as_free (W a) s = Some s'" "phys s' (xs @ (a, n, True) # (b, k, g) # zs)"
    "differ {a + 4, b, b + 4} s s'"
proof -
  note q = phys_pair [OF p n]
  let ?s1 = "store (W b) (W a) s"
  let ?s2 = "store (W (b + 4)) (hdr k g True) ?s1"
  let ?s' = "store (W (a + 4)) (hdr n True (last_free False xs)) ?s2"
  have nx: "block_next s (W a) = Some (W b)" using header_ops(5) [OF q(9)] q n by simp
  have "load ?s1 (W (b + 4)) = hdr k g False" using q by simp
  then have 1: "block_set_prev_free (W b) ?s1 = ?s2" using header_ops(8) [of ?s1 b k g False] q by simp
  have "load ?s2 (W (a + 4)) = hdr n False (last_free False xs)" using q by simp
  then have 2: "block_set_free (W a) ?s2 = ?s'" using header_ops(6) [of ?s2 a n False] q by simp
  have ex: "block_mark_as_free (W a) s = Some ?s'"
    using nx 1 2 by (simp add: block_mark_as_free_def block_link_next_def)
  have d: "differ {a + 4, b, b + 4} s ?s'"
    using q by (intro differ_store2 differ_refl) auto
  have "phys ?s' (xs @ [(a, n, True), (b, k, g)] @ zs)"
  proof (rule phys_replace [OF _ d])
    show "phys s (xs @ [(a, n, False), (b, k, g)] @ zs)" using p by simp
    show "geom (unat (control s)) (xs @ [(a, n, True), (b, k, g)] @ zs)"
      using geom_flag [OF q(14) n, of True] by simp
    have "load ?s' (W (a + 4)) = hdr n True (last_free False xs)" "load ?s' (W b) = W a"
        "load ?s' (W (b + 4)) = hdr k g True" "g \<Longrightarrow> load ?s' (W (b + k + 4)) = W b"
      using q by auto
    then show "hdrs (mem ?s') (last_free False xs) [(a, n, True), (b, k, g)]"
      using q(1) by (simp add: load_def)
  qed (use q in auto)
  with ex d show thesis by (intro that [of ?s']) simp_all
qed

lemma block_mark_as_used_phys:
  assumes p: "phys s (xs @ (a, n, True) # (b, k, g) # zs)"
  obtains s' where "block_mark_as_used (W a) s = Some s'" "phys s' (xs @ (a, n, False) # (b, k, g) # zs)"
    "differ {a + 4, b + 4} s s'"
proof -
  have n: "n \<noteq> 0" using phys_block(3) [OF p] by auto
  note q = phys_pair [OF p n]
  let ?s1 = "store (W (b + 4)) (hdr k g False) s"
  let ?s' = "store (W (a + 4)) (hdr n False (last_free False xs)) ?s1"
  have nx: "block_next s (W a) = Some (W b)" using header_ops(5) [OF q(9)] q n by simp
  have 1: "block_set_prev_used (W b) s = ?s1" using header_ops(9) [OF q(10)] q by simp
  have "load ?s1 (W (a + 4)) = hdr n True (last_free False xs)" using q by simp
  then have 2: "block_set_used (W a) ?s1 = ?s'" using header_ops(7) [of ?s1 a n True] q by simp
  have ex: "block_mark_as_used (W a) s = Some ?s'" using nx 1 2 by (simp add: block_mark_as_used_def)
  have d: "differ {a + 4, b + 4} s ?s'" using q by (intro differ_store2 differ_refl) auto
  have "phys ?s' (xs @ [(a, n, False), (b, k, g)] @ zs)"
  proof (rule phys_replace [OF _ d])
    show "phys s (xs @ [(a, n, True), (b, k, g)] @ zs)" using p by simp
    show "geom (unat (control s)) (xs @ [(a, n, False), (b, k, g)] @ zs)"
      using geom_flag [OF q(14) n, of False] by simp
    have "load ?s' (W (a + 4)) = hdr n False (last_free False xs)" "load ?s' (W (b + 4)) = hdr k g False"
        "g \<Longrightarrow> load ?s' (W (b + k + 4)) = W b"
      using q by auto
    then show "hdrs (mem ?s') (last_free False xs) [(a, n, False), (b, k, g)]" by (simp add: load_def)
  qed (use q in auto)
  with ex d show thesis by (intro that [of ?s']) simp_all
qed
text \<open>Three adjacent blocks, the first two of which are about to become one.\<close>

lemma phys_triple:
  assumes p: "phys s (xs @ (a, n, f) # (b, k, True) # zs)" and n: "n \<noteq> 0"
  obtains d j h ws where "zs = (d, j, h) # ws" "d = a + (n + k + 4) + 4" "d = b + k + 4" "12 \<le> k"
    "j mod 4 = 0" "j = 0 \<or> 12 \<le> j" "d + j + 16 \<le> 2 ^ 30" "load s (W (d + 4)) = hdr j h True"
    "h \<longrightarrow> load s (W (d + j + 4)) = W d" "h \<longrightarrow> j \<noteq> 0" "(n + k + 4) mod 4 = 0"
    "geom (unat (control s)) (xs @ (a, n + k + 4, f) # zs)"
proof -
  note q = phys_pair [OF p n]
  have k: "k \<noteq> 0" using q(13) by simp
  have "geom (unat (control s)) ((xs @ [(a, n, f)]) @ (b, k, True) # zs)" using q(14) by simp
  from geom_next [OF this k] obtain j h ws where zs: "zs = (b + k + 4, j, h) # ws" by auto
  have "phys s ((xs @ [(a, n, f)]) @ (b, k, True) # (b + k + 4, j, h) # ws)" using p zs by simp
  note r = phys_pair [OF this k]
  have g: "geom (unat (control s)) (xs @ (a, n + k + 4, f) # zs)"
    by (rule geom_merge [OF q(14) n k])
  have m: "(n + k + 4) mod 4 = 0" using q(3,4) by presburger
  show thesis
    by (rule that [OF zs _ _ _ _ _ _ _ _ _ m g]) (use q r k in auto)
qed

lemma block_absorb_phys:
  assumes p: "phys s (xs @ (a, n, True) # (b, k, True) # zs)"
  obtains s' where "block_absorb (W a) (W b) s = Some (W a, s')"
    "phys s' (xs @ (a, n + k + 4, True) # zs)" "differ {a + 4, b + k + 4} s s'"
proof -
  have n: "n \<noteq> 0" using phys_block(3) [OF p] by auto
  note q = phys_pair [OF p n]
  obtain d j h ws where t: "zs = (d, j, h) # ws" "d = a + (n + k + 4) + 4" "d = b + k + 4" "12 \<le> k"
      "j mod 4 = 0" "j = 0 \<or> 12 \<le> j" "d + j + 16 \<le> 2 ^ 30" "load s (W (d + 4)) = hdr j h True"
      "h \<longrightarrow> load s (W (d + j + 4)) = W d" "h \<longrightarrow> j \<noteq> 0" "(n + k + 4) mod 4 = 0"
      "geom (unat (control s)) (xs @ (a, n + k + 4, True) # zs)"
    by (rule phys_triple [OF p n])
  let ?s1 = "store (W (a + 4)) (hdr (n + k + 4) True (last_free False xs)) s"
  let ?s' = "store (W d) (W a) ?s1"
  have "load s (W a + 4) + (block_size s (W b) + block_header_overhead)
      = hdr (n + k + 4) True (last_free False xs)"
    using q header_ops(1) [OF q(10)] hdr_absorb [of n k]
    by (simp add: W_plus_numeral block_header_overhead_def)
  moreover have "load ?s1 (W (a + 4)) = hdr (n + k + 4) True (last_free False xs)" using q by simp
  from header_ops(5) [OF this t(11)] q t have "block_next ?s1 (W a) = Some (W d)" by simp
  moreover have "\<not> block_is_last s (W a)" using header_ops(4) [OF q(9)] q n by simp
  ultimately have ex: "block_absorb (W a) (W b) s = Some (W a, ?s')"
    by (simp add: block_absorb_def block_link_next_def W_plus_numeral)
  have d: "differ {a + 4, b + k + 4} s ?s'"
    unfolding t(3) using q t by (intro differ_store2 differ_refl) auto
  have "phys ?s' (xs @ [(a, n + k + 4, True), (d, j, h)] @ ws)"
  proof (rule phys_replace [OF _ d])
    show "phys s (xs @ [(a, n, True), (b, k, True), (d, j, h)] @ ws)" using p t(1) by simp
    show "geom (unat (control s)) (xs @ [(a, n + k + 4, True), (d, j, h)] @ ws)" using t(1,12) by simp
    have "load ?s' (W (a + 4)) = hdr (n + k + 4) True (last_free False xs)" "load ?s' (W d) = W a"
        "load ?s' (W (d + 4)) = hdr j h True" "h \<Longrightarrow> load ?s' (W (d + j + 4)) = W d"
      using q t by auto
    then show "hdrs (mem ?s') (last_free False xs) [(a, n + k + 4, True), (d, j, h)]"
      using t(2) by (simp add: load_def)
  qed (use q t in auto)
  with ex d t(1) show thesis by (intro that [of ?s']) simp_all
qed

text \<open>Absorbing a free block into a used one, as \<open>tlsf_realloc\<close> does: the result is made used again.\<close>

lemma block_absorb_used_phys:
  assumes p: "phys s (xs @ (a, n, False) # (b, k, True) # zs)" and n: "n \<noteq> 0"
  obtains s1 s' where "block_absorb (W a) (W b) s = Some (W a, s1)" "block_mark_as_used (W a) s1 = Some s'"
    "phys s' (xs @ (a, n + k + 4, False) # zs)" "differ {a + 4, b + k + 4, b + k + 8} s s'"
proof -
  note q = phys_pair [OF p n]
  obtain d j h ws where t: "zs = (d, j, h) # ws" "d = a + (n + k + 4) + 4" "d = b + k + 4" "12 \<le> k"
      "j mod 4 = 0" "j = 0 \<or> 12 \<le> j" "d + j + 16 \<le> 2 ^ 30" "load s (W (d + 4)) = hdr j h True"
      "h \<longrightarrow> load s (W (d + j + 4)) = W d" "h \<longrightarrow> j \<noteq> 0" "(n + k + 4) mod 4 = 0"
      "geom (unat (control s)) (xs @ (a, n + k + 4, False) # zs)"
    by (rule phys_triple [OF p n])
  let ?s1 = "store (W (a + 4)) (hdr (n + k + 4) False (last_free False xs)) s"
  let ?s2 = "store (W d) (W a) ?s1"
  let ?s3 = "store (W (d + 4)) (hdr j h False) ?s2"
  let ?s' = "store (W (a + 4)) (hdr (n + k + 4) False (last_free False xs)) ?s3"
  have "load s (W a + 4) + (block_size s (W b) + block_header_overhead)
      = hdr (n + k + 4) False (last_free False xs)"
    using q header_ops(1) [OF q(10)] hdr_absorb [of n k]
    by (simp add: W_plus_numeral block_header_overhead_def)
  moreover have "load ?s1 (W (a + 4)) = hdr (n + k + 4) False (last_free False xs)" using q by simp
  from header_ops(5) [OF this t(11)] q t have "block_next ?s1 (W a) = Some (W d)" by simp
  moreover have "\<not> block_is_last s (W a)" using header_ops(4) [OF q(9)] q n by simp
  ultimately have ex: "block_absorb (W a) (W b) s = Some (W a, ?s2)"
    by (simp add: block_absorb_def block_link_next_def W_plus_numeral)
  have l2: "load ?s2 (W (a + 4)) = hdr (n + k + 4) False (last_free False xs)"
      "load ?s2 (W (d + 4)) = hdr j h True" using q t by auto
  have "block_next ?s2 (W a) = Some (W d)" using header_ops(5) [OF l2(1) t(11)] q t by simp
  moreover have "block_set_prev_used (W d) ?s2 = ?s3" using header_ops(9) [OF l2(2) t(5)] t by simp
  moreover have "load ?s3 (W (a + 4)) = hdr (n + k + 4) False (last_free False xs)" using l2 q t by simp
  from header_ops(7) [OF this t(11)] q t have "block_set_used (W a) ?s3 = ?s'" by simp
  ultimately have ex2: "block_mark_as_used (W a) ?s2 = Some ?s'" by (simp add: block_mark_as_used_def)
  have d: "differ {a + 4, b + k + 4, b + k + 8} s ?s'"
    unfolding t(3) using q t by (intro differ_store2 differ_refl) auto
  have "phys ?s' (xs @ [(a, n + k + 4, False), (d, j, h)] @ ws)"
  proof (rule phys_replace [OF _ d])
    show "phys s (xs @ [(a, n, False), (b, k, True), (d, j, h)] @ ws)" using p t(1) by simp
    show "geom (unat (control s)) (xs @ [(a, n + k + 4, False), (d, j, h)] @ ws)" using t(1,12) by simp
    have "load ?s' (W (a + 4)) = hdr (n + k + 4) False (last_free False xs)"
        "load ?s' (W (d + 4)) = hdr j h False" "h \<Longrightarrow> load ?s' (W (d + j + 4)) = W d"
      using q t by auto
    then show "hdrs (mem ?s') (last_free False xs) [(a, n + k + 4, False), (d, j, h)]"
      by (simp add: load_def)
  qed (use q t in auto)
  with ex ex2 d t(1) show thesis by (intro that [of ?s2 ?s']) simp_all
qed
lemma align_ptr_block:
  assumes "a mod 4 = 0" and "a + 16 \<le> 2 ^ 30"
  shows "align_ptr (block_to_ptr (W a)) ALIGN_SIZE = Some (block_to_ptr (W a))"
proof -
  have "(a + 8) mod 4 = 0" using assms(1) by presburger
  then show ?thesis
    using align_ptr_4 [of "a + 8"] assms(2)
    by (simp add: block_to_ptr_def block_start_offset_def W_plus_numeral) (simp add: W_def)
qed

text \<open>The raw effect of \<open>block_split\<close>. The previous-status bit of the new block is whatever was in
  memory; its callers set it.\<close>

lemma block_split_mem:
  assumes p: "phys s (xs @ (a, n, f) # (b, j, h) # zs)" and k: "k mod 4 = 0" "12 \<le> k" "k + 16 \<le> n"
    and r: "r = a + k + 4"
  obtains s' g where "block_split (W a) (W k) s = Some (W r, s')"
    "load s' (W (a + 4)) = hdr k f (last_free False xs)" "load s' (W (r + 4)) = hdr (n - k - 4) True g"
    "load s' (W b) = W r" "load s' (W (b + 4)) = hdr j h True" "h \<longrightarrow> load s' (W (b + j + 4)) = W b"
    "differ {a + 4, r + 4, b, b + 4} s s'"
proof -
  have n: "n \<noteq> 0" using k by simp
  note q = phys_pair [OF p n]
  let ?g0 = "bit (load s (W (r + 4))) 0" and ?g1 = "bit (load s (W (r + 4))) 1"
  let ?m = "n - k - 4"
  let ?s1 = "store (W (r + 4)) (hdr ?m ?g0 ?g1) s"
  let ?s2 = "store (W (a + 4)) (hdr k f (last_free False xs)) ?s1"
  let ?s3 = "store (W b) (W r) ?s2"
  let ?s4 = "store (W (b + 4)) (hdr j h True) ?s3"
  let ?s' = "store (W (r + 4)) (hdr ?m True ?g1) ?s4"
  have m: "?m mod 4 = 0" using q(3) k by (auto simp: mod_0_imp_dvd)
  have rm: "r mod 4 = 0" using r q(7) k(1) by (auto simp: mod_0_imp_dvd)
  have bounds: "r + 8 \<le> b" "a + 16 \<le> r" "b + 8 < 2 ^ 32" "?m < 2 ^ 32" "12 \<le> ?m" "a + 4 < 2 ^ 32"
    using q r k by auto
  have br: "r + ?m + 4 = b" using q r k by simp
  have bs: "block_size s (W a) = W n" using header_ops(1) [OF q(9)] q by simp
  have rem: "offset_to_block (block_to_ptr (W a)) (W k - block_header_overhead) = W r"
    using r by (simp add: offset_to_block_def block_to_ptr_def tlsf_consts block_next_W)
  have remsz: "W n - (W k + block_header_overhead) = W ?m"
    using k by (simp add: block_header_overhead_def W_diff W_add)
  have tot: "W n = W ?m + W k + block_header_overhead"
    using k by (simp add: block_header_overhead_def W_diff W_add)
  have al: "align_ptr (block_to_ptr (W r)) ALIGN_SIZE = Some (block_to_ptr (W r))"
    using bounds q by (intro align_ptr_block [OF rm]) simp
  have 1: "block_set_size (W r) (W ?m) s = ?s1" by (rule block_set_size_eq [OF m])
  have lr1: "load ?s1 (W (r + 4)) = hdr ?m ?g0 ?g1" using bounds by simp
  have mn: "block_size_min \<le> block_size ?s1 (W r)"
    using header_ops(1) [OF lr1 m] bounds W_le_iff [of 12 ?m] by (simp add: block_size_min_def)
  have la1: "load ?s1 (W (a + 4)) = hdr n f (last_free False xs)" using q(9) bounds by simp
  have 2: "block_set_size (W a) (W k) ?s1 = ?s2"
    using block_set_size_eq [OF k(1), of a ?s1] la1 hdr_bits [OF q(3)] by simp
  have lr2: "load ?s2 (W (r + 4)) = hdr ?m ?g0 ?g1" using bounds by simp
  have nx: "block_next ?s2 (W r) = Some (W b)" using header_ops(5) [OF lr2 m] bounds unfolding br by simp
  have lb3: "load ?s3 (W (b + 4)) = hdr j h f" using q(10) bounds by simp
  have 4: "block_set_prev_free (W b) ?s3 = ?s4" using header_ops(8) [OF lb3 q(4)] q by simp
  have lr4: "load ?s4 (W (r + 4)) = hdr ?m ?g0 ?g1" using bounds by simp
  have 5: "block_set_free (W r) ?s4 = ?s'" using header_ops(6) [OF lr4 m] bounds by simp
  have mk: "block_mark_as_free (W r) ?s2 = Some ?s'"
    using nx 4 5 by (simp add: block_mark_as_free_def block_link_next_def)
  have ex: "block_split (W a) (W k) s = Some (W r, ?s')"
    unfolding block_split_def Let_def rem remsz bs al using 1 mn 2 mk tot by simp
  show thesis
  proof (rule that [OF ex])
    show "differ {a + 4, r + 4, b, b + 4} s ?s'"
      using bounds q by (intro differ_store2 differ_refl) auto
    show "h \<longrightarrow> load ?s' (W (b + j + 4)) = W b" using bounds q(5,12,13) by auto
  qed (use bounds in auto)
qed

lemma split_rest_phys:
  assumes p: "phys s (xs @ (a, n, f) # (b, j, h) # zs)" and k: "k mod 4 = 0" "12 \<le> k" "k + 16 \<le> n"
    and r: "r = a + k + 4"
    and l: "load s' (W (a + 4)) = hdr k f (last_free False xs)" "load s' (W (r + 4)) = hdr (n - k - 4) True f"
      "load s' (W b) = W r" "load s' (W (b + 4)) = hdr j h True" "h \<longrightarrow> load s' (W (b + j + 4)) = W b"
      "f \<longrightarrow> load s' (W r) = W a"
    and d: "differ {a + 4, r, r + 4, b, b + 4} s s'"
  shows "phys s' (xs @ (a, k, f) # (r, n - k - 4, True) # (b, j, h) # zs)"
proof -
  have n: "n \<noteq> 0" using k by simp
  note q = phys_pair [OF p n]
  have b: "b = r + (n - k - 4) + 4" using q r k by simp
  have "phys s' (xs @ [(a, k, f), (r, n - k - 4, True), (b, j, h)] @ zs)"
  proof (rule phys_replace [OF _ d])
    show "phys s (xs @ [(a, n, f), (b, j, h)] @ zs)" using p by simp
    show "geom (unat (control s)) (xs @ [(a, k, f), (r, n - k - 4, True), (b, j, h)] @ zs)"
      using geom_split [OF q(14) k, of f True] by (simp add: r)
    have "W (r + (n - k - 4) + 4) = W b" using b by simp
    then show "hdrs (mem s') (last_free False xs) [(a, k, f), (r, n - k - 4, True), (b, j, h)]"
      using l r by (simp add: load_def)
  qed (use q k r in auto)
  then show ?thesis by simp
qed
text \<open>The two ways in which the callers of \<open>block_split\<close> complete the split of a free block, and the one
  for a used block.\<close>

lemma split_free_phys:
  assumes p: "phys s (xs @ (a, n, True) # (b, j, h) # zs)" and k: "k mod 4 = 0" "12 \<le> k" "k + 16 \<le> n"
    and r: "r = a + k + 4"
  obtains s1 s2 s' s2' where "block_split (W a) (W k) s = Some (W r, s1)"
    "block_link_next (W a) s1 = Some (W r, s2)" "block_set_prev_free (W r) s2 = s'"
    "block_set_prev_free (W r) s1 = s2'" "block_link_next (W a) s2' = Some (W r, s')"
    "phys s' (xs @ (a, k, True) # (r, n - k - 4, True) # (b, j, h) # zs)"
    "differ {a + 4, r, r + 4, b, b + 4} s s'"
proof -
  have n: "n \<noteq> 0" using k by simp
  note q = phys_pair [OF p n]
  obtain s1 g where s1: "block_split (W a) (W k) s = Some (W r, s1)"
      "load s1 (W (a + 4)) = hdr k True (last_free False xs)" "load s1 (W (r + 4)) = hdr (n - k - 4) True g"
      "load s1 (W b) = W r" "load s1 (W (b + 4)) = hdr j h True" "h \<longrightarrow> load s1 (W (b + j + 4)) = W b"
      "differ {a + 4, r + 4, b, b + 4} s s1"
    by (rule block_split_mem [OF p k r])
  have lim: "a + 16 \<le> r" "r + 16 \<le> b" "b + 8 < 2 ^ 32" "n - k - 4 < 2 ^ 32" "k < 2 ^ 32" "r < 2 ^ 32" using q r k by auto
  have m: "(n - k - 4) mod 4 = 0" using q(3) k by (auto simp: mod_0_imp_dvd)
  let ?s2 = "store (W r) (W a) s1"
  let ?s' = "store (W (r + 4)) (hdr (n - k - 4) True True) ?s2"
  let ?t = "store (W (r + 4)) (hdr (n - k - 4) True True) s1"
  have lk: "block_link_next (W a) s1 = Some (W r, ?s2)"
    using header_ops(5) [OF s1(2) k(1)] lim k r by (simp add: block_link_next_def)
  have "load ?s2 (W (r + 4)) = hdr (n - k - 4) True g" using s1(3) lim by simp
  from header_ops(8) [OF this m] lim have sp: "block_set_prev_free (W r) ?s2 = ?s'" by simp
  have sp1: "block_set_prev_free (W r) s1 = ?t" using header_ops(8) [OF s1(3) m] lim by simp
  have "load ?t (W (a + 4)) = hdr k True (last_free False xs)" using s1(2) lim by simp
  from header_ops(5) [OF this k(1)] lim k r
  have "block_link_next (W a) ?t = Some (W r, store (W r) (W a) ?t)" by (simp add: block_link_next_def)
  moreover have "store (W r) (W a) ?t = ?s'"
    using W_eq_iff [of r "r + 4"] lim by (simp add: store_def fun_upd_twist)
  ultimately have lk2: "block_link_next (W a) ?t = Some (W r, ?s')" by simp
  have d: "differ {a + 4, r, r + 4, b, b + 4} s ?s'"
    using lim by (intro differ_store2 differ_mono [OF s1(7)]) auto
  have "phys ?s' (xs @ (a, k, True) # (r, n - k - 4, True) # (b, j, h) # zs)"
  proof (rule split_rest_phys [OF p k r _ _ _ _ _ _ d])
    show "h \<longrightarrow> load ?s' (W (b + j + 4)) = W b" using s1(6) lim q(5) by auto
  qed (use s1 lim in auto)
  then show thesis by (intro that [OF s1(1) lk sp sp1 lk2 _ d])
qed

lemma split_used_phys:
  assumes p: "phys s (xs @ (a, n, False) # (b, j, h) # zs)" and k: "k mod 4 = 0" "12 \<le> k" "k + 16 \<le> n"
    and r: "r = a + k + 4"
  obtains s1 s' where "block_split (W a) (W k) s = Some (W r, s1)" "block_set_prev_used (W r) s1 = s'"
    "phys s' (xs @ (a, k, False) # (r, n - k - 4, True) # (b, j, h) # zs)"
    "differ {a + 4, r + 4, b, b + 4} s s'"
proof -
  have n: "n \<noteq> 0" using k by simp
  note q = phys_pair [OF p n]
  obtain s1 g where s1: "block_split (W a) (W k) s = Some (W r, s1)"
      "load s1 (W (a + 4)) = hdr k False (last_free False xs)" "load s1 (W (r + 4)) = hdr (n - k - 4) True g"
      "load s1 (W b) = W r" "load s1 (W (b + 4)) = hdr j h True" "h \<longrightarrow> load s1 (W (b + j + 4)) = W b"
      "differ {a + 4, r + 4, b, b + 4} s s1"
    by (rule block_split_mem [OF p k r])
  have lim: "a + 16 \<le> r" "r + 16 \<le> b" "b + 8 < 2 ^ 32" "n - k - 4 < 2 ^ 32" "r < 2 ^ 32" using q r k by auto
  have m: "(n - k - 4) mod 4 = 0" using q(3) k by (auto simp: mod_0_imp_dvd)
  let ?s' = "store (W (r + 4)) (hdr (n - k - 4) True False) s1"
  have sp: "block_set_prev_used (W r) s1 = ?s'" using header_ops(9) [OF s1(3) m] lim by simp
  have d: "differ {a + 4, r + 4, b, b + 4} s ?s'"
    using lim by (intro differ_store2 differ_mono [OF s1(7)]) auto
  have "phys ?s' (xs @ (a, k, False) # (r, n - k - 4, True) # (b, j, h) # zs)"
  proof (rule split_rest_phys [OF p k r])
    show "h \<longrightarrow> load ?s' (W (b + j + 4)) = W b" using s1(6) lim q(5) by auto
    show "differ {a + 4, r, r + 4, b, b + 4} s ?s'" by (rule differ_mono [OF d]) auto
  qed (use s1 lim in auto)
  then show thesis by (intro that [OF s1(1) sp _ d])
qed

end
