(* ===== verification/Tlsf_Lists.thy ===== *)
theory Tlsf_Lists
  imports Tlsf_Blocks
begin

text \<open>
  The logical side of the TLSF heap: the segregated free lists and the two levels of bitmaps of
  \<open>libyaul/kernel/mm/tlsf.c\<close>. \<open>lists s F\<close> says that the lists of the state \<open>s\<close> hold exactly the blocks
  \<open>F\<close>, each in the list of its size class, and that the bitmaps mark the non-empty lists. The
  lemmas show what \<open>remove_free_block\<close>, \<open>insert_free_block\<close> and \<open>search_suitable_block\<close> do to them
  and which words of memory they write.
\<close>

section \<open>Doubly linked segments\<close>

definition first :: "nat list \<Rightarrow> nat \<Rightarrow> nat" where
  "first xs q = (case xs of [] \<Rightarrow> q | x # _ \<Rightarrow> x)"

definition final :: "nat \<Rightarrow> nat list \<Rightarrow> nat" where
  "final p xs = (if xs = [] then p else last xs)"

lemma first_simps [simp]: "first [] q = q" "first (x # xs) q = x"
  by (simp_all add: first_def)

lemma final_simps [simp]: "final p [] = p" "final p (xs @ [x]) = x"
  by (simp_all add: final_def)

lemma final_Cons [simp]: "final p (x # xs) = final x xs"
  by (simp add: final_def)

lemma first_append: "first (xs @ ys) q = first xs (first ys q)"
  by (cases xs) simp_all

text \<open>\<open>seg m p xs q\<close>: the blocks \<open>xs\<close> are linked both ways, between \<open>p\<close> on the left and \<open>q\<close> on the right.\<close>

fun seg :: "(u32 \<Rightarrow> u32) \<Rightarrow> nat \<Rightarrow> nat list \<Rightarrow> nat \<Rightarrow> bool" where
  "seg m p [] q \<longleftrightarrow> True"
| "seg m p (a # xs) q \<longleftrightarrow> m (W (a + 12)) = W p \<and> m (W (a + 8)) = W (first xs q) \<and> seg m a xs q"

lemma seg_append: "seg m p (xs @ ys) q \<longleftrightarrow> seg m p xs (first ys q) \<and> seg m (final p xs) ys q"
  by (induction xs arbitrary: p) (auto simp: first_append)

lemma seg_frame:
  assumes "seg m p xs q"
    and "\<And>a. a \<in> set xs \<Longrightarrow> m' (W (a + 8)) = m (W (a + 8)) \<and> m' (W (a + 12)) = m (W (a + 12))"
  shows "seg m' p xs q"
  using assms by (induction xs arbitrary: p) auto

lemma seg_relink_end:
  assumes "seg m p xs q" and "distinct xs"
    and "\<And>a. a \<in> set xs \<Longrightarrow> m' (W (a + 12)) = m (W (a + 12)) \<and>
           m' (W (a + 8)) = (if a = final p xs then W q' else m (W (a + 8)))"
  shows "seg m' p xs q'"
proof (cases xs rule: rev_exhaust)
  case (snoc ys b)
  have 1: "seg m p ys b" "m (W (b + 12)) = W (final p ys)"
    using assms(1) by (simp_all add: snoc seg_append)
  have b: "b \<notin> set ys" using assms(2) by (simp add: snoc)
  have "seg m' p ys b"
  proof (rule seg_frame [OF 1(1)])
    fix a assume a: "a \<in> set ys"
    then have "a \<noteq> b" using b by auto
    with a assms(3) [of a] show "m' (W (a + 8)) = m (W (a + 8)) \<and> m' (W (a + 12)) = m (W (a + 12))"
      by (simp add: snoc)
  qed
  moreover have "m' (W (b + 12)) = m (W (b + 12))" "m' (W (b + 8)) = W q'"
    using assms(3) [of b] by (simp_all add: snoc)
  ultimately show ?thesis using 1(2) by (simp add: snoc seg_append)
qed simp

lemma seg_relink_start:
  assumes "seg m p xs q" and "distinct xs"
    and "\<And>a. a \<in> set xs \<Longrightarrow> m' (W (a + 8)) = m (W (a + 8)) \<and>
           m' (W (a + 12)) = (if a = first xs q then W p' else m (W (a + 12)))"
  shows "seg m' p' xs q"
proof (cases xs)
  case (Cons b ys)
  have "seg m' b ys q"
  proof (rule seg_frame)
    show "seg m b ys q" using assms(1) by (simp add: Cons)
    fix a assume a: "a \<in> set ys"
    then have "a \<noteq> b" using assms(2) by (auto simp: Cons)
    with a assms(3) [of a] show "m' (W (a + 8)) = m (W (a + 8)) \<and> m' (W (a + 12)) = m (W (a + 12))"
      by (simp add: Cons)
  qed
  then show ?thesis using assms(1) assms(3) [of b] by (simp add: Cons)
qed simp

section \<open>Free lists and bitmaps\<close>

text \<open>\<open>L (i, j)\<close> is the free list of class \<open>(i, j)\<close>; \<open>c\<close> is the address of the control structure, at which
  every list starts and ends.\<close>

definition lists_ok :: "tlsf \<Rightarrow> (nat \<times> nat \<Rightarrow> nat list) \<Rightarrow> bool" where
  "lists_ok s L \<longleftrightarrow> (let c = unat (control s) in
     length (sl_bitmap s) = 24 \<and> length (blocks s) = 24 \<and> (\<forall>i < 24. length (blocks s ! i) = 32) \<and>
     (\<forall>i < 24. \<forall>j < 32. seg (mem s) c (L (i, j)) c \<and> blocks s ! i ! j = W (first (L (i, j)) c) \<and>
        (bit (sl_bitmap s ! i) j \<longleftrightarrow> L (i, j) \<noteq> [])) \<and>
     (\<forall>i. bit (fl_bitmap s) i \<longleftrightarrow> i < 24 \<and> sl_bitmap s ! i \<noteq> 0))"

text \<open>The free lists hold exactly the blocks \<open>F\<close>, given as address and size.\<close>

definition holds :: "(nat \<times> nat \<Rightarrow> nat list) \<Rightarrow> (nat \<times> nat) set \<Rightarrow> bool" where
  "holds L F \<longleftrightarrow> (\<forall>i < 24. \<forall>j < 32. distinct (L (i, j)) \<and>
     set (L (i, j)) = {a. \<exists>n. (a, n) \<in> F \<and> cls n = (i, j)})"

lemma holdsD:
  assumes "holds L F" and "i < 24" and "j < 32"
  shows "distinct (L (i, j))" and "a \<in> set (L (i, j)) \<longleftrightarrow> (\<exists>n. (a, n) \<in> F \<and> cls n = (i, j))"
  using assms by (auto simp: holds_def)

definition lists :: "tlsf \<Rightarrow> (nat \<times> nat) set \<Rightarrow> bool" where
  "lists s F \<longleftrightarrow> (\<exists>L. lists_ok s L \<and> holds L F)"

text \<open>The link words of the blocks \<open>F\<close> and of \<open>block_null\<close>, and that they do not overlap.\<close>

definition links :: "nat \<Rightarrow> (nat \<times> nat) set \<Rightarrow> nat set" where
  "links c F = {y. \<exists>a n. ((a, n) \<in> F \<or> a = c) \<and> (y = a + 8 \<or> y = a + 12)}"

definition linkable :: "nat \<Rightarrow> (nat \<times> nat) set \<Rightarrow> bool" where
  "linkable c F \<longleftrightarrow> 0 < c \<and> c + 16 < 2 ^ 32 \<and>
     (\<forall>a n. (a, n) \<in> F \<longrightarrow> 0 < a \<and> a mod 4 = 0 \<and> a + 16 \<le> 2 ^ 30 \<and> n < 2 ^ 30 \<and> (c + 16 \<le> a \<or> a + 16 \<le> c)) \<and>
     (\<forall>a n b k. (a, n) \<in> F \<longrightarrow> (b, k) \<in> F \<longrightarrow> a = b \<and> n = k \<or> a + 16 \<le> b \<or> b + 16 \<le> a)"

definition mdiffer :: "nat set \<Rightarrow> tlsf \<Rightarrow> tlsf \<Rightarrow> bool" where
  "mdiffer S s s' \<longleftrightarrow> control s' = control s \<and> (\<forall>y. y < 2 ^ 32 \<longrightarrow> y \<notin> S \<longrightarrow> mem s' (W y) = mem s (W y))"

lemma differ_mdiffer: "differ S s s' \<Longrightarrow> mdiffer S s s'"
  by (simp add: differ_def mdiffer_def)

lemma mdiffer_refl [simp]: "mdiffer S s s"
  by (simp add: mdiffer_def)

lemma mdiffer_mono: "mdiffer S s s' \<Longrightarrow> S \<subseteq> T \<Longrightarrow> mdiffer T s s'"
  by (auto simp: mdiffer_def)

lemma mdiffer_trans: "mdiffer S s s1 \<Longrightarrow> mdiffer T s1 s2 \<Longrightarrow> mdiffer (S \<union> T) s s2"
  by (simp add: mdiffer_def)

lemma lists_frame:
  assumes l: "lists s F" and d: "differ S s s'" and "S \<inter> links (unat (control s)) F = {}"
    and lk: "linkable (unat (control s)) F"
  shows "lists s' F"
proof -
  obtain L where L: "lists_ok s L" "holds L F" using l by (auto simp: lists_def)
  have same: "mem s' (W (a + 8)) = mem s (W (a + 8)) \<and> mem s' (W (a + 12)) = mem s (W (a + 12))"
    if ij: "i < 24" "j < 32" and a: "a \<in> set (L (i, j))" for i j a
  proof -
    obtain n where F: "(a, n) \<in> F" using holdsD(2) [OF L(2) ij] a by auto
    then have "a + 8 \<notin> S" "a + 12 \<notin> S" using assms(3) by (auto simp: links_def)
    moreover have "a + 16 \<le> 2 ^ 30" using lk F by (auto simp: linkable_def)
    ultimately show ?thesis using d by (simp add: differ_def)
  qed
  have sg: "seg (mem s') c (L (i, j)) c" if ij: "i < 24" "j < 32" and sg: "seg (mem s) c (L (i, j)) c" for i j c
    by (rule seg_frame [OF sg]) (rule same [OF ij])
  have e: "control s' = control s" "fl_bitmap s' = fl_bitmap s" "sl_bitmap s' = sl_bitmap s" "blocks s' = blocks s"
    using d by (simp_all add: differ_def)
  have "lists_ok s' L" using L(1) sg unfolding lists_ok_def Let_def e by simp
  with L(2) show ?thesis by (auto simp: lists_def)
qed
lemma mem_store [simp]:
  "x < 2 ^ 32 \<Longrightarrow> y < 2 ^ 32 \<Longrightarrow> mem (store (W x) v s) (W y) = (if y = x then v else mem s (W y))"
  using load_store [of x y v s] by (simp add: load_def)

lemma bit_clear: "bit (x AND NOT (2 ^ j) :: u32) k \<longleftrightarrow> bit x k \<and> k \<noteq> j"
  by (auto simp: bit_and_iff bit_not_iff bit_exp_iff possible_bit_word dest: bit_imp_le_length)

lemma bit_set: "j < 32 \<Longrightarrow> bit (x OR 2 ^ j :: u32) k \<longleftrightarrow> bit x k \<or> k = j"
  by (auto simp: bit_or_iff bit_exp_iff)

text \<open>Addresses that may occur in a free list, or be \<open>block_null\<close>.\<close>

definition sites :: "nat \<Rightarrow> (nat \<times> nat) set \<Rightarrow> nat set" where
  "sites c F = insert c (fst ` F)"

lemma linkable_sites:
  assumes "linkable c F" and "x \<in> sites c F"
  shows "0 < x" and "x + 16 \<le> 2 ^ 32" and "y \<in> sites c F \<Longrightarrow> x = y \<or> x + 16 \<le> y \<or> y + 16 \<le> x"
proof -
  have c: "0 < c" "c + 16 < 2 ^ 32" and F: "\<And>a n. (a, n) \<in> F \<Longrightarrow> 0 < a \<and> a + 16 \<le> 2 ^ 30 \<and> (c + 16 \<le> a \<or> a + 16 \<le> c)"
    and FF: "\<And>a n b k. (a, n) \<in> F \<Longrightarrow> (b, k) \<in> F \<Longrightarrow> a = b \<or> a + 16 \<le> b \<or> b + 16 \<le> a"
    using assms(1) unfolding linkable_def by blast+
  have 1: "x = c \<or> (\<exists>n. (x, n) \<in> F)" and 2: "y \<in> sites c F \<Longrightarrow> y = c \<or> (\<exists>n. (y, n) \<in> F)"
    using assms(2) by (auto simp: sites_def)
  have "x + 16 \<le> 2 ^ 32" if "x + 16 \<le> 2 ^ 30" using that by simp
  then show "0 < x" "x + 16 \<le> 2 ^ 32" using 1 c F [of x] less_imp_le by metis+
  show "x = y \<or> x + 16 \<le> y \<or> y + 16 \<le> x" if "y \<in> sites c F"
    using 1 2 [OF that] F [of x] F [of y] FF [of x _ y] by blast
qed

lemma links_sites: "y \<in> links c F \<longleftrightarrow> (\<exists>x \<in> sites c F. y = x + 8 \<or> y = x + 12)"
proof -
  have "a \<in> sites c F \<longleftrightarrow> (\<exists>n. (a, n) \<in> F \<or> a = c)" for a by (force simp: sites_def)
  then show ?thesis unfolding links_def by blast
qed

lemma holds_sites:
  assumes "holds L F" and "i < 24" and "j < 32"
  shows "set (L (i, j)) \<subseteq> sites c F"
  using holdsD(2) [OF assms] by (force simp: sites_def)

lemma holds_other:
  assumes h: "holds L F" and lk: "linkable c F" and ij: "i < 24" "j < 32" and ij': "i' < 24" "j' < 32"
    and "(i', j') \<noteq> (i, j)"
  shows "set (L (i, j)) \<inter> set (L (i', j')) = {}"
proof -
  have "n = k" if "(a, n) \<in> F" "(a, k) \<in> F" for a n k
    using lk that unfolding linkable_def by (metis add_le_same_cancel1 le_zero_eq zero_neq_numeral)
  then show ?thesis using holdsD(2) [OF h ij] holdsD(2) [OF h ij'] assms(7) by fastforce
qed

lemma not_null:
  assumes "holds L F" and "linkable c F" and "i < 24" and "j < 32"
  shows "c \<notin> set (L (i, j))"
proof -
  have "(c, n) \<notin> F" for n using assms(2) unfolding linkable_def by (metis add_le_same_cancel1 le_zero_eq zero_neq_numeral)
  then show ?thesis using holdsD(2) [OF assms(1,3,4)] by blast
qed

lemma lists_ok_update:
  assumes l: "lists_ok s L" and c: "c = unat (control s)" and i: "i < 24" and j: "j < 32"
    and s': "control s' = control s" "blocks s' = (blocks s)[i := (blocks s ! i)[j := W (first xs c)]]"
      "sl_bitmap s' = (sl_bitmap s)[i := m]"
    and m: "\<And>k. bit m k \<longleftrightarrow> (if k = j then xs \<noteq> [] else bit (sl_bitmap s ! i) k)"
    and f: "\<And>k. bit (fl_bitmap s') k \<longleftrightarrow> (if k = i then m \<noteq> 0 else bit (fl_bitmap s) k)"
    and xs: "seg (mem s') c xs c"
    and sg: "\<And>i' j'. i' < 24 \<Longrightarrow> j' < 32 \<Longrightarrow> (i', j') \<noteq> (i, j) \<Longrightarrow> seg (mem s') c (L (i', j')) c"
  shows "lists_ok s' (L((i, j) := xs))"
proof -
  have len: "length (sl_bitmap s) = 24" "length (blocks s) = 24" "\<And>i. i < 24 \<Longrightarrow> length (blocks s ! i) = 32"
    and old: "\<And>i j. i < 24 \<Longrightarrow> j < 32 \<Longrightarrow> blocks s ! i ! j = W (first (L (i, j)) c) \<and>
        (bit (sl_bitmap s ! i) j \<longleftrightarrow> L (i, j) \<noteq> [])"
    and fl: "\<And>i. bit (fl_bitmap s) i \<longleftrightarrow> i < 24 \<and> sl_bitmap s ! i \<noteq> 0"
    using l by (auto simp: lists_ok_def Let_def c)
  have len': "length (sl_bitmap s') = 24" "length (blocks s') = 24" "\<And>i. i < 24 \<Longrightarrow> length (blocks s' ! i) = 32"
    using len i by (auto simp: s' nth_list_update)
  have b: "blocks s' ! i' ! j' = W (first ((L((i, j) := xs)) (i', j')) c)" if "i' < 24" "j' < 32" for i' j'
    using that old [of i' j'] len i j by (auto simp: s' nth_list_update)
  have sl: "bit (sl_bitmap s' ! i') j' \<longleftrightarrow> (L((i, j) := xs)) (i', j') \<noteq> []" if "i' < 24" "j' < 32" for i' j'
    using that old [of i' j'] len i j by (auto simp: s' nth_list_update m)
  have fl': "bit (fl_bitmap s') i' \<longleftrightarrow> i' < 24 \<and> sl_bitmap s' ! i' \<noteq> 0" for i'
    using fl [of i'] i len by (auto simp: s' f nth_list_update)
  have "seg (mem s') c ((L((i, j) := xs)) (i', j')) c" if "i' < 24" "j' < 32" for i' j'
    using that xs sg by auto
  with len' b sl fl' show ?thesis unfolding lists_ok_def Let_def s'(1) c [symmetric] by blast
qed

text \<open>Memory after an element of a list has been unlinked.\<close>

lemma unlink_seg:
  assumes l: "seg m c (xs @ a # ys) c" and d: "distinct (xs @ a # ys)" and c: "c \<notin> set (xs @ a # ys)"
    and m': "\<And>x. x \<in> set (xs @ ys) \<Longrightarrow>
        m' (W (x + 8)) = (if x = final c xs then W (first ys c) else m (W (x + 8))) \<and>
        m' (W (x + 12)) = (if x = first ys c then W (final c xs) else m (W (x + 12)))"
  shows "seg m' c (xs @ ys) c"
proof -
  have 1: "seg m c xs a" "seg m a ys c" using l by (simp_all add: seg_append)
  have fx: "final c xs \<in> insert c (set xs)" by (simp add: final_def)
  have fy: "first ys c \<in> insert c (set ys)" by (simp add: first_def split: list.split)
  have "seg m' c xs (first ys c)"
  proof (rule seg_relink_end [OF 1(1)])
    fix x assume x: "x \<in> set xs"
    then have "x \<noteq> first ys c" using fy d c by auto
    with m' [of x] x show "m' (W (x + 12)) = m (W (x + 12)) \<and>
        m' (W (x + 8)) = (if x = final c xs then W (first ys c) else m (W (x + 8)))" by auto
  qed (use d in auto)
  moreover have "seg m' (final c xs) ys c"
  proof (rule seg_relink_start [OF 1(2)])
    fix x assume x: "x \<in> set ys"
    then have "x \<noteq> final c xs" using fx d c by auto
    with m' [of x] x show "m' (W (x + 8)) = m (W (x + 8)) \<and>
        m' (W (x + 12)) = (if x = first ys c then W (final c xs) else m (W (x + 12)))" by auto
  qed (use d in auto)
  ultimately show ?thesis by (simp add: seg_append)
qed
text \<open>Array accesses with the indices of a list.\<close>

lemma list_access:
  assumes "lists_ok s L" and "i < 24" and "j < 32"
  shows "get_list s (int i) (int j) = Some (W (first (L (i, j)) (unat (control s))))"
    and "nth_int (sl_bitmap s) (int i) = Some (sl_bitmap s ! i)"
    and "bit (sl_bitmap s ! i) j \<longleftrightarrow> L (i, j) \<noteq> []"
    and "seg (mem s) (unat (control s)) (L (i, j)) (unat (control s))"
    and "bit (fl_bitmap s) k \<longleftrightarrow> k < 24 \<and> sl_bitmap s ! k \<noteq> 0"
    and "length (sl_bitmap s) = 24" and "length (blocks s) = 24" and "length (blocks s ! i) = 32"
    and "blocks s ! i ! j = W (first (L (i, j)) (unat (control s)))"
  using assms by (auto simp: lists_ok_def Let_def get_list_def nth_int_def)

lemma first_final_sites:
  assumes "set xs \<subseteq> sites c F"
  shows "first xs c \<in> sites c F" and "final c xs \<in> sites c F"
proof -
  have c: "c \<in> sites c F" by (simp add: sites_def)
  then show "first xs c \<in> sites c F" using assms by (cases xs) auto
  show "final c xs \<in> sites c F" using assms c by (auto simp: final_def)
qed

text \<open>Two stores into the link words of two sites.\<close>

lemma link_stores:
  assumes lk: "linkable c F" and p: "p \<in> sites c F" and q: "q \<in> sites c F"
    and t_def: "t = store (W (p + 8)) u (store (W (q + 12)) v s)"
  shows "x \<in> sites c F \<Longrightarrow> mem t (W (x + 8)) = (if x = p then u else mem s (W (x + 8)))"
    and "x \<in> sites c F \<Longrightarrow> mem t (W (x + 12)) = (if x = q then v else mem s (W (x + 12)))"
    and "mdiffer (links c F) s t"
proof -
  note b = linkable_sites(2) [OF lk p] linkable_sites(2) [OF lk q]
  show "mem t (W (x + 8)) = (if x = p then u else mem s (W (x + 8)))" if x: "x \<in> sites c F"
    using b linkable_sites(2,3) [OF lk x] linkable_sites(3) [OF lk x q] by (auto simp: t_def)
  show "mem t (W (x + 12)) = (if x = q then v else mem s (W (x + 12)))" if x: "x \<in> sites c F"
    using b linkable_sites(2) [OF lk x] linkable_sites(3) [OF lk x p] by (auto simp: t_def)
  have "p + 8 \<in> links c F" "q + 12 \<in> links c F" using p q by (auto simp: links_sites)
  then show "mdiffer (links c F) s t"
    unfolding t_def using b by (auto simp: mdiffer_def)
qed

lemma seg_other:
  assumes "seg m c xs c" and "\<And>x. x \<in> set xs \<Longrightarrow> x \<noteq> p \<and> x \<noteq> q" and "set xs \<subseteq> sites c F"
    and "\<And>x. x \<in> sites c F \<Longrightarrow> m' (W (x + 8)) = (if x = p then u else m (W (x + 8)))"
    and "\<And>x. x \<in> sites c F \<Longrightarrow> m' (W (x + 12)) = (if x = q then v else m (W (x + 12)))"
  shows "seg m' c xs c"
proof (rule seg_frame [OF assms(1)])
  fix x assume x: "x \<in> set xs"
  then have "x \<in> sites c F" using assms(3) by blast
  with assms(4,5) [of x] assms(2) [OF x]
  show "m' (W (x + 8)) = m (W (x + 8)) \<and> m' (W (x + 12)) = m (W (x + 12))" by simp
qed

lemma word_bits_0: "(w :: u32) = 0 \<longleftrightarrow> (\<forall>k. \<not> bit w k)"
  by (metis bit_0_eq bit_eq_iff bot_apply bot_bool_def)

lemma remove_free_block_ok:
  assumes l: "lists_ok s L" and h: "holds L F" and c: "c = unat (control s)" and lk: "linkable c F"
    and ij: "i < 24" "j < 32" and L: "L (i, j) = xs @ a # ys"
  obtains s' where "remove_free_block (W a) (int i) (int j) s = Some s'"
    "lists_ok s' (L((i, j) := xs @ ys))" "mdiffer (links c F) s s'"
proof -
  note acc = list_access [OF l ij, folded c, unfolded L]
  have d: "distinct (xs @ a # ys)" using holdsD(1) [OF h ij] L by simp
  have nn: "c \<notin> set (xs @ a # ys)" using not_null [OF h lk ij] L by simp
  have st: "set (xs @ a # ys) \<subseteq> sites c F" using holds_sites [OF h ij] L by simp
  let ?p = "final c xs" and ?q = "first ys c"
  have pq: "?p \<in> sites c F" "?q \<in> sites c F" "a \<in> sites c F"
    using first_final_sites [of xs c F] first_final_sites [of ys c F] st by auto
  note bd = linkable_sites(1,2) [OF lk pq(1)] linkable_sites(1,2) [OF lk pq(2)] linkable_sites(1,2) [OF lk pq(3)]
  define s1 where "s1 = store (W (?p + 8)) (W ?q) (store (W (?q + 12)) (W ?p) s)"
  note ls = link_stores [OF lk pq(1,2) s1_def]
  have links: "prev_free s (W a) = W ?p" "next_free s (W a) = W ?q"
    using acc(4) by (simp_all add: prev_free_def next_free_def load_def W_plus_numeral seg_append)
  have s1: "control s1 = control s" "blocks s1 = blocks s" "sl_bitmap s1 = sl_bitmap s" "fl_bitmap s1 = fl_bitmap s"
    by (simp_all add: s1_def)
  have g1: "get_list s1 (int i) (int j) = Some (W (first (xs @ a # ys) c))"
    using acc(1) by (simp add: get_list_def s1)
  have hd: "W (first (xs @ a # ys) c) = W a \<longleftrightarrow> xs = []"
    using d linkable_sites(2) [OF lk, of "hd xs"] bd st by (cases xs) (auto simp: W_eq_iff)
  have nx: "W ?q = control s1 \<longleftrightarrow> ys = []"
  proof -
    have "W ?q = control s1 \<longleftrightarrow> W ?q = W c" by (simp add: s1 c)
    also have "\<dots> \<longleftrightarrow> ?q = c" using bd linkable_sites(2) [OF lk, of c] by (intro W_eq_iff) (auto simp: sites_def)
    also have "\<dots> \<longleftrightarrow> ys = []" using nn by (cases ys) auto
    finally show ?thesis .
  qed
  have nz: "W ?p \<noteq> 0" "W ?q \<noteq> 0" using bd by (simp_all add: W_eq_0_iff)
  let ?m = "sl_bitmap s ! i AND NOT (push_bit j 1)"
  define s' where "s' = (if xs \<noteq> [] then s1
     else if ys \<noteq> [] then set_list (int i) (int j) (W ?q) s1
     else let t = set_sl_bitmap (int i) ?m (set_list (int i) (int j) (W ?q) s1)
          in if ?m = 0 then t\<lparr>fl_bitmap := fl_bitmap s AND NOT (push_bit i 1)\<rparr> else t)"
  have ex: "remove_free_block (W a) (int i) (int j) s = Some s'"
    unfolding remove_free_block_def Let_def links W_plus_numeral s1_def [symmetric] g1
    using acc(2,6) ij nz nx
    by (simp add: hd s'_def set_list_def set_sl_bitmap_def nth_int_def s1)
  have ms: "mem s' = mem s1" "control s' = control s"
    by (simp_all add: s'_def s1 set_list_def set_sl_bitmap_def Let_def)
  let ?n = "if xs @ ys = [] then ?m else sl_bitmap s ! i"
  have "lists_ok s' (L((i, j) := xs @ ys))"
  proof (rule lists_ok_update [OF l c ij, where m = ?n])
    show "blocks s' = (blocks s)[i := (blocks s ! i)[j := W (first (xs @ ys) c)]]"
    proof (cases xs)
      case (Cons b zs)
      then have "blocks s ! i ! j = W (first (xs @ ys) c)" using acc(9) by simp
      then have "(blocks s)[i := (blocks s ! i)[j := W (first (xs @ ys) c)]] = blocks s" by (metis list_update_id)
      then show ?thesis using Cons by (simp add: s'_def s1)
    qed (auto simp: s'_def s1 set_list_def set_sl_bitmap_def Let_def)
    show "sl_bitmap s' = (sl_bitmap s)[i := ?n]"
      by (auto simp: s'_def s1 set_list_def set_sl_bitmap_def Let_def list_update_id)
    show "bit ?n k \<longleftrightarrow> (if k = j then xs @ ys \<noteq> [] else bit (sl_bitmap s ! i) k)" for k
    proof (cases "xs @ ys = []")
      case False
      have "bit (sl_bitmap s ! i) j" using acc(3) by simp
      with False show ?thesis by (simp only: if_False if_cancel) simp
    qed (simp add: bit_clear)
    have "sl_bitmap s ! i \<noteq> 0" using acc(3) by (auto simp: word_bits_0)
    then have fi: "bit (fl_bitmap s) i" using list_access(5) [OF l ij, of i] ij by simp
    have "fl_bitmap s' = (if ?n = 0 then fl_bitmap s AND NOT (2 ^ i) else fl_bitmap s)"
      using \<open>sl_bitmap s ! i \<noteq> 0\<close> by (simp add: s'_def s1 set_list_def set_sl_bitmap_def Let_def)
    then show "bit (fl_bitmap s') k \<longleftrightarrow> (if k = i then ?n \<noteq> 0 else bit (fl_bitmap s) k)" for k
      using fi by (cases "?n = 0") (simp_all add: bit_clear)
    show "seg (mem s') c (xs @ ys) c"
    proof (rule unlink_seg [OF acc(4) d nn])
      show "mem s' (W (x + 8)) = (if x = ?p then W ?q else mem s (W (x + 8))) \<and>
        mem s' (W (x + 12)) = (if x = ?q then W ?p else mem s (W (x + 12)))" if "x \<in> set (xs @ ys)" for x
        using ls(1,2) [of x] that st by (auto simp: ms)
    qed
    show "seg (mem s') c (L (i', j')) c" if ij': "i' < 24" "j' < 32" and ne: "(i', j') \<noteq> (i, j)" for i' j'
    proof (rule seg_other [where F = F and p = ?p and q = ?q and u = "W ?q" and v = "W ?p"])
      show "seg (mem s) c (L (i', j')) c" using list_access(4) [OF l ij', folded c] .
      show "set (L (i', j')) \<subseteq> sites c F" by (rule holds_sites [OF h ij'])
      have pq': "?p \<in> insert c (set (L (i, j)))" "?q \<in> insert c (set (L (i, j)))"
        by (auto simp: L final_def first_def split: list.split)
      show "x \<noteq> ?p \<and> x \<noteq> ?q" if "x \<in> set (L (i', j'))" for x
      proof -
        have "x \<notin> insert c (set (L (i, j)))"
          using that holds_other [OF h lk ij ij' ne] not_null [OF h lk ij'] by auto
        then show ?thesis using pq' by metis
      qed
      show "mem s' (W (x + 8)) = (if x = ?p then W ?q else mem s (W (x + 8)))"
        "mem s' (W (x + 12)) = (if x = ?q then W ?p else mem s (W (x + 12)))" if "x \<in> sites c F" for x
        unfolding ms(1) by (rule ls(1) [OF that], rule ls(2) [OF that])
    qed
  qed (simp add: ms)
  moreover have "mdiffer (links c F) s s'" using ls(3) by (simp add: mdiffer_def ms)
  ultimately show thesis using ex by (intro that)
qed
lemma insert_free_block_ok:
  assumes l: "lists_ok s L" and h: "holds L F" and c: "c = unat (control s)" and lk: "linkable c (insert (a, n) F)"
    and new: "(a, n) \<notin> F" and ij: "i < 24" "j < 32"
  obtains s' where "insert_free_block (W a) (int i) (int j) s = Some s'"
    "lists_ok s' (L((i, j) := a # L (i, j)))" "mdiffer (links c (insert (a, n) F)) s s'"
proof -
  let ?F = "insert (a, n) F"
  have sub: "sites c F \<subseteq> sites c ?F" by (auto simp: sites_def)
  have lkF: "linkable c F" using lk unfolding linkable_def by blast
  have aF: "(a, k) \<notin> F" for k
  proof
    assume "(a, k) \<in> F"
    then have "n = k" using lk unfolding linkable_def by (metis add_le_same_cancel1 insertI1 insertI2 le_zero_eq zero_neq_numeral)
    then show False using new \<open>(a, k) \<in> F\<close> by simp
  qed
  note acc = list_access [OF l ij, folded c]
  let ?q = "first (L (i, j)) c"
  have st: "set (L (i, j)) \<subseteq> sites c ?F" using holds_sites [OF h ij] sub by blast
  have q: "?q \<in> sites c ?F" and a: "a \<in> sites c ?F"
    using first_final_sites(1) [OF st] by (auto simp: sites_def)
  note bd = linkable_sites(1,2) [OF lk q] linkable_sites(1,2) [OF lk a]
  have ac: "a \<noteq> c" using lk unfolding linkable_def by (metis add_le_same_cancel1 insertI1 le_zero_eq zero_neq_numeral)
  have aL: "a \<notin> set (L (i', j'))" if "i' < 24" "j' < 32" for i' j'
    using holdsD(2) [OF h that] aF by blast
  have aq: "a \<noteq> ?q" using aL [OF ij] ac by (cases "L (i, j)") auto
  have al: "a mod 4 = 0" "a + 16 \<le> 2 ^ 30" using lk unfolding linkable_def by blast+
  define s0 where "s0 = store (W (a + 12)) (W c) s"
  define s1 where "s1 = store (W (?q + 12)) (W a) (store (W (a + 12)) (W c) (store (W (a + 8)) (W ?q) s))"
  have m8: "mem s1 (W (x + 8)) = (if x = a then W ?q else mem s (W (x + 8)))" if x: "x \<in> sites c ?F" for x
    using bd linkable_sites(2) [OF lk x] linkable_sites(3) [OF lk x q] linkable_sites(3) [OF lk x a] by (auto simp: s1_def)
  have m12: "mem s1 (W (x + 12)) = (if x = ?q then W a else if x = a then W c else mem s (W (x + 12)))"
    if x: "x \<in> sites c ?F" for x
    using bd aq linkable_sites(2) [OF lk x] linkable_sites(3) [OF lk x q] linkable_sites(3) [OF lk x a] by (auto simp: s1_def)
  have s1: "control s1 = control s" "blocks s1 = blocks s" "sl_bitmap s1 = sl_bitmap s" "fl_bitmap s1 = fl_bitmap s"
    by (simp_all add: s1_def)
  let ?m = "sl_bitmap s ! i OR 2 ^ j"
  define s' where "s' = s1\<lparr>blocks := (blocks s)[i := (blocks s ! i)[j := W a]],
     fl_bitmap := fl_bitmap s OR 2 ^ i, sl_bitmap := (sl_bitmap s)[i := ?m]\<rparr>"
  have nz: "W ?q \<noteq> 0" "W a \<noteq> 0" using bd by (simp_all add: W_eq_0_iff)
  have cw: "control s = W c" by (simp add: c)
  have ex: "insert_free_block (W a) (int i) (int j) s = Some s'"
    unfolding insert_free_block_def acc(1) W_plus_numeral Let_def store_sel cw
    using align_ptr_block [OF al] nz acc(6) ij
    by (simp add: W_plus_numeral set_list_def set_sl_bitmap_def nth_int_def s1_def s'_def)
  have ms: "mem s' = mem s1" "control s' = control s" by (simp_all add: s'_def s1)
  have "lists_ok s' (L((i, j) := a # L (i, j)))"
  proof (rule lists_ok_update [OF l c ij, where m = ?m])
    show "bit ?m k \<longleftrightarrow> (if k = j then a # L (i, j) \<noteq> [] else bit (sl_bitmap s ! i) k)" for k
      using ij by (auto simp: bit_set)
    have "bit ?m j" using ij by (simp add: bit_set)
    then have "?m \<noteq> 0" by (auto simp: word_bits_0)
    then show "bit (fl_bitmap s') k \<longleftrightarrow> (if k = i then ?m \<noteq> 0 else bit (fl_bitmap s) k)" for k
      using ij by (simp add: s'_def bit_set)
    have "seg (mem s1) a (L (i, j)) c"
    proof (rule seg_relink_start [OF acc(4) holdsD(1) [OF h ij]])
      fix x assume x: "x \<in> set (L (i, j))"
      then have "x \<noteq> a" "x \<in> sites c ?F" using aL [OF ij] st by auto
      then show "mem s1 (W (x + 8)) = mem s (W (x + 8)) \<and>
          mem s1 (W (x + 12)) = (if x = ?q then W a else mem s (W (x + 12)))" by (simp add: m8 m12)
    qed
    then show "seg (mem s') c (a # L (i, j)) c" using m8 [OF a] m12 [OF a] aq by (simp add: ms)
    show "seg (mem s') c (L (i', j')) c" if ij': "i' < 24" "j' < 32" and ne: "(i', j') \<noteq> (i, j)" for i' j'
    proof (rule seg_frame)
      show "seg (mem s) c (L (i', j')) c" using list_access(4) [OF l ij', folded c] .
      fix x assume x: "x \<in> set (L (i', j'))"
      have "?q \<in> insert c (set (L (i, j)))" by (auto simp: first_def split: list.split)
      moreover have "x \<notin> insert c (set (L (i, j)))"
        using x holds_other [OF h lkF ij ij' ne] not_null [OF h lkF ij'] by auto
      ultimately have "x \<noteq> ?q" by metis
      moreover have "x \<noteq> a" "x \<in> sites c ?F" using x aL [OF ij'] holds_sites [OF h ij'] sub by auto
      ultimately show "mem s' (W (x + 8)) = mem s (W (x + 8)) \<and> mem s' (W (x + 12)) = mem s (W (x + 12))"
        by (simp add: m8 m12 ms)
    qed
  qed (simp_all add: s'_def s1)
  moreover have "a + 8 \<in> links c ?F" "a + 12 \<in> links c ?F" "?q + 12 \<in> links c ?F" using a q by (auto simp: links_sites)
  then have "mdiffer (links c ?F) s s'" using bd by (auto simp: mdiffer_def ms s1_def)
  ultimately show thesis using ex by (intro that)
qed

text \<open>The same for the abstract contents of the lists, through \<open>block_remove\<close> and \<open>block_insert\<close>.\<close>

lemma lists_remove:
  assumes l: "lists s F" and c: "c = unat (control s)" and lk: "linkable c F" and a: "(a, n) \<in> F" and n: "cls n = (i, j)"
  obtains s' where "remove_free_block (W a) (int i) (int j) s = Some s'"
    "lists s' (F - {(a, n)})" "mdiffer (links c F) s s'"
proof -
  obtain L where L: "lists_ok s L" "holds L F" using l by (auto simp: lists_def)
  have "n < 2 ^ 30" using lk a unfolding linkable_def by blast
  from cls_range [OF this] n have ij: "i < 24" "j < 32" by simp_all
  have "a \<in> set (L (i, j))" using holdsD(2) [OF L(2) ij] a n by blast
  then obtain xs ys where xy: "L (i, j) = xs @ a # ys" by (auto simp: in_set_conv_decomp)
  obtain s' where s': "remove_free_block (W a) (int i) (int j) s = Some s'"
      "lists_ok s' (L((i, j) := xs @ ys))" "mdiffer (links c F) s s'"
    by (rule remove_free_block_ok [OF L c lk ij xy])
  have u: "k = n" if "(a, k) \<in> F" for k
    using lk a that unfolding linkable_def by (metis add_le_same_cancel1 le_zero_eq zero_neq_numeral)
  have d: "distinct (xs @ a # ys)" using holdsD(1) [OF L(2) ij] xy by simp
  have "holds (L((i, j) := xs @ ys)) (F - {(a, n)})"
    unfolding holds_def
  proof (intro allI impI)
    fix i' j' :: nat assume ij': "i' < 24" "j' < 32"
    show "distinct ((L((i, j) := xs @ ys)) (i', j')) \<and>
       set ((L((i, j) := xs @ ys)) (i', j')) = {x. \<exists>k. (x, k) \<in> F - {(a, n)} \<and> cls k = (i', j')}"
    proof (cases "(i', j') = (i, j)")
      case True
      have "set (xs @ ys) = set (L (i, j)) - {a}" using d xy by auto
      then show ?thesis using True d u holdsD(2) [OF L(2) ij] by auto
    next
      case False
      then have "(x, k) \<in> F - {(a, n)} \<and> cls k = (i', j') \<longleftrightarrow> (x, k) \<in> F \<and> cls k = (i', j')" for x k
        using n by auto
      then show ?thesis using False holdsD [OF L(2) ij'] by auto
    qed
  qed
  with s' show thesis by (intro that) (auto simp: lists_def)
qed

lemma lists_insert:
  assumes l: "lists s F" and c: "c = unat (control s)" and lk: "linkable c (insert (a, n) F)"
    and new: "(a, n) \<notin> F" and n: "cls n = (i, j)"
  obtains s' where "insert_free_block (W a) (int i) (int j) s = Some s'"
    "lists s' (insert (a, n) F)" "mdiffer (links c (insert (a, n) F)) s s'"
proof -
  obtain L where L: "lists_ok s L" "holds L F" using l by (auto simp: lists_def)
  have "n < 2 ^ 30" using lk unfolding linkable_def by blast
  from cls_range [OF this] n have ij: "i < 24" "j < 32" by simp_all
  obtain s' where s': "insert_free_block (W a) (int i) (int j) s = Some s'"
      "lists_ok s' (L((i, j) := a # L (i, j)))" "mdiffer (links c (insert (a, n) F)) s s'"
    by (rule insert_free_block_ok [OF L c lk new ij])
  have u: "k = n" if "(a, k) \<in> insert (a, n) F" for k
    using lk that unfolding linkable_def by (metis add_le_same_cancel1 insertI1 le_zero_eq zero_neq_numeral)
  have "holds (L((i, j) := a # L (i, j))) (insert (a, n) F)"
    unfolding holds_def
  proof (intro allI impI)
    fix i' j' :: nat assume ij': "i' < 24" "j' < 32"
    have "a \<notin> set (L (i', j'))" using holdsD(2) [OF L(2) ij', of a] u new by auto
    then show "distinct ((L((i, j) := a # L (i, j))) (i', j')) \<and>
       set ((L((i, j) := a # L (i, j))) (i', j')) = {x. \<exists>k. (x, k) \<in> insert (a, n) F \<and> cls k = (i', j')}"
      using holdsD [OF L(2) ij'] n by (cases "(i', j') = (i, j)") auto
  qed
  with s' show thesis by (intro that) (auto simp: lists_def)
qed
section \<open>Searching the lists\<close>

lemma bit_from: "bit (w AND push_bit j (NOT 0) :: u32) k \<longleftrightarrow> bit w k \<and> j \<le> k"
proof (cases "k < 32")
  case True
  then show ?thesis
    by (simp only: bit_and_iff bit_push_bit_iff bit_not_iff possible_bit_word) auto
next
  case False
  then show ?thesis using bit_imp_le_length [of w k] bit_imp_le_length [of "w AND push_bit j (NOT 0)" k] by auto
qed

lemma ffs_nat:
  assumes "(w :: u32) \<noteq> 0"
  obtains k where "tlsf_ffs w = int k" "k < 32" "bit w k"
  using tlsf_ffs_spec(1-3) [OF assms] by (intro that [of "nat (tlsf_ffs w)"]) auto

lemma list_first:
  assumes "lists_ok s L" and "holds L F" and "i < 24" and "j < 32" and "bit (sl_bitmap s ! i) j"
  obtains a n where "get_list s (int i) (int j) = Some (W a)" "(a, n) \<in> F" "cls n = (i, j)"
proof -
  note acc = list_access [OF assms(1,3,4)]
  obtain a ys where L: "L (i, j) = a # ys" using acc(3) assms(5) by (cases "L (i, j)") auto
  then obtain n where "(a, n) \<in> F" "cls n = (i, j)" using holdsD(2) [OF assms(2-4), of a] by auto
  with acc(1) L show thesis by (intro that) simp_all
qed

lemma search_suitable_block_ok:
  assumes l: "lists s F" and lk: "linkable c F" and ij: "i < 24" "j < 32"
  obtains (none) "search_suitable_block s (int i) (int j) = Some (0, int i, int j)"
      "\<forall>a n. (a, n) \<in> F \<longrightarrow> \<not> class_le (i, j) (cls n)"
  | (found) a n where "(a, n) \<in> F" "class_le (i, j) (cls n)"
      "search_suitable_block s (int i) (int j) = Some (W a, int (fst (cls n)), int (snd (cls n)))"
proof -
  obtain L where L: "lists_ok s L" "holds L F" using l by (auto simp: lists_def)
  note acc = list_access [OF L(1) ij]
  let ?m = "sl_bitmap s ! i AND push_bit j (NOT 0)" and ?f = "fl_bitmap s AND push_bit (Suc i) (NOT 0)"
  have eq: "search_suitable_block s (int i) (int j) =
      (if ?m = 0 then
         if ?f = 0 then Some (0, int i, int j)
         else nth_int (sl_bitmap s) (tlsf_ffs ?f) \<bind> (\<lambda>m. assert_c (m \<noteq> 0) \<bind> (\<lambda>_.
           get_list s (tlsf_ffs ?f) (tlsf_ffs m) \<bind> (\<lambda>b. Some (b, tlsf_ffs ?f, tlsf_ffs m))))
       else get_list s (int i) (tlsf_ffs ?m) \<bind> (\<lambda>b. Some (b, int i, tlsf_ffs ?m)))"
    using acc(2) by (simp add: search_suitable_block_def Let_def nat_add_distrib)
  consider (same) "?m \<noteq> 0" | (up) "?m = 0" "?f \<noteq> 0" | (no) "?m = 0" "?f = 0" by blast
  then show thesis
  proof cases
    case same
    obtain k where k: "tlsf_ffs ?m = int k" "k < 32" "bit ?m k" by (rule ffs_nat [OF same])
    then have "bit (sl_bitmap s ! i) k" "j \<le> k" by (simp_all only: bit_from)
    from list_first [OF L ij(1) k(2) this(1)] obtain a n where
      "get_list s (int i) (int k) = Some (W a)" "(a, n) \<in> F" "cls n = (i, k)" .
    then show thesis using found [of a n] eq same k(1) \<open>j \<le> k\<close> by (simp add: class_le_def)
  next
    case up
    obtain f where f: "tlsf_ffs ?f = int f" "f < 32" "bit ?f f" by (rule ffs_nat [OF up(2)])
    then have f2: "f < 24" "sl_bitmap s ! f \<noteq> 0" "i < f"
      using list_access(5) [OF L(1) ij, of f] by (auto simp only: bit_from)
    obtain k where k: "tlsf_ffs (sl_bitmap s ! f) = int k" "k < 32" "bit (sl_bitmap s ! f) k"
      by (rule ffs_nat [OF f2(2)])
    from list_first [OF L f2(1) k(2,3)] obtain a n where
      "get_list s (int f) (int k) = Some (W a)" "(a, n) \<in> F" "cls n = (f, k)" .
    then show thesis
      using found [of a n] eq up f(1) f2 k(1) acc(6) by (simp add: class_le_def nth_int_def)
  next
    case no
    have "\<not> class_le (i, j) (cls n)" if F: "(a, n) \<in> F" for a n
    proof
      assume le: "class_le (i, j) (cls n)"
      obtain i' j' where c': "cls n = (i', j')" by (cases "cls n")
      have "n < 2 ^ 30" using lk F unfolding linkable_def by blast
      from cls_range [OF this] c' have ij': "i' < 24" "j' < 32" by simp_all
      have "L (i', j') \<noteq> []" using holdsD(2) [OF L(2) ij', of a] F c' by auto
      then have b: "bit (sl_bitmap s ! i') j'" using list_access(3) [OF L(1) ij'] by simp
      then have b2: "bit (fl_bitmap s) i'" using list_access(5) [OF L(1) ij'] ij' by (auto simp: word_bits_0)
      have "bit ?m j' \<or> bit ?f i'" using le b b2 c' by (auto simp only: bit_from class_le_def fst_conv snd_conv)
      then show False using no by (auto simp: word_bits_0 simp del: push_bit_minus_one_eq_not_mask)
    qed
    then show thesis using none eq no by simp
  qed
qed

end
