(* ===== verification/Tlsf_Heap.thy ===== *)
theory Tlsf_Heap
  imports Tlsf_Lists
begin

text \<open>
  The invariant of the TLSF heap, \<open>heap s B\<close>: the blocks \<open>B\<close> tile the pools and have correct headers
  (\<open>phys\<close>), the free lists hold exactly the free blocks of \<open>B\<close> (\<open>lists\<close>), and no two free blocks are
  neighbours. The lemmas carry it through \<open>tlsf_malloc\<close>, \<open>tlsf_free\<close> and \<open>tlsf_add_pool\<close> of
  \<open>libyaul/kernel/mm/tlsf.c\<close>, one internal operation at a time; between the steps some free blocks
  are off the lists (\<open>detached\<close>). They also bound the words that are written, so that the contents
  of allocated blocks are known to survive (\<open>kept\<close>).
\<close>

section \<open>The heap invariant\<close>

definition frees :: "blk list \<Rightarrow> (nat \<times> nat) set" where
  "frees B = {(a, n). (a, n, True) \<in> set B}"

definition useds :: "blk list \<Rightarrow> (nat \<times> nat) set" where
  "useds B = {(a, n). (a, n, False) \<in> set B \<and> n \<noteq> 0}"

text \<open>No two free blocks are neighbours.\<close>

fun coalesced :: "blk list \<Rightarrow> bool" where
  "coalesced (x # y # B) \<longleftrightarrow> \<not> (snd (snd x) \<and> snd (snd y)) \<and> coalesced (y # B)"
| "coalesced _ \<longleftrightarrow> True"

definition heap :: "tlsf \<Rightarrow> blk list \<Rightarrow> bool" where
  "heap s B \<longleftrightarrow> phys s B \<and> lists s (frees B) \<and> coalesced B"

lemma frees_append [simp]: "frees (xs @ ys) = frees xs \<union> frees ys"
  by (auto simp: frees_def)

lemma frees_Cons [simp]: "frees ((a, n, f) # B) = (if f then insert (a, n) (frees B) else frees B)"
  by (auto simp: frees_def)

lemma frees_Nil [simp]: "frees [] = {}"
  by (simp add: frees_def)

lemma useds_append [simp]: "useds (xs @ ys) = useds xs \<union> useds ys"
  by (auto simp: useds_def)

lemma useds_Cons [simp]: "useds ((a, n, f) # B) = (if f \<or> n = 0 then useds B else insert (a, n) (useds B))"
  by (auto simp: useds_def)

lemma useds_Nil [simp]: "useds [] = {}"
  by (simp add: useds_def)

lemma coalesced_append_Cons:
  "coalesced (xs @ x # ys) \<longleftrightarrow> coalesced (xs @ [x]) \<and> coalesced (x # ys)"
proof (induction xs)
  case (Cons y xs)
  then show ?case by (cases xs) auto
qed simp

lemma coalesced_snoc:
  "coalesced (xs @ [x]) \<longleftrightarrow> coalesced xs \<and> \<not> (last_free False xs \<and> snd (snd x))"
proof (induction xs)
  case (Cons y xs)
  then show ?case by (cases xs rule: list.exhaust) auto
qed simp

lemma coalesced_Cons:
  "coalesced (x # ys) \<longleftrightarrow> coalesced ys \<and> (ys = [] \<or> \<not> (snd (snd x) \<and> snd (snd (hd ys))))"
  by (cases ys) auto

lemma geom_pairwise:
  assumes "geom c B" and "x \<in> set B" and "y \<in> set B"
  shows "x = y \<or> apart x y"
proof -
  have "sorted_wrt apart B" using assms(1) by (simp add: geom_def)
  then show ?thesis using assms(2,3)
  proof (induction B)
    case (Cons z B)
    then have "\<forall>w \<in> set B. apart z w" by simp
    with Cons show ?case using apart_sym [of z] by (metis set_ConsD sorted_wrt.simps(2))
  qed simp
qed

lemma geom_in:
  assumes "geom c B" and "(a, n, f) \<in> set B"
  shows "0 < a" and "a mod 4 = 0" and "n mod 4 = 0" and "n = 0 \<and> \<not> f \<or> 12 \<le> n" and "a + n + 16 \<le> 2 ^ 30"
    and "c + 3188 \<le> a + 4 \<or> a + n + 8 \<le> c"
  using assms unfolding geom_def by auto

lemma geom_control: "geom c B \<Longrightarrow> 0 < c \<and> c mod 4 = 0 \<and> c + 3188 \<le> 2 ^ 30"
  by (simp add: geom_def)

lemma linkable_frees:
  assumes g: "geom c B" and F: "F \<subseteq> frees B"
  shows "linkable c F"
  unfolding linkable_def
proof (intro conjI allI impI)
  show "0 < c" "c + 16 < 2 ^ 32" using geom_control [OF g] by auto
  fix a n assume "(a, n) \<in> F"
  then have a: "(a, n, True) \<in> set B" using F by (auto simp: frees_def)
  note i = geom_in [OF g a]
  show "0 < a" "a mod 4 = 0" "a + 16 \<le> 2 ^ 30" "n < 2 ^ 30" "c + 16 \<le> a \<or> a + 16 \<le> c" using i by auto
  fix b k assume "(b, k) \<in> F"
  then have b: "(b, k, True) \<in> set B" using F by (auto simp: frees_def)
  from geom_pairwise [OF g a b] show "a = b \<and> n = k \<or> a + 16 \<le> b \<or> b + 16 \<le> a"
    using i(4) geom_in(4) [OF g b] by auto
qed

text \<open>Header words and the words of detached blocks are not link words.\<close>

lemma links_span:
  assumes g: "geom c B" and F: "F \<subseteq> frees B" and x: "(a, n, f) \<in> set B"
    and y: "a + 4 \<le> y" "y < a + n + 8" "(a, n) \<notin> F \<or> y < a + 8 \<or> y = a + n + 4"
  shows "y \<notin> links c F"
proof
  assume "y \<in> links c F"
  then obtain b k where b: "(b, k) \<in> F \<or> b = c" "y = b + 8 \<or> y = b + 12" unfolding links_def by blast
  show False
  proof (cases "b = c")
    case True
    then show False using geom_in(6) [OF g x] b(2) y(1,2) by auto
  next
    case False
    then have bF: "(b, k) \<in> F" and bb: "(b, k, True) \<in> set B" using b F by (auto simp: frees_def)
    have k: "12 \<le> k" using geom_in(4) [OF g bb] by simp
    from geom_pairwise [OF g x bb] show False
      using bF y b(2) k by auto
  qed
qed

lemma hdrs_cells:
  assumes "hdrs m pf B" and "\<And>a n f. (a, n, f) \<in> set B \<Longrightarrow>
      m' (W (a + 4)) = m (W (a + 4)) \<and> (f \<longrightarrow> m' (W (a + n + 4)) = m (W (a + n + 4)))"
  shows "hdrs m' pf B"
  using assms
proof (induction B arbitrary: pf)
  case (Cons x B)
  obtain a n f where x: "x = (a, n, f)" by (cases x)
  have "m' (W (a + 4)) = m (W (a + 4))" "f \<longrightarrow> m' (W (a + n + 4)) = m (W (a + n + 4))"
    using Cons.prems(2) [of a n f] by (simp_all add: x)
  moreover have "hdrs m' f B"
  proof (rule Cons.IH)
    show "hdrs m f B" using Cons.prems(1) by (simp add: x)
    show "m' (W (b + 4)) = m (W (b + 4)) \<and> (g \<longrightarrow> m' (W (b + k + 4)) = m (W (b + k + 4)))"
      if "(b, k, g) \<in> set B" for b k g using Cons.prems(2) [of b k g] that by simp
  qed
  ultimately show ?case using Cons.prems(1) by (simp add: x)
qed simp

lemma phys_links:
  assumes p: "phys s B" and F: "F \<subseteq> frees B" and d: "mdiffer (links (unat (control s)) F) s s'"
  shows "phys s' B"
proof -
  let ?c = "unat (control s)"
  have g: "geom ?c B" and h: "hdrs (mem s) False B" using p by (simp_all add: phys_def)
  have "hdrs (mem s') False B"
  proof (rule hdrs_cells [OF h], intro conjI impI)
    fix a n f assume x: "(a, n, f) \<in> set B"
    have "a + n + 16 \<le> 2 ^ 30" using geom_in(5) [OF g x] .
    then have lim: "a + 4 < 2 ^ 32" "a + n + 4 < 2 ^ 32" by simp_all
    show "mem s' (W (a + 4)) = mem s (W (a + 4))"
      using links_span [OF g F x, of "a + 4"] d lim by (simp add: mdiffer_def)
    show "mem s' (W (a + n + 4)) = mem s (W (a + n + 4))" if f
      using links_span [OF g F x, of "a + n + 4"] d lim by (simp add: mdiffer_def)
  qed
  then show ?thesis using g d by (simp add: phys_def mdiffer_def)
qed

section \<open>What stays untouched\<close>

text \<open>The words an operation may write: headers, free blocks, and the control structure.\<close>

fun cells :: "blk \<Rightarrow> nat set" where
  "cells (a, n, f) = {a + 4..<a + (if f then n else 0) + 8}"

definition adm :: "nat \<Rightarrow> blk list \<Rightarrow> nat set" where
  "adm c B = \<Union> (cells ` set B) \<union> {c..<c + 3188}"

lemma adm_replace:
  "\<Union> (cells ` set vs) \<subseteq> \<Union> (cells ` set us) \<Longrightarrow> adm c (xs @ vs @ zs) \<subseteq> adm c (xs @ us @ zs)"
  unfolding adm_def by auto

lemma adm_block: "(a, n, f) \<in> set B \<Longrightarrow> a + 4 \<le> y \<Longrightarrow> y < a + (if f then n else 0) + 8 \<Longrightarrow> y \<in> adm c B"
  unfolding adm_def by force

lemma adm_used:
  assumes g: "geom c B" and u: "(b, k) \<in> useds B" and y: "b + 8 \<le> y" "y < b + k + 8"
  shows "y \<notin> adm c B"
proof
  have x: "(b, k, False) \<in> set B" using u by (auto simp: useds_def)
  assume "y \<in> adm c B"
  then consider a n f where "(a, n, f) \<in> set B" "a + 4 \<le> y" "y < a + (if f then n else 0) + 8"
    | "c \<le> y" "y < c + 3188" unfolding adm_def by force
  then show False
  proof cases
    case 1
    from geom_pairwise [OF g x 1(1)] 1 y show False by (auto split: if_splits)
  next
    case 2
    then show False using geom_in(6) [OF g x] y by auto
  qed
qed

lemma adm_links: "geom c B \<Longrightarrow> F \<subseteq> frees B \<Longrightarrow> links c F \<subseteq> adm c B"
proof
  fix y assume g: "geom c B" and F: "F \<subseteq> frees B" and "y \<in> links c F"
  then obtain b k where b: "(b, k) \<in> F \<or> b = c" "y = b + 8 \<or> y = b + 12" unfolding links_def by blast
  show "y \<in> adm c B"
  proof (cases "b = c")
    case True
    then show ?thesis using b by (auto simp: adm_def)
  next
    case False
    then have bb: "(b, k, True) \<in> set B" using b F by (auto simp: frees_def)
    have "12 \<le> k" using geom_in(4) [OF g bb] by simp
    then show ?thesis using b(2) by (intro adm_block [OF bb]) auto
  qed
qed

definition kept :: "blk list \<Rightarrow> tlsf \<Rightarrow> tlsf \<Rightarrow> bool" where
  "kept B s s' \<longleftrightarrow> control s' = control s \<and>
     (\<forall>(b, k) \<in> useds B. \<forall>y. b + 8 \<le> y \<longrightarrow> y < b + k + 8 \<longrightarrow> mem s' (W y) = mem s (W y))"

lemma keptI:
  assumes g: "geom c B" and d: "mdiffer (adm c B) s s'"
  shows "kept B s s'"
  unfolding kept_def
proof (intro conjI ballI, goal_cases)
  case 1
  then show ?case using d by (simp add: mdiffer_def)
next
  case (2 x)
  obtain b k where x: "x = (b, k)" by (cases x)
  have bk: "(b, k, False) \<in> set B" using 2 by (auto simp: useds_def x)
  have "b + k + 16 \<le> 2 ^ 30" using geom_in(5) [OF g bk] .
  then have "y < 2 ^ 32" if "y < b + k + 8" for y using that by simp
  then show ?case using adm_used [OF g] 2 d by (auto simp: x mdiffer_def)
qed

lemma kept_trans: "kept B s s1 \<Longrightarrow> kept C s1 s2 \<Longrightarrow> useds B \<subseteq> useds C \<Longrightarrow> kept B s s2"
  unfolding kept_def by fastforce
section \<open>Steps\<close>

text \<open>In the middle of an operation the free blocks \<open>D\<close> are detached from the lists.\<close>

definition detached :: "tlsf \<Rightarrow> blk list \<Rightarrow> (nat \<times> nat) set \<Rightarrow> bool" where
  "detached s B D \<longleftrightarrow> phys s B \<and> lists s (frees B - D)"

lemma heap_detached: "heap s B \<longleftrightarrow> detached s B {} \<and> coalesced B"
  by (auto simp: heap_def detached_def)

lemma detached_phys: "detached s B D \<Longrightarrow> phys s B"
  by (simp add: detached_def)

lemma phys_geom: "phys s B \<Longrightarrow> geom (unat (control s)) B"
  by (simp add: phys_def)

lemma frees_fresh:
  assumes "geom c (xs @ (a, n, f) # ys)"
  shows "(a, k) \<notin> frees xs" and "(a, k) \<notin> frees ys"
  using geom_distinct [OF assms, of a k True] by (auto simp: frees_def)

lemma useds_fresh:
  assumes "geom c (xs @ (a, n, f) # ys)"
  shows "(a, k) \<notin> useds xs" and "(a, k) \<notin> useds ys"
  using geom_distinct [OF assms, of a k False] by (auto simp: useds_def)

lemma free_block:
  assumes "phys s B" and "(a, n) \<in> frees B"
  obtains xs ys where "B = xs @ (a, n, True) # ys"
    "block_size s (W a) = W n" "block_is_free s (W a)" "W a \<noteq> 0" "12 \<le> n" "n mod 4 = 0" "n < 2 ^ 30"
proof -
  obtain xs ys where B: "B = xs @ (a, n, True) # ys"
    using assms(2) by (auto simp: frees_def in_set_conv_decomp)
  note b = phys_block [OF assms(1) [unfolded B]]
  have n: "n mod 4 = 0" "12 \<le> n" "n < 2 ^ 30" using b(3) by auto
  show thesis
    by (rule that [OF B]) (use header_ops(1,2) [OF b(1) n(1)] b(4) n in auto)
qed

lemma mapping_W: "n < 2 ^ 32 \<Longrightarrow> mapping_insert (W n) = (int (fst (cls n)), int (snd (cls n)))"
  unfolding W_def by (rule mapping_insert_eq)

lemma remove_step:
  assumes d: "detached s B D" and a: "(a, n) \<in> frees B - D"
  obtains s' where "remove_free_block (W a) (int (fst (cls n))) (int (snd (cls n))) s = Some s'"
    "block_remove (W a) s = Some s'" "detached s' B (insert (a, n) D)" "mdiffer (adm (unat (control s)) B) s s'"
proof -
  let ?c = "unat (control s)"
  have p: "phys s B" and l: "lists s (frees B - D)" using d by (simp_all add: detached_def)
  note g = phys_geom [OF p]
  have aF: "(a, n) \<in> frees B" using a by simp
  obtain xs ys where b: "B = xs @ (a, n, True) # ys" "block_size s (W a) = W n" "block_is_free s (W a)"
      "W a \<noteq> 0" "12 \<le> n" "n mod 4 = 0" "n < 2 ^ 30"
    by (rule free_block [OF p aF])
  obtain s' where s': "remove_free_block (W a) (int (fst (cls n))) (int (snd (cls n))) s = Some s'"
      "lists s' (frees B - D - {(a, n)})" "mdiffer (links ?c (frees B - D)) s s'"
    by (rule lists_remove [OF l refl linkable_frees [OF g Diff_subset] a prod.collapse [symmetric]])
  have "block_remove (W a) s = Some s'"
    using s'(1) mapping_W [of n] b by (simp add: block_remove_def)
  moreover have "detached s' B (insert (a, n) D)"
    using phys_links [OF p Diff_subset s'(3)] s'(2)
    unfolding detached_def Diff_insert [of "frees B" "(a, n)" D] by blast
  moreover have "mdiffer (adm ?c B) s s'"
    by (rule mdiffer_mono [OF s'(3) adm_links [OF g]]) auto
  ultimately show thesis using s'(1) by (intro that)
qed

lemma insert_step:
  assumes d: "detached s B D" and a: "(a, n) \<in> frees B" "(a, n) \<in> D"
  obtains s' where "block_insert (W a) s = Some s'" "detached s' B (D - {(a, n)})"
    "mdiffer (adm (unat (control s)) B) s s'"
proof -
  let ?c = "unat (control s)" and ?F = "insert (a, n) (frees B - D)"
  have p: "phys s B" and l: "lists s (frees B - D)" using d by (simp_all add: detached_def)
  note g = phys_geom [OF p]
  have aF: "(a, n) \<in> frees B" using a by simp
  obtain xs ys where b: "B = xs @ (a, n, True) # ys" "block_size s (W a) = W n" "block_is_free s (W a)"
      "W a \<noteq> 0" "12 \<le> n" "n mod 4 = 0" "n < 2 ^ 30"
    by (rule free_block [OF p aF])
  have F: "?F \<subseteq> frees B" "?F = frees B - (D - {(a, n)})" using a by auto
  obtain s' where s': "insert_free_block (W a) (int (fst (cls n))) (int (snd (cls n))) s = Some s'"
      "lists s' ?F" "mdiffer (links ?c ?F) s s'"
    by (rule lists_insert [OF l refl linkable_frees [OF g F(1)] _ prod.collapse [symmetric]]) (use a in auto)
  have "block_insert (W a) s = Some s'"
    using s'(1) mapping_W [of n] b by (simp add: block_insert_def)
  moreover have "detached s' B (D - {(a, n)})"
    using phys_links [OF p F(1) s'(3)] s'(2) F(2) by (simp add: detached_def)
  moreover have "mdiffer (adm ?c B) s s'"
    by (rule mdiffer_mono [OF s'(3) adm_links [OF g F(1)]])
  ultimately show thesis by (intro that)
qed

text \<open>A step that rewrites headers of the row, away from the link words of the listed blocks.\<close>

lemma header_step:
  assumes d: "detached s B D" and p': "phys s' B'" and F: "frees B' - D' = frees B - D"
    and ch: "differ S s s'" and S: "S \<inter> links (unat (control s)) (frees B - D) = {}"
  shows "detached s' B' D'"
proof -
  have p: "phys s B" and l: "lists s (frees B - D)" using d by (simp_all add: detached_def)
  have "lists s' (frees B - D)"
    by (rule lists_frame [OF l ch S linkable_frees [OF phys_geom [OF p]]]) auto
  then show ?thesis using p' F by (simp add: detached_def)
qed

text \<open>The words that operations on a block \<open>a\<close>, its successor and the block after it write.\<close>

lemma span_links:
  assumes g: "geom c B" and a: "(a, n, f) \<in> set B" and D: "f \<longrightarrow> (a, n) \<in> D"
    and S: "\<And>y. y \<in> S \<Longrightarrow> y \<in> {a + 4..<a + n + 8} \<or> (\<exists>b k h. (b, k, h) \<in> set B \<and> y = b + 4)"
  shows "S \<inter> links c (frees B - D) = {}"
proof (rule ccontr)
  assume "S \<inter> links c (frees B - D) \<noteq> {}"
  then obtain y where y: "y \<in> S" "y \<in> links c (frees B - D)" by blast
  have F: "frees B - D \<subseteq> frees B" by blast
  have nin: "(a, n) \<notin> frees B - D"
  proof (cases f)
    case False
    then have "(a, n, True) \<notin> set B" using geom_pairwise [OF g a, of "(a, n, True)"] by auto
    then show ?thesis by (simp add: frees_def)
  qed (use D in simp)
  from S [OF y(1)] consider "y \<in> {a + 4..<a + n + 8}" | b k h where "(b, k, h) \<in> set B" "y = b + 4" by blast
  then show False
  proof cases
    case 1
    then show False using links_span [OF g F a, of y] nin y(2) by auto
  next
    case 2
    then show False using links_span [OF g F 2(1), of y] y(2) by auto
  qed
qed

lemma adm_span:
  assumes "(a, n, True) \<in> set B"
    and "\<And>y. y \<in> S \<Longrightarrow> y \<in> {a + 4..<a + n + 8} \<or> (\<exists>b k h. (b, k, h) \<in> set B \<and> y = b + 4)"
  shows "S \<subseteq> adm c B"
proof
  fix y assume "y \<in> S"
  from assms(2) [OF this] consider "y \<in> {a + 4..<a + n + 8}" | b k h where "(b, k, h) \<in> set B" "y = b + 4" by blast
  then show "y \<in> adm c B"
  proof cases
    case 1
    then show ?thesis by (intro adm_block [OF assms(1)]) auto
  next
    case 2
    then show ?thesis by (intro adm_block [OF 2(1)]) auto
  qed
qed
section \<open>Allocation steps\<close>

lemma detached_next:
  assumes "detached s (xs @ (a, n, f) # zs) D" and "n \<noteq> 0"
  obtains k g ys where "zs = (a + n + 4, k, g) # ys"
  using geom_next [OF phys_geom [OF detached_phys [OF assms(1)]] assms(2)] .

lemma mdiffer_control: "mdiffer S s s' \<Longrightarrow> control s' = control s"
  by (simp add: mdiffer_def)

lemma mdiffer_trans2: "mdiffer S s s1 \<Longrightarrow> mdiffer T s1 s2 \<Longrightarrow> T \<subseteq> S \<Longrightarrow> mdiffer S s s2"
  using mdiffer_trans [of S s s1 T s2] by (simp add: Un_absorb2)

lemma cls_large:
  assumes "2 ^ 30 \<le> n" and "n < 2 ^ 32"
  shows "24 \<le> fst (cls n)"
proof -
  have "n < 2 ^ Suc (lg n)" using lg_bounds [of n] assms by simp
  then have "(2 :: nat) ^ 30 < 2 ^ Suc (lg n)" using assms(1) by linarith
  then have "30 < Suc (lg n)" using power2_less_iff by blast
  then show ?thesis using assms(1) by (simp add: cls_def)
qed

lemma block_locate_free_ok:
  assumes d: "detached s B {}" and k: "k = 0 \<or> 12 \<le> k" "k mod 4 = 0" "k < 2 ^ 30"
  obtains (none) "block_locate_free (W k) s = Some (0, s)"
      "\<forall>a n. (a, n) \<in> frees B \<longrightarrow> k = 0 \<or> \<not> class_le (cls (rounded k)) (cls n)"
  | (found) a n s' where "(a, n) \<in> frees B" "k \<noteq> 0" "k \<le> n"
      "block_locate_free (W k) s = Some (W a, s')" "detached s' B {(a, n)}"
      "mdiffer (adm (unat (control s)) B) s s'"
proof (cases "k = 0")
  case True
  then show thesis using none by (simp add: block_locate_free_def)
next
  case False
  let ?i = "fst (cls (rounded k))" and ?j = "snd (cls (rounded k))"
  have p: "phys s B" and l: "lists s (frees B)" using d by (simp_all add: detached_def)
  have lk: "linkable (unat (control s)) (frees B)" by (rule linkable_frees [OF phys_geom [OF p]]) simp
  have ms: "mapping_search (W k) = (int ?i, int ?j)" unfolding W_def by (rule mapping_search_eq [OF k(3)])
  have r32: "rounded k < 2 ^ 32" using rounded_lt32 [OF k(3)] by simp
  have kz: "W k \<noteq> 0" using False k(3) by (simp add: W_eq_0_iff)
  have small: "n < 2 ^ 30" if "(a, n) \<in> frees B" for a n using lk that unfolding linkable_def by blast
  show thesis
  proof (cases "?i < 24")
    case big: False
    have "\<not> class_le (cls (rounded k)) (cls n)" if "(a, n) \<in> frees B" for a n
      using cls_range(1) [OF small [OF that]] big by (simp add: class_le_def)
    then show thesis
      using none ms kz big by (simp add: block_locate_free_def FL_INDEX_COUNT_def)
  next
    case True
    then have "rounded k < 2 ^ 30" using cls_large [of "rounded k"] r32 by (metis leD leI)
    then have j: "?j < 32" using cls_range(2) by blast
    show thesis
    proof (rule search_suitable_block_ok [OF l lk True j])
      assume "search_suitable_block s (int ?i) (int ?j) = Some (0, int ?i, int ?j)"
        "\<forall>a n. (a, n) \<in> frees B \<longrightarrow> \<not> class_le (?i, ?j) (cls n)"
      then show thesis using none ms kz True by (simp add: block_locate_free_def FL_INDEX_COUNT_def)
    next
      fix a n assume a: "(a, n) \<in> frees B" "class_le (?i, ?j) (cls n)"
        "search_suitable_block s (int ?i) (int ?j) = Some (W a, int (fst (cls n)), int (snd (cls n)))"
      have kn: "k \<le> n" by (rule class_fits [OF k(3,2) small [OF a(1)]]) (use a(2) in simp)
      obtain xs ys where b: "B = xs @ (a, n, True) # ys" "block_size s (W a) = W n" "block_is_free s (W a)"
          "W a \<noteq> 0" "12 \<le> n" "n mod 4 = 0" "n < 2 ^ 30"
        by (rule free_block [OF p a(1)])
      obtain s' where s': "remove_free_block (W a) (int (fst (cls n))) (int (snd (cls n))) s = Some s'"
          "block_remove (W a) s = Some s'" "detached s' B (insert (a, n) {})" "mdiffer (adm (unat (control s)) B) s s'"
        by (rule remove_step [OF d]) (use a(1) in auto)
      have "W k \<le> W n" using kn b(7) by (simp add: W_le_iff)
      then have "block_locate_free (W k) s = Some (W a, s')"
        using ms kz True a(3) b(2,4) s'(1) by (simp add: block_locate_free_def FL_INDEX_COUNT_def)
      then show thesis using found [OF a(1) False kn _ s'(3,4)] by simp
    qed
  qed
qed

lemma block_can_split_W:
  assumes "block_size s (W a) = W n" and "n < 2 ^ 31" and "k < 2 ^ 31"
  shows "block_can_split s (W a) (W k) \<longleftrightarrow> k + 16 \<le> n"
proof -
  have "16 + W k = W (k + 16)" by (simp add: W_add)
  then show ?thesis using assms by (simp add: block_can_split_def W_le_iff)
qed

text \<open>Trimming a detached free block to \<open>k\<close> bytes: the rest becomes a listed free block of its own.\<close>

lemma block_trim_free_ok:
  assumes d: "detached s (xs @ (a, n, True) # zs) {(a, n)}" and k: "k mod 4 = 0" "12 \<le> k" "k \<le> n"
  obtains s' m rest where "block_trim_free (W a) (W k) s = Some s'"
    "detached s' (xs @ (a, m, True) # rest @ zs) {(a, m)}" "k \<le> m" "m < k + 16"
    "rest = [] \<and> m = n \<or> rest = [(a + k + 4, n - k - 4, True)] \<and> m = k \<and> k + 16 \<le> n"
    "mdiffer (adm (unat (control s)) (xs @ (a, n, True) # zs)) s s'"
proof -
  let ?B = "xs @ (a, n, True) # zs" and ?c = "unat (control s)"
  have p: "phys s ?B" by (rule detached_phys [OF d])
  note g = phys_geom [OF p]
  have inB: "(a, n, True) \<in> set ?B" by simp
  have aF: "(a, n) \<in> frees ?B" by simp
  obtain us ys where b: "?B = us @ (a, n, True) # ys" "block_size s (W a) = W n" "block_is_free s (W a)"
      "W a \<noteq> 0" "12 \<le> n" "n mod 4 = 0" "n < 2 ^ 30"
    by (rule free_block [OF p aF])
  have can: "block_can_split s (W a) (W k) \<longleftrightarrow> k + 16 \<le> n"
    using block_can_split_W [OF b(2)] b(7) k(3) by simp
  show thesis
  proof (cases "k + 16 \<le> n")
    case False
    then show thesis using that [of s n "[]"] d b(3) can k by (simp add: block_trim_free_def)
  next
    case True
    let ?r = "a + k + 4" and ?m = "n - k - 4"
    let ?B' = "xs @ (a, k, True) # (?r, ?m, True) # zs"
    have "n \<noteq> 0" using b(5) by simp
    from detached_next [OF d this] obtain j h ws where zs: "zs = (a + n + 4, j, h) # ws" .
    obtain s1 s2 s3 s4 where s: "block_split (W a) (W k) s = Some (W ?r, s1)"
      "block_link_next (W a) s1 = Some (W ?r, s2)" "block_set_prev_free (W ?r) s2 = s3"
      "block_set_prev_free (W ?r) s1 = s4" "block_link_next (W a) s4 = Some (W ?r, s3)"
      "phys s3 (xs @ (a, k, True) # (?r, n - k - 4, True) # (a + n + 4, j, h) # ws)"
      "differ {a + 4, ?r, ?r + 4, a + n + 4, a + n + 4 + 4} s s3"
      using p unfolding zs by (rule split_free_phys [OF _ k(1,2) True refl])
    have p3: "phys s3 ?B'" using s(6) by (simp add: zs)
    note g3 = phys_geom [OF p3]
    let ?S = "{a + 4, ?r, ?r + 4, a + n + 4, a + n + 4 + 4}"
    have S: "y \<in> {a + 4..<a + n + 8} \<or> (\<exists>b k h. (b, k, h) \<in> set ?B \<and> y = b + 4)" if "y \<in> ?S" for y
    proof -
      have "y \<in> {a + 4..<a + n + 8} \<or> y = a + n + 4 + 4" using that True by auto
      moreover have "(a + n + 4, j, h) \<in> set ?B" by (simp add: zs)
      ultimately show ?thesis by blast
    qed
    have g3': "geom (unat (control s3)) ((xs @ [(a, k, True)]) @ (?r, ?m, True) # zs)" using g3 by simp
    have F: "frees ?B' - {(a, k), (?r, ?m)} = frees ?B - {(a, n)}"
      using frees_fresh [OF g] frees_fresh [OF g3] frees_fresh [OF g3'] by auto
    have d3: "detached s3 ?B' {(a, k), (?r, ?m)}"
      by (rule header_step [OF d p3 F s(7) span_links [OF g inB _ S]]) simp_all
    have m3: "mdiffer (adm ?c ?B) s s3"
      using differ_mdiffer [OF s(7)] adm_span [OF inB S] by (rule mdiffer_mono)
    obtain s' where s': "block_insert (W ?r) s3 = Some s'" "detached s' ?B' ({(a, k), (?r, ?m)} - {(?r, ?m)})"
        "mdiffer (adm (unat (control s3)) ?B') s3 s'"
      by (rule insert_step [OF d3]) auto
    have "{(a, k), (?r, ?m)} - {(?r, ?m)} = {(a, k)}" by auto
    with s'(2) have d': "detached s' (xs @ (a, k, True) # [(?r, ?m, True)] @ zs) {(a, k)}" by simp
    have sub: "adm (unat (control s3)) ?B' \<subseteq> adm ?c ?B"
      using mdiffer_control [OF m3] True
        adm_replace [of "[(a, k, True), (?r, ?m, True)]" "[(a, n, True)]" ?c xs zs] by auto
    show thesis
    proof (rule that [OF _ d'])
      show "block_trim_free (W a) (W k) s = Some s'"
        using b(3) can True s s'(1) by (simp add: block_trim_free_def)
      show "mdiffer (adm ?c ?B) s s'" by (rule mdiffer_trans2 [OF m3 s'(3) sub])
    qed (use True in simp_all)
  qed
qed
lemma block_prepare_used_ok:
  assumes d: "detached s (xs @ (a, n, True) # zs) {(a, n)}" and k: "k mod 4 = 0" "12 \<le> k" "k \<le> n"
  obtains s' m rest where "block_prepare_used (W a) (W k) s = Some (W (a + 8), s')"
    "detached s' (xs @ (a, m, False) # rest @ zs) {}" "k \<le> m" "m < k + 16"
    "rest = [] \<and> m = n \<or> rest = [(a + k + 4, n - k - 4, True)] \<and> m = k \<and> k + 16 \<le> n"
    "mdiffer (adm (unat (control s)) (xs @ (a, n, True) # zs)) s s'"
proof -
  let ?B = "xs @ (a, n, True) # zs" and ?c = "unat (control s)"
  have n: "n < 2 ^ 30" "W a \<noteq> 0" using phys_block(3,4) [OF detached_phys [OF d]] by auto
  obtain s1 m rest where s1: "block_trim_free (W a) (W k) s = Some s1"
    "detached s1 (xs @ (a, m, True) # rest @ zs) {(a, m)}" "k \<le> m" "m < k + 16"
    "rest = [] \<and> m = n \<or> rest = [(a + k + 4, n - k - 4, True)] \<and> m = k \<and> k + 16 \<le> n"
    "mdiffer (adm ?c ?B) s s1"
    by (rule block_trim_free_ok [OF d k])
  let ?B1 = "xs @ (a, m, True) # rest @ zs" and ?B' = "xs @ (a, m, False) # rest @ zs"
  have m0: "m \<noteq> 0" using s1(3) k(2) by simp
  from detached_next [OF s1(2) m0] obtain j h ws where nx: "rest @ zs = (a + m + 4, j, h) # ws" .
  have p1: "phys s1 ?B1" by (rule detached_phys [OF s1(2)])
  note g1 = phys_geom [OF p1]
  obtain s' where s': "block_mark_as_used (W a) s1 = Some s'"
      "phys s' (xs @ (a, m, False) # (a + m + 4, j, h) # ws)" "differ {a + 4, a + m + 4 + 4} s1 s'"
    using p1 unfolding nx by (rule block_mark_as_used_phys)
  have p': "phys s' ?B'" using s'(2) by (simp add: nx)
  have in1: "(a, m, True) \<in> set ?B1" by simp
  have S: "y \<in> {a + 4..<a + m + 8} \<or> (\<exists>b k h. (b, k, h) \<in> set ?B1 \<and> y = b + 4)"
    if "y \<in> {a + 4, a + m + 4 + 4}" for y
  proof -
    have "y \<in> {a + 4..<a + m + 8} \<or> y = a + m + 4 + 4" using that by auto
    moreover have "(a + m + 4, j, h) \<in> set ?B1" by (simp add: nx)
    ultimately show ?thesis by blast
  qed
  have F: "frees ?B' - {} = frees ?B1 - {(a, m)}" using frees_fresh [OF g1] by auto
  have d': "detached s' ?B' {}"
    by (rule header_step [OF s1(2) p' F s'(3) span_links [OF g1 in1 _ S]]) simp_all
  have "mdiffer (adm (unat (control s1)) ?B1) s1 s'"
    using differ_mdiffer [OF s'(3)] adm_span [OF in1 S] by (rule mdiffer_mono)
  moreover have "adm (unat (control s1)) ?B1 \<subseteq> adm ?c ?B"
    using s1(5) mdiffer_control [OF s1(6)] k
      adm_replace [of "(a, m, True) # rest" "[(a, n, True)]" ?c xs zs] s1(3,4) by auto
  ultimately have md: "mdiffer (adm ?c ?B) s s'" by (rule mdiffer_trans2 [OF s1(6)])
  have kz: "W k \<noteq> 0" using k n by (simp add: W_eq_0_iff)
  show thesis
  proof (rule that [OF _ d' s1(3,4,5) md])
    show "block_prepare_used (W a) (W k) s = Some (W (a + 8), s')"
      using n kz s1(1) s'(1) by (simp add: block_prepare_used_def block_to_ptr_def block_start_offset_def W_plus_numeral)
  qed
qed

lemma coalesced_alloc:
  assumes "coalesced (xs @ (a, n, True) # zs)"
    and "rest = [] \<or> rest = [(b, k, True)]"
  shows "coalesced (xs @ (a, m, False) # rest @ zs)"
proof -
  have c: "coalesced (xs @ [(a, n, True)])" "coalesced ((a, n, True) # zs)"
    using assms(1) coalesced_append_Cons [of xs "(a, n, True)" zs] by simp_all
  then have "coalesced (xs @ [(a, m, False)])" by (simp add: coalesced_snoc)
  moreover have "coalesced ((a, m, False) # rest @ zs)"
    using c(2) assms(2) by (auto simp: coalesced_Cons)
  ultimately show ?thesis using coalesced_append_Cons [of xs "(a, m, False)" "rest @ zs"] by blast
qed

lemma tlsf_malloc_ok:
  assumes h: "heap s B" and n: "n + 3 < 2 ^ 32"
  obtains (none) "tlsf_malloc (W n) s = Some (0, s)"
      "\<forall>a m. (a, m) \<in> frees B \<longrightarrow> adjusted n = 0 \<or> \<not> class_le (cls (rounded (adjusted n))) (cls m)"
  | (some) a m s' B' where "tlsf_malloc (W n) s = Some (W (a + 8), s')" "heap s' B'"
      "useds B' = insert (a, m) (useds B)" "(a, m) \<notin> useds B" "adjusted n \<noteq> 0" "adjusted n \<le> m"
      "m < adjusted n + 16" "kept B s s'" "\<exists>j. (a, j) \<in> frees B \<and> m \<le> j"
proof -
  have d: "detached s B {}" and co: "coalesced B" using h by (simp_all add: heap_detached)
  note g = phys_geom [OF detached_phys [OF d]]
  let ?k = "adjusted n"
  have adj: "adjust_request_size (W n) ALIGN_SIZE = Some (W ?k)"
    unfolding W_def by (rule adjust_request_size_eq [OF n])
  have k: "?k = 0 \<or> 12 \<le> ?k" "?k mod 4 = 0" "?k < 2 ^ 30" using adjusted_props [of n] by auto
  show thesis
  proof (rule block_locate_free_ok [OF d k])
    assume l: "block_locate_free (W ?k) s = Some (0, s)"
      and no: "\<forall>a m. (a, m) \<in> frees B \<longrightarrow> ?k = 0 \<or> \<not> class_le (cls (rounded ?k)) (cls m)"
    have "tlsf_malloc (W n) s = Some (0, s)"
      using adj l by (simp add: tlsf_malloc_def block_prepare_used_def)
    then show thesis by (rule none [OF _ no])
  next
    fix a m0 s1 assume l: "(a, m0) \<in> frees B" "?k \<noteq> 0" "?k \<le> m0" "block_locate_free (W ?k) s = Some (W a, s1)"
      "detached s1 B {(a, m0)}" "mdiffer (adm (unat (control s)) B) s s1"
    obtain xs zs where B: "B = xs @ (a, m0, True) # zs"
      using l(1) by (auto simp: frees_def in_set_conv_decomp)
    have k12: "12 \<le> ?k" using k(1) l(2) by simp
    obtain s' m rest where s': "block_prepare_used (W a) (W ?k) s1 = Some (W (a + 8), s')"
        "detached s' (xs @ (a, m, False) # rest @ zs) {}" "?k \<le> m" "m < ?k + 16"
        "rest = [] \<and> m = m0 \<or> rest = [(a + ?k + 4, m0 - ?k - 4, True)] \<and> m = ?k \<and> ?k + 16 \<le> m0"
        "mdiffer (adm (unat (control s1)) (xs @ (a, m0, True) # zs)) s1 s'"
      by (rule block_prepare_used_ok [OF l(5) [unfolded B] k(2) k12 l(3)])
    let ?B' = "xs @ (a, m, False) # rest @ zs"
    have "coalesced ?B'" by (rule coalesced_alloc [OF co [unfolded B]]) (use s'(5) in auto)
    with s'(2) have h': "heap s' ?B'" by (simp add: heap_detached)
    have "tlsf_malloc (W n) s = Some (W (a + 8), s')" using adj l(4) s'(1) by (simp add: tlsf_malloc_def)
    moreover have "useds ?B' = insert (a, m) (useds B)" using s'(3,5) k12 by (auto simp: B)
    moreover have "(a, m) \<notin> useds B" using useds_fresh [OF g [unfolded B]] by (auto simp: B)
    moreover have "kept B s s'"
    proof (rule keptI [OF g])
      show "mdiffer (adm (unat (control s)) B) s s'"
        using mdiffer_trans2 [OF l(6) s'(6)] mdiffer_control [OF l(6)] by (simp add: B)
    qed
    moreover have "\<exists>j. (a, j) \<in> frees B \<and> m \<le> j" using l(1,3) s'(5) by auto
    ultimately show thesis using some [of a s' ?B' m] h' l(2) s'(3,4) by blast
  qed
qed
section \<open>Release steps\<close>

lemma last_free_snoc:
  assumes "last_free False xs"
  obtains ys b k where "xs = ys @ [(b, k, True)]"
proof (cases xs rule: rev_exhaust)
  case (snoc ys x)
  then show thesis using assms that [of ys] by (cases x) auto
qed (use assms in simp)

text \<open>Absorbing one detached free block into the one before it.\<close>

lemma absorb_step:
  assumes d: "detached s (xs @ (b, k, True) # (a, n, True) # zs) {(b, k), (a, n)}"
  obtains s' where "block_absorb (W b) (W a) s = Some (W b, s')"
    "detached s' (xs @ (b, k + n + 4, True) # zs) {(b, k + n + 4)}"
    "mdiffer (adm (unat (control s)) (xs @ (b, k, True) # (a, n, True) # zs)) s s'"
proof -
  let ?B = "xs @ (b, k, True) # (a, n, True) # zs" and ?B' = "xs @ (b, k + n + 4, True) # zs"
  have p: "phys s ?B" by (rule detached_phys [OF d])
  note g = phys_geom [OF p]
  have g2: "geom (unat (control s)) ((xs @ [(b, k, True)]) @ (a, n, True) # zs)" using g by simp
  have k0: "k \<noteq> 0" using phys_block(3) [OF p] by auto
  note q = phys_pair [OF p k0]
  obtain s' where s': "block_absorb (W b) (W a) s = Some (W b, s')" "phys s' ?B'" "differ {b + 4, a + n + 4} s s'"
    by (rule block_absorb_phys [OF p])
  have inB: "(a, n, True) \<in> set ?B" "(b, k, True) \<in> set ?B" by simp_all
  have S: "y \<in> {a + 4..<a + n + 8} \<or> (\<exists>b k h. (b, k, h) \<in> set ?B \<and> y = b + 4)"
    if "y \<in> {b + 4, a + n + 4}" for y
  proof -
    have "y = b + 4 \<or> y \<in> {a + 4..<a + n + 8}" using that q by auto
    then show ?thesis using inB(2) by blast
  qed
  have F: "frees ?B' - {(b, k + n + 4)} = frees ?B - {(b, k), (a, n)}"
    using frees_fresh [OF g] frees_fresh [OF g2] by auto
  have "detached s' ?B' {(b, k + n + 4)}"
    by (rule header_step [OF d s'(2) F s'(3) span_links [OF g inB(1) _ S]]) simp_all
  moreover have "mdiffer (adm (unat (control s)) ?B) s s'"
    using differ_mdiffer [OF s'(3)] adm_span [OF inB(1) S] by (rule mdiffer_mono)
  ultimately show thesis by (intro that [OF s'(1)])
qed

lemma adm_absorb:
  assumes "geom c (xs @ (b, k, True) # (a, n, True) # zs)"
  shows "adm c (xs @ (b, k + n + 4, True) # zs) \<subseteq> adm c (xs @ (b, k, True) # (a, n, True) # zs)"
proof -
  have "k \<noteq> 0" using geom_mid(1) [OF assms] by auto
  then have "a = b + k + 4" using geom_next [OF assms] by auto
  then have "\<Union> (cells ` set [(b, k + n + 4, True)]) \<subseteq> \<Union> (cells ` set [(b, k, True), (a, n, True)])" by auto
  from adm_replace [OF this, of c xs zs] show ?thesis by simp
qed

lemma block_merge_prev_ok:
  assumes d: "detached s (xs @ (a, n, True) # zs) {(a, n)}" and co: "coalesced xs"
  obtains s' ys b k where "block_merge_prev (W a) s = Some (W b, s')"
    "detached s' (ys @ (b, k, True) # zs) {(b, k)}" "coalesced (ys @ [(b, k, True)])" "useds ys = useds xs"
    "mdiffer (adm (unat (control s)) (xs @ (a, n, True) # zs)) s s'"
    "adm (unat (control s)) (ys @ (b, k, True) # zs) \<subseteq> adm (unat (control s)) (xs @ (a, n, True) # zs)"
proof -
  have p: "phys s (xs @ (a, n, True) # zs)" by (rule detached_phys [OF d])
  note b = phys_block [OF p]
  have n: "n mod 4 = 0" "n < 2 ^ 32" using b(3) by auto
  have pf: "block_is_prev_free s (W a) = last_free False xs" by (rule header_ops(3) [OF b(1) n])
  show thesis
  proof (cases "last_free False xs")
    case False
    then show thesis
      using that [of a s xs n] d pf co by (simp add: block_merge_prev_def coalesced_snoc)
  next
    case True
    obtain ys c k where xs: "xs = ys @ [(c, k, True)]" by (rule last_free_snoc [OF True])
    let ?B = "ys @ (c, k, True) # (a, n, True) # zs"
    have p2: "phys s ?B" using p by (simp add: xs)
    note g = phys_geom [OF p2]
    have k0: "k \<noteq> 0" using phys_block(3) [OF p2] by auto
    note q = phys_pair [OF p2 k0]
    have cc: "c < 2 ^ 32" "0 < c" using phys_block(3) [OF p2] by auto
    have pr: "block_prev s (W a) = Some (W c)" using pf True q(11) by (simp add: block_prev_def)
    have fr: "block_is_free s (W c)" using header_ops(2) [OF q(9)] q by simp
    have d2: "detached s ?B {(a, n)}" using d by (simp add: xs)
    have "(c, k) \<noteq> (a, n)" using q by auto
    then have mem: "(c, k) \<in> frees ?B - {(a, n)}" by simp
    obtain s1 where s1: "remove_free_block (W c) (int (fst (cls k))) (int (snd (cls k))) s = Some s1"
        "block_remove (W c) s = Some s1" "detached s1 ?B (insert (c, k) {(a, n)})" "mdiffer (adm (unat (control s)) ?B) s s1"
      by (rule remove_step [OF d2 mem])
    obtain s' where s': "block_absorb (W c) (W a) s1 = Some (W c, s')"
        "detached s' (ys @ (c, k + n + 4, True) # zs) {(c, k + n + 4)}" "mdiffer (adm (unat (control s1)) ?B) s1 s'"
      by (rule absorb_step [OF s1(3)])
    show thesis
    proof (rule that [OF _ s'(2)])
      show "block_merge_prev (W a) s = Some (W c, s')"
        using pf True pr cc fr s1(2) s'(1) by (simp add: block_merge_prev_def W_eq_0_iff)
      show "coalesced (ys @ [(c, k + n + 4, True)])" using co by (simp add: xs coalesced_snoc)
      show "mdiffer (adm (unat (control s)) (xs @ (a, n, True) # zs)) s s'"
        using mdiffer_trans2 [OF s1(4) s'(3)] mdiffer_control [OF s1(4)] by (simp add: xs)
      show "adm (unat (control s)) (ys @ (c, k + n + 4, True) # zs) \<subseteq> adm (unat (control s)) (xs @ (a, n, True) # zs)"
        using adm_absorb [OF g] by (simp add: xs)
    qed (simp add: xs)
  qed
qed

lemma block_merge_next_ok:
  assumes d: "detached s (xs @ (a, n, True) # zs) {(a, n)}" and co: "coalesced zs"
  obtains s' m ys where "block_merge_next (W a) s = Some (W a, s')"
    "detached s' (xs @ (a, m, True) # ys) {(a, m)}" "coalesced ((a, m, True) # ys)" "useds ys = useds zs"
    "mdiffer (adm (unat (control s)) (xs @ (a, n, True) # zs)) s s'"
    "adm (unat (control s)) (xs @ (a, m, True) # ys) \<subseteq> adm (unat (control s)) (xs @ (a, n, True) # zs)"
proof -
  have n0: "n \<noteq> 0" using phys_block(3) [OF detached_phys [OF d]] by auto
  from detached_next [OF d n0] obtain k h ys where zs: "zs = (a + n + 4, k, h) # ys" .
  let ?b = "a + n + 4"
  let ?B = "xs @ (a, n, True) # (?b, k, h) # ys"
  have dB: "detached s ?B {(a, n)}" using d by (simp add: zs)
  have p: "phys s ?B" by (rule detached_phys [OF dB])
  note q = phys_pair [OF p n0]
  have nx: "block_next s (W a) = Some (W ?b)" using header_ops(5) [OF q(9)] q n0 by simp
  have nz: "W ?b \<noteq> 0" using q by (simp add: W_eq_0_iff)
  have fr: "block_is_free s (W ?b) = h" using header_ops(2) [OF q(10)] q by simp
  have nl: "\<not> block_is_last s (W a)" using header_ops(4) [OF q(9)] q n0 by simp
  show thesis
  proof (cases h)
    case False
    then show thesis
      using that [of s n zs] d nx nz fr co by (simp add: block_merge_next_def zs)
  next
    case True
    have p2: "phys s (xs @ (a, n, True) # (?b, k, True) # ys)" using p True by simp
    have d2: "detached s (xs @ (a, n, True) # (?b, k, True) # ys) {(a, n)}" using dB True by simp
    have mem: "(?b, k) \<in> frees (xs @ (a, n, True) # (?b, k, True) # ys) - {(a, n)}" by simp
    obtain s1 where s1: "remove_free_block (W ?b) (int (fst (cls k))) (int (snd (cls k))) s = Some s1"
        "block_remove (W ?b) s = Some s1" "detached s1 (xs @ (a, n, True) # (?b, k, True) # ys) (insert (?b, k) {(a, n)})"
        "mdiffer (adm (unat (control s)) (xs @ (a, n, True) # (?b, k, True) # ys)) s s1"
      by (rule remove_step [OF d2 mem])
    have "insert (?b, k) {(a, n)} = {(a, n), (?b, k)}" by auto
    with s1(3) have d1: "detached s1 (xs @ (a, n, True) # (?b, k, True) # ys) {(a, n), (?b, k)}" by simp
    obtain s' where s': "block_absorb (W a) (W ?b) s1 = Some (W a, s')"
        "detached s' (xs @ (a, n + k + 4, True) # ys) {(a, n + k + 4)}"
        "mdiffer (adm (unat (control s1)) (xs @ (a, n, True) # (?b, k, True) # ys)) s1 s'"
      by (rule absorb_step [OF d1])
    show thesis
    proof (rule that [OF _ s'(2)])
      show "block_merge_next (W a) s = Some (W a, s')"
        using nx nz fr True nl s1(2) s'(1) by (simp add: block_merge_next_def)
      show "coalesced ((a, n + k + 4, True) # ys)" using co True by (cases ys) (auto simp: zs)
      show "mdiffer (adm (unat (control s)) (xs @ (a, n, True) # zs)) s s'"
        using mdiffer_trans2 [OF s1(4) s'(3)] mdiffer_control [OF s1(4)] True by (simp add: zs)
      show "adm (unat (control s)) (xs @ (a, n + k + 4, True) # ys) \<subseteq> adm (unat (control s)) (xs @ (a, n, True) # zs)"
        using adm_absorb [OF phys_geom [OF p2]] True by (simp add: zs)
    qed (use True in \<open>simp add: zs\<close>)
  qed
qed

lemma mark_free_step:
  assumes d: "detached s (xs @ (a, n, False) # zs) D" and n: "n \<noteq> 0" and D: "\<And>k. (a, k) \<notin> D"
  obtains s' where "block_mark_as_free (W a) s = Some s'" "detached s' (xs @ (a, n, True) # zs) (insert (a, n) D)"
    "mdiffer (adm (unat (control s)) (xs @ (a, n, True) # zs)) s s'"
proof -
  let ?B = "xs @ (a, n, False) # zs" and ?B' = "xs @ (a, n, True) # zs"
  have p: "phys s ?B" by (rule detached_phys [OF d])
  note g = phys_geom [OF p]
  from detached_next [OF d n] obtain j h ws where zs: "zs = (a + n + 4, j, h) # ws" .
  obtain s' where s': "block_mark_as_free (W a) s = Some s'"
      "phys s' (xs @ (a, n, True) # (a + n + 4, j, h) # ws)" "differ {a + 4, a + n + 4, a + n + 4 + 4} s s'"
    using p unfolding zs by (rule block_mark_as_free_phys [OF _ n])
  have p': "phys s' ?B'" using s'(2) by (simp add: zs)
  have S: "y \<in> {a + 4..<a + n + 8} \<or> (\<exists>b k h. (b, k, h) \<in> set B \<and> y = b + 4)"
    if "y \<in> {a + 4, a + n + 4, a + n + 4 + 4}" and "(a + n + 4, j, h) \<in> set B" for y B
  proof -
    have "y \<in> {a + 4..<a + n + 8} \<or> y = a + n + 4 + 4" using that(1) n by auto
    then show ?thesis using that(2) by blast
  qed
  have inB: "(a, n, False) \<in> set ?B" "(a, n, True) \<in> set ?B'" "(a + n + 4, j, h) \<in> set ?B" "(a + n + 4, j, h) \<in> set ?B'"
    by (simp_all add: zs)
  have F: "frees ?B' - insert (a, n) D = frees ?B - D" using frees_fresh [OF g] D by auto
  have "detached s' ?B' (insert (a, n) D)"
    by (rule header_step [OF d p' F s'(3) span_links [OF g inB(1) _ S [OF _ inB(3)]]]) simp_all
  moreover have "mdiffer (adm (unat (control s)) ?B') s s'"
    using differ_mdiffer [OF s'(3)] adm_span [OF inB(2) S [OF _ inB(4)]] by (rule mdiffer_mono)
  ultimately show thesis by (intro that [OF s'(1)])
qed

lemma used_block:
  assumes "phys s B" and "(a, n) \<in> useds B"
  obtains xs zs where "B = xs @ (a, n, False) # zs" "n \<noteq> 0" "block_size s (W a) = W n" "\<not> block_is_free s (W a)"
    "W (a + 8) \<noteq> 0" "block_from_ptr (W (a + 8)) = W a" "12 \<le> n" "n mod 4 = 0" "n < 2 ^ 30"
proof -
  obtain xs zs where B: "B = xs @ (a, n, False) # zs" "n \<noteq> 0"
    using assms(2) by (auto simp: useds_def in_set_conv_decomp)
  note b = phys_block [OF assms(1) [unfolded B(1)]]
  have n: "n mod 4 = 0" "12 \<le> n" "a + n + 16 \<le> 2 ^ 30" using b(3) B(2) by auto
  show thesis
  proof (rule that [OF B])
    show "block_size s (W a) = W n" "\<not> block_is_free s (W a)" using header_ops(1,2) [OF b(1) n(1)] n by auto
    show "W (a + 8) \<noteq> 0" using n by (simp add: W_eq_0_iff)
    show "block_from_ptr (W (a + 8)) = W a" by (simp add: block_from_ptr_def block_start_offset_def W_add)
  qed (use n in auto)
qed

lemma tlsf_free_ok:
  assumes h: "heap s B" and a: "(a, n) \<in> useds B"
  obtains s' B' where "tlsf_free (W (a + 8)) s = Some s'" "heap s' B'" "useds B' = useds B - {(a, n)}" "kept B' s s'"
proof -
  have d: "detached s B {}" and co: "coalesced B" using h by (simp_all add: heap_detached)
  let ?c = "unat (control s)"
  obtain xs zs where B: "B = xs @ (a, n, False) # zs" "n \<noteq> 0" "block_size s (W a) = W n" "\<not> block_is_free s (W a)"
      "W (a + 8) \<noteq> 0" "block_from_ptr (W (a + 8)) = W a" "12 \<le> n" "n mod 4 = 0" "n < 2 ^ 30"
    by (rule used_block [OF detached_phys [OF d] a])
  have co2: "coalesced xs" "coalesced zs"
    using co coalesced_append_Cons [of xs "(a, n, False)" zs] by (auto simp: B(1) coalesced_snoc coalesced_Cons)
  obtain s1 where s1: "block_mark_as_free (W a) s = Some s1" "detached s1 (xs @ (a, n, True) # zs) (insert (a, n) {})"
      "mdiffer (adm ?c (xs @ (a, n, True) # zs)) s s1"
    by (rule mark_free_step [OF d [unfolded B(1)] B(2)]) auto
  let ?A = "adm ?c (xs @ (a, n, True) # zs)"
  note c1 = mdiffer_control [OF s1(3)]
  obtain s2 ys b k where s2: "block_merge_prev (W a) s1 = Some (W b, s2)"
      "detached s2 (ys @ (b, k, True) # zs) {(b, k)}" "coalesced (ys @ [(b, k, True)])" "useds ys = useds xs"
      "mdiffer (adm (unat (control s1)) (xs @ (a, n, True) # zs)) s1 s2"
      "adm (unat (control s1)) (ys @ (b, k, True) # zs) \<subseteq> adm (unat (control s1)) (xs @ (a, n, True) # zs)"
    by (rule block_merge_prev_ok [OF s1(2) co2(1)])
  note c2 = mdiffer_control [OF s2(5), unfolded c1]
  obtain s3 m ws where s3: "block_merge_next (W b) s2 = Some (W b, s3)"
      "detached s3 (ys @ (b, m, True) # ws) {(b, m)}" "coalesced ((b, m, True) # ws)" "useds ws = useds zs"
      "mdiffer (adm (unat (control s2)) (ys @ (b, k, True) # zs)) s2 s3"
      "adm (unat (control s2)) (ys @ (b, m, True) # ws) \<subseteq> adm (unat (control s2)) (ys @ (b, k, True) # zs)"
    by (rule block_merge_next_ok [OF s2(2) co2(2)])
  note c3 = mdiffer_control [OF s3(5), unfolded c2]
  let ?B' = "ys @ (b, m, True) # ws"
  obtain s' where s': "block_insert (W b) s3 = Some s'" "detached s' ?B' ({(b, m)} - {(b, m)})"
      "mdiffer (adm (unat (control s3)) ?B') s3 s'"
    by (rule insert_step [OF s3(2)]) auto
  have "coalesced ?B'"
    using s2(3) s3(3) coalesced_append_Cons [of ys "(b, m, True)" ws] by (simp add: coalesced_snoc)
  with s'(2) have h': "heap s' ?B'" by (simp add: heap_detached)
  have ex: "tlsf_free (W (a + 8)) s = Some s'"
    using B(4,5,6) s1(1) s2(1) s3(1) s'(1) by (simp add: tlsf_free_def)
  have u: "useds ?B' = useds B - {(a, n)}"
    using s2(4) s3(4) useds_fresh [OF phys_geom [OF detached_phys [OF d [unfolded B(1)]]]] by (auto simp: B(1))
  have "mdiffer ?A s s'"
    using mdiffer_trans2 [OF mdiffer_trans2 [OF mdiffer_trans2 [OF s1(3) s2(5)] s3(5)] s'(3)] s2(6) s3(6) c1 c2 c3
    by auto
  from keptI [OF _ this] have "kept (xs @ (a, n, True) # zs) s s'"
    using phys_geom [OF detached_phys [OF s1(2)]] c1 by simp
  then have "kept ?B' s s'" using s2(4) s3(4) by (simp add: kept_def)
  with ex h' u show thesis by (rule that)
qed
section \<open>Pools\<close>

lemma chain_append: "chain xs \<Longrightarrow> chain ys \<Longrightarrow> chain (xs @ ys)"
proof (induction xs rule: chain.induct)
  case (2 a n f)
  then show ?case by (cases ys) auto
qed auto

lemma control_construct_heap:
  assumes "control s = W m" and "0 < m" and "m mod 4 = 0" and "m + 3188 \<le> 2 ^ 30"
  shows "heap (control_construct s) []" and "control (control_construct s) = W m"
proof -
  let ?s = "control_construct s"
  have u: "unat (control s) = m" using assms by (simp add: unat_W)
  have f: "control ?s = control s" "fl_bitmap ?s = 0" "sl_bitmap ?s = replicate 24 0"
      "blocks ?s = replicate 24 (replicate 32 (control s))"
    by (simp_all add: control_construct_def Let_def)
  then show "control ?s = W m" using assms(1) by simp
  have "lists_ok ?s (\<lambda>_. [])"
    unfolding lists_ok_def Let_def f using nth_replicate by (simp add: nth_replicate)
  then have "lists ?s {}" unfolding lists_def holds_def by (intro exI [of _ "\<lambda>_. []"]) simp
  moreover have "phys ?s []" using assms u by (simp add: phys_def geom_def f)
  ultimately show "heap ?s []" by (simp add: heap_def)
qed

text \<open>The blocks of a new pool of \<open>n\<close> payload bytes at address \<open>m\<close>, and that it has room there.\<close>

definition pool_blocks :: "nat \<Rightarrow> nat \<Rightarrow> blk list" where
  "pool_blocks m n = [(m - 4, n, True), (m + n, 0, False)]"

definition room :: "nat \<Rightarrow> blk list \<Rightarrow> nat \<Rightarrow> nat \<Rightarrow> bool" where
  "room c B m k \<longleftrightarrow> 4 < m \<and> m + k + 16 \<le> 2 ^ 30 \<and> (c + 3188 \<le> m \<or> m + k \<le> c) \<and>
     (\<forall>(b, n, f) \<in> set B. m + k \<le> b + 4 \<or> b + n + 8 \<le> m)"

definition pool_bytes :: "nat \<Rightarrow> nat" where
  "pool_bytes k = (k - 8) div 4 * 4"

lemma pool_bytes_props: "pool_bytes k mod 4 = 0" "8 \<le> k \<Longrightarrow> pool_bytes k + 8 \<le> k" "8 \<le> k \<Longrightarrow> k < pool_bytes k + 12"
  unfolding pool_bytes_def by presburger+

lemma geom_pool:
  assumes g: "geom c B" and r: "room c B m k" and m: "m mod 4 = 0" and k: "8 \<le> k" "12 \<le> pool_bytes k"
  shows "geom c (B @ pool_blocks m (pool_bytes k))"
proof -
  let ?n = "pool_bytes k"
  note n = pool_bytes_props(1) [of k] pool_bytes_props(2) [OF k(1)]
  have m4: "(m - 4) mod 4 = 0" using m r unfolding room_def by presburger
  have mn: "(m + ?n) mod 4 = 0" using m n(1) by presburger
  have ch: "chain (B @ pool_blocks m ?n)"
    using g r by (intro chain_append) (auto simp: geom_def pool_blocks_def room_def)
  have ap: "apart x y" if x: "x \<in> set B" and y: "y \<in> set (pool_blocks m ?n)" for x y
  proof -
    obtain b j f where xx: "x = (b, j, f)" by (cases x)
    have "m + k \<le> b + 4 \<or> b + j + 8 \<le> m" using r x unfolding room_def xx by auto
    then show ?thesis using y n(2) by (auto simp: xx pool_blocks_def)
  qed
  have "sorted_wrt apart (pool_blocks m ?n)" using r by (simp add: pool_blocks_def room_def)
  with ap g have so: "sorted_wrt apart (B @ pool_blocks m ?n)"
    unfolding sorted_wrt_append geom_def by blast
  have "\<forall>x \<in> set (pool_blocks m ?n). wf_blk x \<and> off_control c x"
    using r m4 mn n k(2) unfolding pool_blocks_def room_def by auto
  with g so ch show ?thesis unfolding geom_def by auto
qed

lemma tlsf_add_pool_ok:
  assumes h: "heap s B" and r: "room (unat (control s)) B m k" and m: "m mod 4 = 0"
    and k: "8 \<le> k" "12 \<le> pool_bytes k"
  obtains s' where "tlsf_add_pool (W m) (W k) s = Some (W m, s')" "heap s' (B @ pool_blocks m (pool_bytes k))"
    "kept B s s'"
proof -
  let ?n = "pool_bytes k" and ?c = "unat (control s)" and ?a = "m - 4"
  let ?B' = "B @ pool_blocks m ?n"
  have p: "phys s B" and l: "lists s (frees B)" and co: "coalesced B" using h by (simp_all add: heap_def)
  note g = phys_geom [OF p]
  note g' = geom_pool [OF g r m k]
  note n = pool_bytes_props(1) [of k] pool_bytes_props(2) [OF k(1)]
  have lim: "4 < m" "m + k + 16 \<le> 2 ^ 30" using r by (simp_all add: room_def)
  then have lims: "m < 2 ^ 32" "k < 2 ^ 32" "?n < 2 ^ 32" "?a + 4 = m" "m + ?n + 8 < 2 ^ 32" using n by auto
  have ad: "align_down (W k - tlsf_pool_overhead) ALIGN_SIZE = Some (W ?n)"
  proof -
    have "W k - tlsf_pool_overhead = W (k - 8)"
      using k(1) by (simp add: tlsf_pool_overhead_def block_header_overhead_def W_diff)
    moreover have "k - 8 < 2 ^ 32" using lims by simp
    ultimately show ?thesis by (simp only: W_def pool_bytes_def align_down_4)
  qed
  have al: "W m mod ALIGN_SIZE = 0"
    using m lims by (simp add: ALIGN_SIZE_def word_unat_eq_iff unat_W unat_mod_distrib)
  have bd: "\<not> (W ?n < block_size_min \<or> block_size_max < W ?n)"
    using k(2) n lim W_less_iff [of ?n 12] W_less_iff [of "2 ^ 30" ?n] lims
    by (simp add: block_size_min_def block_size_max_def)
  have b: "offset_to_block (W m) (- block_header_overhead) = W ?a"
    using lim by (simp add: offset_to_block_def block_header_overhead_def W_diff)
  let ?g0 = "bit (load s (W (?a + 4))) 0" and ?g1 = "bit (load s (W (?a + 4))) 1"
  let ?s1 = "store (W (?a + 4)) (hdr ?n ?g0 ?g1) s"
  let ?s2 = "store (W (?a + 4)) (hdr ?n True ?g1) ?s1"
  let ?s3 = "store (W (?a + 4)) (hdr ?n True False) ?s2"
  have 1: "block_set_size (W ?a) (W ?n) s = ?s1" by (rule block_set_size_eq [OF n(1)])
  have 2: "block_set_free (W ?a) ?s1 = ?s2"
    using header_ops(6) [of ?s1 ?a ?n ?g0 ?g1] n lims by simp
  have 3: "block_set_prev_used (W ?a) ?s2 = ?s3"
    using header_ops(9) [of ?s2 ?a ?n True ?g1] n lims by simp
  let ?F = "insert (?a, ?n) (frees B)"
  have F: "?F \<subseteq> frees ?B'" by (auto simp: pool_blocks_def)
  have new: "(?a, ?n) \<notin> frees B"
    using frees_fresh(1) [of ?c B ?a ?n True "[(m + ?n, 0, False)]"] g' by (simp add: pool_blocks_def)
  have inB': "(?a, ?n, True) \<in> set ?B'" by (simp add: pool_blocks_def)
  have hl: "?a + 4 \<notin> links ?c ?F" by (rule links_span [OF g' F inB']) auto
  have df3: "differ {?a + 4} s ?s3" using lims by (intro differ_store2 differ_refl) auto
  have l3: "lists ?s3 (frees B)"
    by (rule lists_frame [OF l df3 _ linkable_frees [OF g]]) (use hl in \<open>auto simp: links_def\<close>)
  have bs: "block_size ?s3 (W ?a) = W ?n"
    using header_ops(1) [of ?s3 ?a ?n True False] n lims by simp
  obtain s4 where s4: "insert_free_block (W ?a) (int (fst (cls ?n))) (int (snd (cls ?n))) ?s3 = Some s4"
      "lists s4 ?F" "mdiffer (links ?c ?F) ?s3 s4"
    by (rule lists_insert [OF l3 _ _ new prod.collapse [symmetric]]) (use linkable_frees [OF g' F] in auto)
  have bi: "block_insert (W ?a) ?s3 = Some s4"
    using bs s4(1) mapping_W [OF lims(3)] by (simp add: block_insert_def)
  have c4: "control s4 = control s" using mdiffer_control [OF s4(3)] by simp
  have h4: "load s4 (W (?a + 4)) = hdr ?n True False"
    using s4(3) hl lims by (simp add: mdiffer_def load_def)
  let ?b = "m + ?n"
  have "block_next s4 (W ?a) = Some (W (?a + ?n + 4))" using header_ops(5) [OF h4 n(1)] lims k(2) by simp
  moreover have ab: "?a + ?n + 4 = ?b" using lims by simp
  ultimately have nx: "block_link_next (W ?a) s4 = Some (W ?b, store (W ?b) (W ?a) s4)"
    by (simp add: block_link_next_def)
  let ?s5 = "store (W ?b) (W ?a) s4"
  let ?h0 = "bit (load ?s5 (W (?b + 4))) 0" and ?h1 = "bit (load ?s5 (W (?b + 4))) 1"
  let ?s6 = "store (W (?b + 4)) (hdr 0 ?h0 ?h1) ?s5"
  let ?s7 = "store (W (?b + 4)) (hdr 0 False ?h1) ?s6"
  let ?s8 = "store (W (?b + 4)) (hdr 0 False True) ?s7"
  have 6: "block_set_size (W ?b) 0 ?s5 = ?s6" using block_set_size_eq [of 0 ?b ?s5] by simp
  have 7: "block_set_used (W ?b) ?s6 = ?s7" using header_ops(7) [of ?s6 ?b 0 ?h0 ?h1] lims by simp
  have 8: "block_set_prev_free (W ?b) ?s7 = ?s8" using header_ops(8) [of ?s7 ?b 0 False ?h1] lims by simp
  have ex: "tlsf_add_pool (W m) (W k) s = Some (W m, ?s8)"
    unfolding tlsf_add_pool_def Let_def b using ad al bd 1 2 3 bi nx 6 7 8 by simp
  have df8: "differ {?b, ?b + 4} s4 ?s8" using lims by (intro differ_store2 differ_refl) auto
  have S: "{?b, ?b + 4} \<inter> links ?c ?F = {}"
  proof -
    have "?b \<notin> links ?c ?F" by (rule links_span [OF g' F inB']) (use ab k(2) in auto)
    moreover have "?b + 4 \<notin> links ?c ?F"
      by (rule links_span [OF g' F, of ?b 0 False]) (auto simp: pool_blocks_def)
    ultimately show ?thesis by blast
  qed
  have l8: "lists ?s8 ?F"
    by (rule lists_frame [OF s4(2) df8]) (use S linkable_frees [OF g' F] c4 in simp_all)
  have md: "mem ?s8 (W y) = mem s (W y)" if "y < 2 ^ 32" "y \<notin> links ?c ?F" "y \<noteq> ?a + 4" "y \<noteq> ?b" "y \<noteq> ?b + 4" for y
    using that df8 s4(3) df3 by (simp add: differ_def mdiffer_def)
  have away: "x + 4 \<noteq> ?a + 4 \<and> x + 4 \<noteq> ?b \<and> x + 4 \<noteq> ?b + 4 \<and> x + j + 4 \<noteq> ?a + 4 \<and> x + j + 4 \<noteq> ?b \<and> x + j + 4 \<noteq> ?b + 4"
    if "(x, j, f) \<in> set B" for x j f
    using r that n(2) lims(4) unfolding room_def by fastforce
  have hs: "hdrs (mem s) False B" using p by (simp add: phys_def)
  have hB: "hdrs (mem ?s8) False B"
  proof (rule hdrs_cells [OF hs], intro conjI impI)
    fix x j f assume x: "(x, j, f) \<in> set B"
    then have x': "(x, j, f) \<in> set ?B'" by simp
    have xl: "x + j + 16 \<le> 2 ^ 30" using geom_in(5) [OF g x] .
    show "mem ?s8 (W (x + 4)) = mem s (W (x + 4))"
      using away [OF x] links_span [OF g' F x', of "x + 4"] xl by (intro md) auto
    show "mem ?s8 (W (x + j + 4)) = mem s (W (x + j + 4))" if f
      using away [OF x] links_span [OF g' F x', of "x + j + 4"] xl that by (intro md) auto
  qed
  have lf: "last_free False B = False"
  proof (cases B rule: rev_exhaust)
    case (snoc ys x)
    obtain b j f where x: "x = (b, j, f)" by (cases x)
    have "chain ((b, j, f) # [])" using g chain_append_Cons [of ys b j f "[]"] by (simp add: snoc x geom_def)
    then show ?thesis using geom_in(4) [OF g, of b j f] by (auto simp: snoc x)
  qed simp
  have "load ?s8 (W (?a + 4)) = hdr ?n True False" "load ?s8 (W ?b) = W ?a" "load ?s8 (W (?b + 4)) = hdr 0 False True"
    using h4 lims k(2) by auto
  then have "hdrs (mem ?s8) False ?B'"
    using hB lf ab by (simp add: hdrs_append pool_blocks_def load_def)
  then have "phys ?s8 ?B'" using g' c4 by (simp add: phys_def)
  moreover have "frees ?B' = ?F" by (auto simp: pool_blocks_def)
  moreover have "coalesced ?B'"
    using co lf coalesced_append_Cons [of B "(?a, ?n, True)" "[(m + ?n, 0, False)]"]
    by (simp add: pool_blocks_def coalesced_snoc)
  ultimately have "heap ?s8 ?B'" using l8 by (simp add: heap_def)
  moreover have "kept B s ?s8"
    unfolding kept_def
  proof (intro conjI ballI, goal_cases)
    case (2 z)
    obtain x j where z: "z = (x, j)" by (cases z)
    have x: "(x, j, False) \<in> set B" using 2 by (auto simp: useds_def z)
    have xl: "x + j + 16 \<le> 2 ^ 30" using geom_in(5) [OF g x] .
    have x': "(x, j, False) \<in> set ?B'" using x by simp
    have out: "y \<noteq> ?a + 4 \<and> y \<noteq> ?b \<and> y \<noteq> ?b + 4" if "x + 8 \<le> y" "y < x + j + 8" for y
      using r x that n(2) lims(4) unfolding room_def by fastforce
    have nin: "(x, j) \<notin> ?F"
    proof
      assume "(x, j) \<in> ?F"
      then have t: "(x, j, True) \<in> set ?B'" using F by (auto simp: frees_def)
      from geom_pairwise [OF g' x' t] show False by simp
    qed
    have "mem ?s8 (W y) = mem s (W y)" if "x + 8 \<le> y" "y < x + j + 8" for y
      using out [OF that] links_span [OF g' F x', of y] nin that xl by (intro md) auto
    then show ?case by (simp add: z)
  qed (simp add: c4)
  ultimately show thesis using ex by (intro that)
qed

end
