(* ===== verification/Tlsf_Memalign.thy ===== *)
theory Tlsf_Memalign
  imports Tlsf_Heap
begin

text \<open>
  Aligned allocation, \<open>tlsf_memalign\<close>, on the heap invariant of \<open>Tlsf_Heap\<close>: the size that is searched
  for leaves room for a gap before the aligned address, and the gap is trimmed off as a free block
  of its own.
\<close>

section \<open>Alignment to a power of two\<close>

definition up :: "nat \<Rightarrow> nat \<Rightarrow> nat" where
  "up e x = (x + 2 ^ e - 1) div 2 ^ e * 2 ^ e"

lemma up_props: "x \<le> up e x" "up e x < x + 2 ^ e" "2 ^ e dvd up e x"
proof -
  have e: "up e x = (x + 2 ^ e - 1) - (x + 2 ^ e - 1) mod 2 ^ e" by (simp add: up_def minus_mod_eq_div_mult)
  have m: "(x + 2 ^ e - 1) mod 2 ^ e < 2 ^ e" by simp
  have z: "(0 :: nat) < 2 ^ e" by simp
  show "x \<le> up e x" unfolding e using m z by linarith
  show "up e x < x + 2 ^ e" unfolding e using z by linarith
  show "2 ^ e dvd up e x" by (simp add: up_def)
qed

lemma up_least: "2 ^ e dvd y \<Longrightarrow> x \<le> y \<Longrightarrow> y < x + 2 ^ e \<Longrightarrow> up e x = y"
proof -
  assume "2 ^ e dvd y" "x \<le> y" "y < x + 2 ^ e"
  then obtain k where k: "y = 2 ^ e * k" by (auto simp: dvd_def)
  obtain d where d: "x + 2 ^ e - 1 = y + d" "d < 2 ^ e"
    using \<open>x \<le> y\<close> \<open>y < x + 2 ^ e\<close> by (intro that [of "x + 2 ^ e - 1 - y"]) auto
  then show "up e x = y" by (simp add: up_def k)
qed

lemma pow_W: "e < 32 \<Longrightarrow> W (2 ^ e) = 2 ^ e" "W (2 ^ e) - 1 = mask e"
  by (simp_all add: W_def mask_eq_exp_minus_1)

lemma pow_check: "(W (2 ^ e)) AND (W (2 ^ e) - 1) = 0"
  unfolding pow_W(2)
  by (rule bit_word_eqI) (auto simp: W_def bit_and_iff bit_mask_iff bit_exp_iff)

lemma align_W:
  assumes "x + 2 ^ e < 2 ^ 32"
  shows "(W x + (W (2 ^ e) - 1)) AND NOT (W (2 ^ e) - 1) = W (up e x)"
proof -
  let ?y = "x + 2 ^ e - 1"
  have "(1 :: nat) \<le> 2 ^ e" by (rule one_le_power) simp
  then have "1 \<le> x + 2 ^ e" by (rule trans_le_add2)
  from W_diff [OF this] have "W ?y = W (x + 2 ^ e) - 1" by (simp only: W_const)
  then have "W x + mask e = W ?y" by (simp add: W_add pow_W(2) [symmetric])
  moreover have "take_bit e (W ?y) = W (?y mod 2 ^ e)"
    unfolding W_def take_bit_of_nat by (simp only: take_bit_eq_mod)
  ultimately have "(W x + (W (2 ^ e) - 1)) AND NOT (W (2 ^ e) - 1) = W ?y - W (?y mod 2 ^ e)"
    unfolding pow_W(2) and_not_mask by simp
  also have "\<dots> = W (?y - ?y mod 2 ^ e)" by (rule W_diff [OF mod_less_eq_dividend, symmetric])
  finally show ?thesis by (simp only: up_def minus_mod_eq_div_mult)
qed

lemma align_ptr_W: "x + 2 ^ e < 2 ^ 32 \<Longrightarrow> align_ptr (W x) (W (2 ^ e)) = Some (W (up e x))"
  using align_W [of x e] pow_check [of e] by (simp add: align_ptr_def Let_def)

lemma adjust_request_size_W:
  assumes "0 < x" and "x + 2 ^ e < 2 ^ 32"
  shows "adjust_request_size (W x) (W (2 ^ e)) = Some (W (if up e x < 2 ^ 30 then max (up e x) 12 else 0))"
proof -
  have u: "up e x < 2 ^ 32" using up_props(2) [of e x] assms(2) by linarith
  have "W x \<noteq> 0" using assms by (simp add: W_eq_0_iff)
  moreover have "align_up (W x) (W (2 ^ e)) = Some (W (up e x))"
    using align_W [OF assms(2)] pow_check [of e] by (simp add: align_up_def)
  moreover have "W (up e x) < block_size_max \<longleftrightarrow> up e x < 2 ^ 30"
    using W_less_iff [OF u, of "2 ^ 30"] by (simp add: block_size_max_def)
  moreover have "max (W (up e x)) block_size_min = W (max (up e x) 12)"
    using W_le_iff [OF u, of 12] by (auto simp: block_size_min_def max_def)
  ultimately show ?thesis by (simp add: adjust_request_size_def)
qed

section \<open>Aligned allocation\<close>

text \<open>Cutting \<open>g\<close> bytes off the front of a detached free block: they become a listed free block and the
  rest, whose user area starts at \<open>a + 8 + g\<close>, stays detached.\<close>

lemma block_trim_free_leading_ok:
  assumes d: "detached s (xs @ (a, n, True) # zs) {(a, n)}" and g: "g mod 4 = 0" "16 \<le> g" "g + 16 \<le> n"
  obtains s' where "block_trim_free_leading (W a) (W g) s = Some (W (a + g), s')"
    "detached s' (xs @ (a, g - 4, True) # (a + g, n - g, True) # zs) {(a + g, n - g)}"
    "mdiffer (adm (unat (control s)) (xs @ (a, n, True) # zs)) s s'"
    "adm (unat (control s)) (xs @ (a, g - 4, True) # (a + g, n - g, True) # zs)
      \<subseteq> adm (unat (control s)) (xs @ (a, n, True) # zs)"
proof -
  let ?B = "xs @ (a, n, True) # zs" and ?c = "unat (control s)"
  let ?k = "g - 4"
  let ?B' = "xs @ (a, ?k, True) # (a + g, n - g, True) # zs"
  have p: "phys s ?B" by (rule detached_phys [OF d])
  note gm = phys_geom [OF p]
  have inB: "(a, n, True) \<in> set ?B" by simp
  have aF: "(a, n) \<in> frees ?B" by simp
  obtain us ys where b: "?B = us @ (a, n, True) # ys" "block_size s (W a) = W n" "block_is_free s (W a)"
      "W a \<noteq> 0" "12 \<le> n" "n mod 4 = 0" "n < 2 ^ 30"
    by (rule free_block [OF p aF])
  have can: "block_can_split s (W a) (W g)" using block_can_split_W [OF b(2), of g] b(7) g(3) by simp
  have k: "?k mod 4 = 0" "12 \<le> ?k" "?k + 16 \<le> n" using g by presburger+
  have r: "a + g = a + ?k + 4" "n - ?k - 4 = n - g" using g by simp_all
  have "n \<noteq> 0" using b(5) by simp
  from detached_next [OF d this] obtain j h ws where zs: "zs = (a + n + 4, j, h) # ws" .
  obtain s1 s2 s3 s4 where s: "block_split (W a) (W ?k) s = Some (W (a + g), s1)"
    "block_link_next (W a) s1 = Some (W (a + g), s2)" "block_set_prev_free (W (a + g)) s2 = s3"
    "block_set_prev_free (W (a + g)) s1 = s4" "block_link_next (W a) s4 = Some (W (a + g), s3)"
    "phys s3 (xs @ (a, ?k, True) # (a + g, n - ?k - 4, True) # (a + n + 4, j, h) # ws)"
    "differ {a + 4, a + g, a + g + 4, a + n + 4, a + n + 4 + 4} s s3"
    using p unfolding zs by (rule split_free_phys [OF _ k r(1)])
  have p3: "phys s3 ?B'" using s(6) unfolding r(2) zs .
  note g3 = phys_geom [OF p3]
  have g3': "geom (unat (control s3)) ((xs @ [(a, ?k, True)]) @ (a + g, n - g, True) # zs)" using g3 by simp
  have S: "y \<in> {a + 4..<a + n + 8} \<or> (\<exists>b k h. (b, k, h) \<in> set ?B \<and> y = b + 4)"
    if "y \<in> {a + 4, a + g, a + g + 4, a + n + 4, a + n + 4 + 4}" for y
  proof -
    have "y \<in> {a + 4..<a + n + 8} \<or> y = a + n + 4 + 4" using that g by auto
    moreover have "(a + n + 4, j, h) \<in> set ?B" by (simp add: zs)
    ultimately show ?thesis by blast
  qed
  have ne: "(a, ?k) \<noteq> (a + g, n - g)" using g by simp
  have F: "frees ?B' - {(a, ?k), (a + g, n - g)} = frees ?B - {(a, n)}"
    using frees_fresh [OF gm] frees_fresh [OF g3] frees_fresh [OF g3'] by auto
  have d3: "detached s3 ?B' {(a, ?k), (a + g, n - g)}"
    by (rule header_step [OF d p3 F s(7) span_links [OF gm inB _ S]]) simp_all
  have m3: "mdiffer (adm ?c ?B) s s3"
    using differ_mdiffer [OF s(7)] adm_span [OF inB S] by (rule mdiffer_mono)
  obtain s' where s': "block_insert (W a) s3 = Some s'" "detached s' ?B' ({(a, ?k), (a + g, n - g)} - {(a, ?k)})"
      "mdiffer (adm (unat (control s3)) ?B') s3 s'"
    by (rule insert_step [OF d3, of a ?k]) auto
  have "{(a, ?k), (a + g, n - g)} - {(a, ?k)} = {(a + g, n - g)}" using ne by auto
  with s'(2) have d': "detached s' ?B' {(a + g, n - g)}" by simp
  have "\<Union> (cells ` set [(a, ?k, True), (a + g, n - g, True)]) \<subseteq> \<Union> (cells ` set [(a, n, True)])" using g by auto
  from adm_replace [OF this, of ?c xs zs] have sub: "adm ?c ?B' \<subseteq> adm ?c ?B" by simp
  show thesis
  proof (rule that [OF _ d' _ sub])
    have "W g - block_header_overhead = W ?k" using g by (simp add: block_header_overhead_def W_diff)
    then show "block_trim_free_leading (W a) (W g) s = Some (W (a + g), s')"
      using can s s'(1) by (simp add: block_trim_free_leading_def)
    show "mdiffer (adm ?c ?B) s s'"
      using mdiffer_trans2 [OF m3 s'(3)] sub mdiffer_control [OF m3] by simp
  qed
qed
text \<open>The distance by which the block start is moved, computed over the natural numbers.\<close>

definition gap_for :: "nat \<Rightarrow> nat \<Rightarrow> nat" where
  "gap_for e x =
     (let g = up e x - x in if g \<noteq> 0 \<and> g < 16 then up e (up e x + max (16 - g) (2 ^ e)) - x else g)"

lemma up_4: "x mod 4 = 0 \<Longrightarrow> e \<le> 2 \<Longrightarrow> up e x = x"
proof (rule up_least)
  assume x: "x mod 4 = 0" and e: "e \<le> 2"
  have "(2 :: nat) ^ e dvd 2 ^ 2" using e by (rule le_imp_power_dvd)
  moreover have "4 dvd x" using x by (simp add: mod_0_imp_dvd)
  ultimately show "2 ^ e dvd x" by (simp add: dvd_trans)
qed simp_all

lemma gap_for_props:
  assumes x: "x mod 4 = 0"
  shows "2 ^ e dvd x + gap_for e x" and "gap_for e x mod 4 = 0" and "gap_for e x = 0 \<or> 16 \<le> gap_for e x"
    and "gap_for e x \<le> 2 ^ e + 12" and "e \<le> 2 \<Longrightarrow> gap_for e x = 0"
proof -
  show small: "gap_for e x = 0" if "e \<le> 2" using up_4 [OF x that] by (simp add: gap_for_def)
  let ?g = "up e x - x"
  note u = up_props [where x = x and e = e]
  show D: "2 ^ e dvd x + gap_for e x"
    using u up_props(1,3) [where x = "up e x + max (16 - ?g) (2 ^ e)" and e = e] by (simp add: gap_for_def Let_def)
  show m: "gap_for e x mod 4 = 0"
  proof (cases "e \<le> 2")
    case False
    then have "(2 :: nat) ^ 2 dvd 2 ^ e" by (intro le_imp_power_dvd) simp
    then have "4 dvd x + gap_for e x" using D by (simp add: dvd_trans)
    then show ?thesis using x by presburger
  qed (use small in simp)
  show "gap_for e x = 0 \<or> 16 \<le> gap_for e x"
    using u(1) up_props(1) [where x = "up e x + max (16 - ?g) (2 ^ e)" and e = e] by (auto simp: gap_for_def Let_def max_def)
  show "gap_for e x \<le> 2 ^ e + 12"
  proof (cases "?g \<noteq> 0 \<and> ?g < 16")
    case False
    then show ?thesis using u(2) by (auto simp: gap_for_def)
  next
    case True
    have e3: "3 \<le> e" using True up_4 [OF x] by (cases "e \<le> 2") auto
    have g4: "?g mod 4 = 0"
    proof -
      have "(2 :: nat) ^ 2 dvd 2 ^ e" using e3 by (intro le_imp_power_dvd) simp
      then have "4 dvd up e x" using u(3) by (simp add: dvd_trans)
      then show ?thesis using x u(1) by presburger
    qed
    show ?thesis
    proof (cases "e = 3")
      case e: True
      then have "?g = 4" using u(1,2) True g4 by simp presburger
      moreover have "up e (up e x + 12) = up e x + 16" using u(3) e by (intro up_least) auto
      ultimately show ?thesis using True e by (simp add: gap_for_def Let_def max_def)
    next
      case False
      then have "(2 :: nat) ^ 4 \<le> 2 ^ e" using e3 by (intro power_increasing) auto
      then have e16: "16 \<le> (2 :: nat) ^ e" by simp
      have "up e (up e x + 2 ^ e) = up e x + 2 ^ e" using u(3) by (intro up_least) auto
      then have "gap_for e x = ?g + 2 ^ e" using True e16 u(1) by (simp add: gap_for_def Let_def max_def)
      moreover have "?g \<le> 12" using True g4 by presburger
      ultimately show ?thesis by simp
    qed
  qed
qed

lemma memalign_gap:
  assumes a: "a mod 4 = 0" and lim: "a + 2 ^ (e + 2) + 64 < 2 ^ 32"
  shows "(let gap = W (up e (a + 8)) - W (a + 8)
          in if gap \<noteq> 0 \<and> gap < 16
             then align_ptr (W (up e (a + 8)) + max (16 - gap) (W (2 ^ e))) (W (2 ^ e))
               \<bind> (\<lambda>aligned. Some (aligned - W (a + 8)))
             else Some gap) = Some (W (gap_for e (a + 8)))"
proof -
  let ?x = "a + 8"
  let ?g = "up e ?x - ?x"
  note u = up_props [where x = ?x and e = e]
  have e4: "(2 :: nat) ^ (e + 2) = 4 * 2 ^ e" by (simp add: power_add)
  have g: "W (up e ?x) - W ?x = W ?g" using u(1) by (simp add: W_diff)
  have lims: "?g < 2 ^ 32" "(2 :: nat) ^ e < 2 ^ 32" using u(2) lim e4 by linarith+
  have z: "W ?g \<noteq> 0 \<longleftrightarrow> ?g \<noteq> 0" "W ?g < 16 \<longleftrightarrow> ?g < 16"
    using W_eq_0_iff [OF lims(1)] W_less_iff [OF lims(1), of 16] by simp_all
  show ?thesis
  proof (cases "?g \<noteq> 0 \<and> ?g < 16")
    case True
    let ?o = "max (16 - ?g) (2 ^ e)"
    have "?g \<le> 16" using True by linarith
    from W_diff [OF this] have "16 - W ?g = W (16 - ?g)" by (simp only: W_const)
    moreover have "max (W (16 - ?g)) (W (2 ^ e)) = W ?o"
      using W_le_iff [of "16 - ?g" "2 ^ e"] lims(2) by (simp add: max_def)
    ultimately have o: "W (up e ?x) + max (16 - W ?g) (W (2 ^ e)) = W (up e ?x + ?o)" by (simp add: W_add)
    have "?o \<le> 16 + 2 ^ e" by simp
    then have "up e ?x + ?o + 2 ^ e < 2 ^ 32" using u(2) lim e4 by linarith
    from align_ptr_W [OF this]
    have al: "align_ptr (W (up e ?x + ?o)) (W (2 ^ e)) = Some (W (up e (up e ?x + ?o)))" .
    have "?x \<le> up e (up e ?x + ?o)" using u(1) up_props(1) [where x = "up e ?x + ?o" and e = e] by linarith
    then have "W (up e (up e ?x + ?o)) - W ?x = W (gap_for e ?x)"
      using True by (simp add: gap_for_def Let_def W_diff)
    with True show ?thesis unfolding Let_def g o al using z by simp
  next
    case False
    then have "gap_for e ?x = ?g" unfolding gap_for_def Let_def by (rule if_not_P)
    moreover have "\<not> (W ?g \<noteq> 0 \<and> W ?g < 16)" using False unfolding z .
    ultimately show ?thesis unfolding Let_def g by (simp only: if_False)
  qed
qed
text \<open>The size searched for: room for the largest gap is added when the alignment is more than 4.\<close>

definition request :: "nat \<Rightarrow> nat \<Rightarrow> nat" where
  "request e k =
     (if k \<noteq> 0 \<and> 2 < e then let u = up e (k + 2 ^ e + 16) in if u < 2 ^ 30 then max u 12 else 0 else k)"

lemma request_props:
  assumes k: "k = 0 \<or> 12 \<le> k" "k mod 4 = 0" "k < 2 ^ 30"
  shows "request e k = 0 \<or> 12 \<le> request e k" and "request e k mod 4 = 0" and "request e k < 2 ^ 30"
    and "request e k \<noteq> 0 \<Longrightarrow> k \<noteq> 0"
    and "request e k \<noteq> 0 \<Longrightarrow> k + (if 2 < e then 2 ^ e + 16 else 0) \<le> request e k"
proof -
  let ?u = "up e (k + 2 ^ e + 16)"
  have u: "k + 2 ^ e + 16 \<le> ?u" "2 ^ e dvd ?u" by (rule up_props)+
  have 4: "?u mod 4 = 0" if "2 < e"
  proof -
    have "(2 :: nat) ^ 2 dvd 2 ^ e" using that by (intro le_imp_power_dvd) simp
    then have "4 dvd ?u" using u(2) by (simp add: dvd_trans)
    then show ?thesis by presburger
  qed
  show "request e k = 0 \<or> 12 \<le> request e k" "request e k < 2 ^ 30" "request e k \<noteq> 0 \<Longrightarrow> k \<noteq> 0"
    using k by (auto simp: request_def Let_def)
  show "request e k mod 4 = 0" using k(2) 4 by (auto simp: request_def Let_def max_def)
  show "request e k \<noteq> 0 \<Longrightarrow> k + (if 2 < e then 2 ^ e + 16 else 0) \<le> request e k"
    using u(1) by (auto simp: request_def Let_def max_def split: if_splits)
qed

lemma memalign_sizes:
  assumes n: "n + 3 < 2 ^ 32" and e: "e \<le> 29" and k: "k = adjusted n"
  shows "adjust_request_size (W n) ALIGN_SIZE = Some (W k)"
    and "adjust_request_size (W k + W (2 ^ e) + 16) (W (2 ^ e)) =
      Some (W (let u = up e (k + 2 ^ e + 16) in if u < 2 ^ 30 then max u 12 else 0))"
    and "ALIGN_SIZE < W (2 ^ e) \<longleftrightarrow> 2 < e" and "W k \<noteq> 0 \<longleftrightarrow> k \<noteq> 0"
proof -
  show "adjust_request_size (W n) ALIGN_SIZE = Some (W k)"
    unfolding W_def k by (rule adjust_request_size_eq [OF n])
  have e29: "(2 :: nat) ^ e \<le> 2 ^ 29" using e by (intro power_increasing) auto
  have k30: "k < 2 ^ 30" unfolding k by (rule adjusted_props)
  have "W k + W (2 ^ e) + 16 = W (k + 2 ^ e + 16)" by (simp add: W_add)
  moreover have "k + 2 ^ e + 16 + 2 ^ e < 2 ^ 32" using e29 k30 by simp
  ultimately show "adjust_request_size (W k + W (2 ^ e) + 16) (W (2 ^ e)) =
      Some (W (let u = up e (k + 2 ^ e + 16) in if u < 2 ^ 30 then max u 12 else 0))"
    using adjust_request_size_W [of "k + 2 ^ e + 16" e] by (simp add: Let_def)
  have "(2 :: nat) ^ e < 2 ^ 32" using e29 by simp
  then have "ALIGN_SIZE < W (2 ^ e) \<longleftrightarrow> (2 :: nat) ^ 2 < 2 ^ e"
    using W_less_iff [of 4 "2 ^ e"] by (simp add: ALIGN_SIZE_def)
  then show "ALIGN_SIZE < W (2 ^ e) \<longleftrightarrow> 2 < e" by (simp only: power2_less_iff)
  show "W k \<noteq> 0 \<longleftrightarrow> k \<noteq> 0" using k30 by (simp add: W_eq_0_iff)
qed

text \<open>The block found is moved to the aligned address.\<close>

lemma memalign_move:
  assumes d: "detached s (xs @ (a, n, True) # zs) {(a, n)}" and co: "coalesced (xs @ (a, n, True) # zs)"
    and k: "12 \<le> k" "k + (if 2 < e then 2 ^ e + 16 else 0) \<le> n"
  defines "g \<equiv> gap_for e (a + 8)"
  obtains s' ys where
    "(if W g \<noteq> 0 then assert_c (16 \<le> W g) \<bind> (\<lambda>_. block_trim_free_leading (W a) (W g) s) else Some (W a, s))
      = Some (W (a + g), s')"
    "detached s' (ys @ (a + g, n - g, True) # zs) {(a + g, n - g)}" "coalesced (ys @ [(a + g, n - g, False)])"
    "useds ys = useds xs" "k \<le> n - g" "mdiffer (adm (unat (control s)) (xs @ (a, n, True) # zs)) s s'"
    "adm (unat (control s)) (ys @ (a + g, n - g, True) # zs) \<subseteq> adm (unat (control s)) (xs @ (a, n, True) # zs)"
proof -
  have w: "a mod 4 = 0" "a + n + 16 \<le> 2 ^ 30" using phys_block(3) [OF detached_phys [OF d]] by auto
  have a8: "(a + 8) mod 4 = 0" using w(1) by presburger
  note gp = gap_for_props [OF a8, of e, folded g_def]
  have c: "coalesced (xs @ [(a, n, True)])"
    using co coalesced_append_Cons [of xs "(a, n, True)" zs] by simp
  have gn: "g + 16 \<le> n \<or> g = 0" "k \<le> n - g" using gp(3,4,5) k by (auto split: if_splits)
  have W0: "W g \<noteq> 0 \<longleftrightarrow> g \<noteq> 0" using gn w by (intro iffI; auto simp: W_eq_0_iff)
  show thesis
  proof (cases "g = 0")
    case True
    then show thesis
      using that [of s xs] d c gn(2) by (simp add: coalesced_snoc)
  next
    case False
    then have g: "16 \<le> g" "g + 16 \<le> n" using gp(3) gn by auto
    obtain s' where s': "block_trim_free_leading (W a) (W g) s = Some (W (a + g), s')"
        "detached s' (xs @ (a, g - 4, True) # (a + g, n - g, True) # zs) {(a + g, n - g)}"
        "mdiffer (adm (unat (control s)) (xs @ (a, n, True) # zs)) s s'"
        "adm (unat (control s)) (xs @ (a, g - 4, True) # (a + g, n - g, True) # zs)
          \<subseteq> adm (unat (control s)) (xs @ (a, n, True) # zs)"
      by (rule block_trim_free_leading_ok [OF d gp(2) g])
    have "16 \<le> W g" using W_le_iff [of 16 g] g w by simp
    moreover have "coalesced ((xs @ [(a, g - 4, True)]) @ [(a + g, n - g, False)])"
      using c by (simp only: coalesced_snoc) simp
    ultimately show thesis
      using that [of s' "xs @ [(a, g - 4, True)]"] s' W0 False gn(2) by simp
  qed
qed

text \<open>The part of the function between locating a block and preparing it.\<close>

definition memalign_place :: "u32 \<Rightarrow> u32 \<Rightarrow> tlsf \<Rightarrow> (u32 \<times> tlsf) option" where
  "memalign_place al b s = (if b \<noteq> 0 then
      align_ptr (block_to_ptr b) al \<bind> (\<lambda>aligned.
      (let gap = aligned - block_to_ptr b in if gap \<noteq> 0 \<and> gap < 16 then
         align_ptr (aligned + max (16 - gap) al) al \<bind> (\<lambda>aligned. Some (aligned - block_to_ptr b)) else Some gap)
      \<bind> (\<lambda>gap. if gap \<noteq> 0 then assert_c (16 \<le> gap) \<bind> (\<lambda>_. block_trim_free_leading b gap s) else Some (b, s)))
      else Some (b, s))"

lemma tlsf_memalign_eq:
  assumes n: "n + 3 < 2 ^ 32" and e: "e \<le> 29" and k: "k = adjusted n"
  shows "tlsf_memalign (W (2 ^ e)) (W n) s = block_locate_free (W (request e k)) s \<bind> (\<lambda>(b, s).
    memalign_place (W (2 ^ e)) b s \<bind> (\<lambda>(b, s). block_prepare_used b (W k) s))"
proof -
  note sz = memalign_sizes [OF n e k]
  have req: "(if W k \<noteq> 0 \<and> ALIGN_SIZE < W (2 ^ e)
      then W (let u = up e (k + 2 ^ e + 16) in if u < 2 ^ 30 then max u 12 else 0) else W k) = W (request e k)"
    using sz(3,4) by (simp add: request_def Let_def)
  have min: "(16 :: u32) = block_size_min + block_header_overhead" by code_simp
  show ?thesis
    unfolding tlsf_memalign_def memalign_place_def Let_def sz(1,2) bind.bind_lunit req [unfolded Let_def] min [symmetric]
    by (simp only: assert_c_True bind.bind_lunit simp_thms cong: if_cong)
qed

lemma memalign_place_ok:
  assumes d: "detached s (xs @ (a, n, True) # zs) {(a, n)}" and co: "coalesced (xs @ (a, n, True) # zs)"
    and k: "12 \<le> k" "k + (if 2 < e then 2 ^ e + 16 else 0) \<le> n" and e: "e \<le> 29"
  defines "g \<equiv> gap_for e (a + 8)"
  obtains s' ys where "memalign_place (W (2 ^ e)) (W a) s = Some (W (a + g), s')"
    "detached s' (ys @ (a + g, n - g, True) # zs) {(a + g, n - g)}" "coalesced (ys @ [(a + g, n - g, False)])"
    "useds ys = useds xs" "k \<le> n - g" "mdiffer (adm (unat (control s)) (xs @ (a, n, True) # zs)) s s'"
    "adm (unat (control s)) (ys @ (a + g, n - g, True) # zs) \<subseteq> adm (unat (control s)) (xs @ (a, n, True) # zs)"
    "2 ^ e dvd a + g + 8"
proof -
  have w: "a mod 4 = 0" "a + n + 16 \<le> 2 ^ 30" "W a \<noteq> 0" using phys_block(3,4) [OF detached_phys [OF d]] by auto
  have e29: "(2 :: nat) ^ (e + 2) \<le> 2 ^ 31" using e by (intro power_increasing) auto
  obtain s2 ys where s2:
    "(if W g \<noteq> 0 then assert_c (16 \<le> W g) \<bind> (\<lambda>_. block_trim_free_leading (W a) (W g) s) else Some (W a, s))
      = Some (W (a + g), s2)"
    "detached s2 (ys @ (a + g, n - g, True) # zs) {(a + g, n - g)}" "coalesced (ys @ [(a + g, n - g, False)])"
    "useds ys = useds xs" "k \<le> n - g" "mdiffer (adm (unat (control s)) (xs @ (a, n, True) # zs)) s s2"
    "adm (unat (control s)) (ys @ (a + g, n - g, True) # zs) \<subseteq> adm (unat (control s)) (xs @ (a, n, True) # zs)"
    unfolding g_def by (rule memalign_move [OF d co k])
  have ptr: "block_to_ptr (W a) = W (a + 8)" by (simp add: block_to_ptr_def block_start_offset_def W_add)
  have "a + 8 + 2 ^ e < 2 ^ 32" using w e29 by (simp add: power_add)
  note al = align_ptr_W [OF this]
  have "a + 2 ^ (e + 2) + 64 < 2 ^ 32" using w e29 by simp
  note gap = memalign_gap [OF w(1) this, folded g_def]
  have "memalign_place (W (2 ^ e)) (W a) s = Some (W (a + g), s2)"
    unfolding memalign_place_def ptr al bind.bind_lunit gap using w(3) s2(1) by simp
  moreover have "2 ^ e dvd a + g + 8"
  proof -
    have "(a + 8) mod 4 = 0" using w(1) by presburger
    from gap_for_props(1) [OF this, of e] show ?thesis by (simp add: g_def ac_simps)
  qed
  ultimately show thesis using that s2(2-) by blast
qed

lemma tlsf_memalign_ok:
  assumes h: "heap s B" and n: "n + 3 < 2 ^ 32" and e: "e \<le> 29"
  obtains (none) "tlsf_memalign (W (2 ^ e)) (W n) s = Some (0, s)"
      "\<forall>a m. (a, m) \<in> frees B \<longrightarrow> request e (adjusted n) = 0 \<or> \<not> class_le (cls (rounded (request e (adjusted n)))) (cls m)"
  | (some) a m s' B' where "tlsf_memalign (W (2 ^ e)) (W n) s = Some (W (a + 8), s')" "2 ^ e dvd a + 8" "heap s' B'"
      "useds B' = insert (a, m) (useds B)" "(a, m) \<notin> useds B" "adjusted n \<noteq> 0" "adjusted n \<le> m" "kept B s s'"
proof -
  have d: "detached s B {}" and co: "coalesced B" using h by (simp_all add: heap_detached)
  note gm = phys_geom [OF detached_phys [OF d]]
  define k where "k = adjusted n"
  have k: "k = 0 \<or> 12 \<le> k" "k mod 4 = 0" "k < 2 ^ 30" using adjusted_props [of n] by (auto simp: k_def)
  note rq = request_props [OF k, of e] and eq = tlsf_memalign_eq [OF n e k_def]
  let ?al = "W (2 ^ e) :: u32" and ?r = "request e k"
  show thesis
  proof (rule block_locate_free_ok [OF d rq(1-3)])
    assume l: "block_locate_free (W ?r) s = Some (0, s)"
      and no: "\<forall>a m. (a, m) \<in> frees B \<longrightarrow> ?r = 0 \<or> \<not> class_le (cls (rounded ?r)) (cls m)"
    have "tlsf_memalign ?al (W n) s = Some (0, s)"
      unfolding eq l by (simp add: memalign_place_def block_prepare_used_def)
    then show thesis by (rule none) (use no in \<open>simp add: k_def\<close>)
  next
    fix a m0 s1 assume l: "(a, m0) \<in> frees B" "?r \<noteq> 0" "?r \<le> m0" "block_locate_free (W ?r) s = Some (W a, s1)"
      "detached s1 B {(a, m0)}" "mdiffer (adm (unat (control s)) B) s s1"
    obtain xs zs where B: "B = xs @ (a, m0, True) # zs" using l(1) by (auto simp: frees_def in_set_conv_decomp)
    have k12: "12 \<le> k" "k + (if 2 < e then 2 ^ e + 16 else 0) \<le> m0" using rq(4,5) l(2,3) k(1) by auto
    let ?g = "gap_for e (a + 8)"
    obtain s2 ys where s2: "memalign_place ?al (W a) s1 = Some (W (a + ?g), s2)"
      "detached s2 (ys @ (a + ?g, m0 - ?g, True) # zs) {(a + ?g, m0 - ?g)}" "coalesced (ys @ [(a + ?g, m0 - ?g, False)])"
      "useds ys = useds xs" "k \<le> m0 - ?g" "mdiffer (adm (unat (control s1)) (xs @ (a, m0, True) # zs)) s1 s2"
      "adm (unat (control s1)) (ys @ (a + ?g, m0 - ?g, True) # zs) \<subseteq> adm (unat (control s1)) (xs @ (a, m0, True) # zs)"
      "2 ^ e dvd a + ?g + 8"
      by (rule memalign_place_ok [OF l(5) [unfolded B] co [unfolded B] k12 e])
    obtain s' m rest where s': "block_prepare_used (W (a + ?g)) (W k) s2 = Some (W (a + ?g + 8), s')"
        "detached s' (ys @ (a + ?g, m, False) # rest @ zs) {}" "k \<le> m" "m < k + 16"
        "rest = [] \<and> m = m0 - ?g \<or> rest = [(a + ?g + k + 4, m0 - ?g - k - 4, True)] \<and> m = k \<and> k + 16 \<le> m0 - ?g"
        "mdiffer (adm (unat (control s2)) (ys @ (a + ?g, m0 - ?g, True) # zs)) s2 s'"
      by (rule block_prepare_used_ok [OF s2(2) k(2) k12(1) s2(5)])
    let ?B' = "ys @ (a + ?g, m, False) # rest @ zs"
    have cz: "coalesced zs" "zs = [] \<or> \<not> snd (snd (hd zs))"
      using co coalesced_append_Cons [of xs "(a, m0, True)" zs] by (auto simp: B coalesced_Cons)
    have "coalesced ?B'"
      using s2(3) s'(5) cz coalesced_append_Cons [of ys "(a + ?g, m, False)" "rest @ zs"]
      by (auto simp: coalesced_snoc coalesced_Cons)
    with s'(2) have h': "heap s' ?B'" by (simp add: heap_detached)
    have run: "tlsf_memalign ?al (W n) s = Some (W (a + ?g + 8), s')" unfolding eq l(4) using s2(1) s'(1) by simp
    have "m \<noteq> 0" "useds rest = {}" using s'(3,5) k12(1) by (auto simp: useds_def)
    then have u: "useds ?B' = insert (a + ?g, m) (useds B)" using s2(4) by (simp add: B)
    have fresh: "(a + ?g, m) \<notin> useds B"
      using useds_fresh [OF phys_geom [OF detached_phys [OF s2(2)]]] s2(4) by (auto simp: B)
    have kept: "kept B s s'"
    proof (rule keptI [OF gm])
      have c: "control s1 = control s" "control s2 = control s"
        using mdiffer_control [OF l(6)] mdiffer_control [OF s2(6)] by simp_all
      show "mdiffer (adm (unat (control s)) B) s s'"
        using mdiffer_trans2 [OF mdiffer_trans2 [OF l(6) s2(6)] s'(6)] s2(7) c by (simp add: B)
    qed
    have "adjusted n \<noteq> 0" "adjusted n \<le> m" using rq(4) l(2) s'(3) by (simp_all add: k_def)
    then show thesis by (rule some [OF run s2(8) h' u fresh _ _ kept])
  qed
qed

end
