(* ===== verification/Tlsf_Realloc.thy ===== *)
theory Tlsf_Realloc
  imports Tlsf_Memalign
begin

text \<open>
  Reallocation, \<open>tlsf_realloc\<close>, on the heap invariant: a block in use is trimmed or absorbs its free
  successor in place, or its bytes are copied to a new block. Programs may write inside the blocks
  they hold.
\<close>

section \<open>Growing and shrinking a block in use\<close>

lemma block_trim_used_ok:
  assumes d: "detached s (xs @ (a, n, False) # zs) {}" and co: "coalesced (xs @ (a, n, False) # zs)"
    and k: "k mod 4 = 0" "12 \<le> k" "k \<le> n"
  obtains s' m ws where "block_trim_used (W a) (W k) s = Some s'" "heap s' (xs @ (a, m, False) # ws)"
    "k \<le> m" "m \<le> n" "useds ws = useds zs" "kept (xs @ (a, m, False) # zs) s s'"
proof -
  let ?B = "xs @ (a, n, False) # zs" and ?c = "unat (control s)"
  have p: "phys s ?B" by (rule detached_phys [OF d])
  note g = phys_geom [OF p]
  have n0: "n \<noteq> 0" using k by simp
  from detached_next [OF d n0] obtain j h ys where zs: "zs = (a + n + 4, j, h) # ys" .
  note q = phys_pair [OF p [unfolded zs] n0]
  have sz: "block_size s (W a) = W n" "\<not> block_is_free s (W a)" using header_ops(1,2) [OF q(9)] q(3,5) by simp_all
  have can: "block_can_split s (W a) (W k) \<longleftrightarrow> k + 16 \<le> n" using block_can_split_W [OF sz(1)] q(5) k(3) by simp
  show thesis
  proof (cases "k + 16 \<le> n")
    case False
    then show thesis
      using that [of s n zs] d co sz(2) can k(3) by (simp add: block_trim_used_def heap_detached kept_def)
  next
    case True
    let ?r = "a + k + 4" and ?m = "n - k - 4"
    let ?xs = "xs @ [(a, k, False)]"
    let ?B1 = "?xs @ (?r, ?m, True) # zs"
    obtain s1 s2 where s: "block_split (W a) (W k) s = Some (W ?r, s1)" "block_set_prev_used (W ?r) s1 = s2"
        "phys s2 (xs @ (a, k, False) # (?r, n - k - 4, True) # (a + n + 4, j, h) # ys)"
        "differ {a + 4, ?r + 4, a + n + 4, a + n + 4 + 4} s s2"
      using p unfolding zs by (rule split_used_phys [OF _ k(1,2) True refl])
    have p2: "phys s2 ?B1" using s(3) by (simp add: zs)
    note g2 = phys_geom [OF p2]
    have inB: "(a, n, False) \<in> set ?B" "(a + n + 4, j, h) \<in> set ?B" "(a + n + 4, j, h) \<in> set ?B1"
      "(a, k, False) \<in> set ?B1" "(?r, ?m, True) \<in> set ?B1" by (simp_all add: zs)
    let ?S = "{a + 4, ?r + 4, a + n + 4, a + n + 4 + 4}"
    have S: "y \<in> {a + 4..<a + n + 8} \<or> (\<exists>b k h. (b, k, h) \<in> set ?B \<and> y = b + 4)" if "y \<in> ?S" for y
    proof -
      have "y \<in> {a + 4..<a + n + 8} \<or> y = a + n + 4 + 4" using that True by auto
      then show ?thesis using inB(2) by blast
    qed
    have S1: "y \<in> {?r + 4..<?r + ?m + 8} \<or> (\<exists>b k h. (b, k, h) \<in> set ?B1 \<and> y = b + 4)" if "y \<in> ?S" for y
    proof -
      have "y = a + 4 \<or> y \<in> {?r + 4..<?r + ?m + 8} \<or> y = a + n + 4 + 4" using that True by auto
      then show ?thesis using inB(3,4) by blast
    qed
    have F: "frees ?B1 - {(?r, ?m)} = frees ?B - {}" using frees_fresh [OF g2] frees_fresh [OF g] by auto
    have d2: "detached s2 ?B1 {(?r, ?m)}"
      by (rule header_step [OF d p2 F s(4) span_links [OF g inB(1) _ S]]) simp_all
    have m2: "mdiffer (adm ?c ?B1) s s2"
      using differ_mdiffer [OF s(4)] adm_span [OF inB(5) S1] by (rule mdiffer_mono)
    have cz: "coalesced zs" "coalesced (?xs)"
      using co coalesced_append_Cons [of xs "(a, n, False)" zs] by (auto simp: coalesced_Cons coalesced_snoc)
    obtain s3 m ws where s3: "block_merge_next (W ?r) s2 = Some (W ?r, s3)" "detached s3 (?xs @ (?r, m, True) # ws) {(?r, m)}"
        "coalesced ((?r, m, True) # ws)" "useds ws = useds zs" "mdiffer (adm (unat (control s2)) ?B1) s2 s3"
        "adm (unat (control s2)) (?xs @ (?r, m, True) # ws) \<subseteq> adm (unat (control s2)) ?B1"
      by (rule block_merge_next_ok [OF d2 cz(1)])
    let ?B' = "?xs @ (?r, m, True) # ws"
    obtain s' where s': "block_insert (W ?r) s3 = Some s'" "detached s' ?B' ({(?r, m)} - {(?r, m)})"
        "mdiffer (adm (unat (control s3)) ?B') s3 s'"
      by (rule insert_step [OF s3(2)]) auto
    have "coalesced (?xs @ [(?r, m, True)])"
      using cz(2) coalesced_snoc [of ?xs "(?r, m, True)"] by simp
    with s3(3) have "coalesced ?B'" using coalesced_append_Cons [of ?xs "(?r, m, True)" ws] by blast
    with s'(2) have h': "heap s' (xs @ (a, k, False) # (?r, m, True) # ws)" by (simp add: heap_detached)
    have c: "control s2 = control s" "control s3 = control s"
      using mdiffer_control [OF m2] mdiffer_control [OF s3(5)] by simp_all
    have "mdiffer (adm ?c ?B1) s s'"
      using mdiffer_trans2 [OF mdiffer_trans2 [OF m2 s3(5)] s'(3)] s3(6) c by simp
    then have "kept ?B1 s s'" using keptI g2 c(1) by simp
    then have "kept (xs @ (a, k, False) # zs) s s'" by (simp add: kept_def)
    moreover have "block_trim_used (W a) (W k) s = Some s'"
      using sz(2) can True s(1,2) s3(1) s'(1) by (simp add: block_trim_used_def)
    ultimately show thesis using that [of s' k "(?r, m, True) # ws"] h' s3(4) k(3) by simp
  qed
qed

lemma grow_used_ok:
  assumes d: "detached s (xs @ (a, n, False) # (b, k, True) # zs) {}" and n: "n \<noteq> 0"
    and co: "coalesced (xs @ (a, n, False) # (b, k, True) # zs)"
  obtains s1 s' where "block_merge_next (W a) s = Some (W a, s1)" "block_mark_as_used (W a) s1 = Some s'"
    "detached s' (xs @ (a, n + k + 4, False) # zs) {}" "coalesced (xs @ (a, n + k + 4, False) # zs)"
    "kept (xs @ (a, n, False) # zs) s s'"
proof -
  let ?B = "xs @ (a, n, False) # (b, k, True) # zs" and ?B' = "xs @ (a, n + k + 4, False) # zs"
  have p: "phys s ?B" by (rule detached_phys [OF d])
  note g = phys_geom [OF p] and q = phys_pair [OF p n]
  have mem: "(b, k) \<in> frees ?B - {}" by simp
  obtain s0 where s0: "remove_free_block (W b) (int (fst (cls k))) (int (snd (cls k))) s = Some s0"
      "block_remove (W b) s = Some s0" "detached s0 ?B (insert (b, k) {})" "mdiffer (adm (unat (control s)) ?B) s s0"
    by (rule remove_step [OF d mem])
  have p0: "phys s0 ?B" by (rule detached_phys [OF s0(3)])
  obtain s1 s' where s': "block_absorb (W a) (W b) s0 = Some (W a, s1)" "block_mark_as_used (W a) s1 = Some s'"
      "phys s' ?B'" "differ {a + 4, b + k + 4, b + k + 8} s0 s'"
    by (rule block_absorb_used_phys [OF p0 n])
  have k0: "k \<noteq> 0" using q(13) by simp
  have d1: "detached s0 ((xs @ [(a, n, False)]) @ (b, k, True) # zs) {(b, k)}" using s0(3) by simp
  from detached_next [OF d1 k0] obtain j h ys where zs: "zs = (b + k + 4, j, h) # ys" .
  have inB: "(a, n, False) \<in> set ?B" "(b, k, True) \<in> set ?B" "(b + k + 4, j, h) \<in> set ?B" by (simp_all add: zs)
  let ?S = "{a + 4, b + k + 4, b + k + 8}"
  have S: "y \<in> {b + 4..<b + k + 8} \<or> (\<exists>b k h. (b, k, h) \<in> set ?B \<and> y = b + 4)" if "y \<in> ?S" for y
  proof -
    have "y = a + 4 \<or> y \<in> {b + 4..<b + k + 8} \<or> y = b + k + 4 + 4" using that by auto
    then show ?thesis using inB(1,3) by blast
  qed
  note g0 = phys_geom [OF p0]
  have g1: "geom (unat (control s0)) ((xs @ [(a, n, False)]) @ (b, k, True) # zs)" using g0 by simp
  have F: "frees ?B' - {} = frees ?B - insert (b, k) {}"
    using frees_fresh [OF g0] frees_fresh [OF g1] by auto
  have "detached s' ?B' {}"
    by (rule header_step [OF s0(3) s'(3) F s'(4) span_links [OF g0 inB(2) _ S]]) simp_all
  moreover have "coalesced ?B'"
    using co coalesced_append_Cons [of xs "(a, n, False)" "(b, k, True) # zs"]
      coalesced_append_Cons [of xs "(a, n + k + 4, False)" zs]
    by (auto simp: coalesced_snoc coalesced_Cons)
  moreover have "block_merge_next (W a) s = Some (W a, s1)"
    using header_ops(4,5) [OF q(9)] header_ops(2) [OF q(10)] q n s0(2) s'(1)
    by (simp add: block_merge_next_def W_eq_0_iff)
  moreover have "kept (xs @ (a, n, False) # zs) s s'"
  proof -
    have "mdiffer (adm (unat (control s0)) ?B) s0 s'"
      using differ_mdiffer [OF s'(4)] adm_span [OF inB(2) S] by (rule mdiffer_mono)
    then have "mdiffer (adm (unat (control s)) ?B) s s'"
      using mdiffer_trans2 [OF s0(4)] mdiffer_control [OF s0(4)] by simp
    from keptI [OF g this] show ?thesis by (simp add: kept_def)
  qed
  ultimately show thesis using that s'(2) by blast
qed

section \<open>Copying bytes\<close>

text \<open>A write inside a block in use keeps the heap.\<close>

lemma store_user:
  assumes h: "heap s B" and u: "(a, n) \<in> useds B" and y: "a + 8 \<le> y" "y < a + n + 8"
  shows "heap (store (W y) v s) B"
proof -
  let ?c = "unat (control s)" and ?s' = "store (W y) v s"
  have p: "phys s B" and l: "lists s (frees B)" and co: "coalesced B" using h by (simp_all add: heap_def)
  note g = phys_geom [OF p]
  have x: "(a, n, False) \<in> set B" using u by (auto simp: useds_def)
  have y32: "y < 2 ^ 32" using geom_in(5) [OF g x] y(2) by simp
  have d: "differ {y} s ?s'" using y32 by (rule differ_store)
  have sub: "frees B \<subseteq> frees B" by simp
  have nf: "(a, n) \<notin> frees B"
  proof
    assume "(a, n) \<in> frees B"
    then have t: "(a, n, True) \<in> set B" by (simp add: frees_def)
    from geom_pairwise [OF g x t] show False by simp
  qed
  have "y \<notin> links ?c (frees B)" by (rule links_span [OF g sub x]) (use y nf in auto)
  then have l': "lists ?s' (frees B)" by (intro lists_frame [OF l d _ linkable_frees [OF g sub]]) simp
  have hs: "hdrs (mem s) False B" using p by (simp add: phys_def)
  have "hdrs (mem ?s') False B"
  proof (rule hdrs_cells [OF hs], intro conjI impI)
    fix b k f assume z: "(b, k, f) \<in> set B"
    have lim: "b + 4 < 2 ^ 32" "b + k + 4 < 2 ^ 32" using geom_in(5) [OF g z] by simp_all
    have "b + 4 \<noteq> y" "f \<Longrightarrow> b + k + 4 \<noteq> y" using geom_pairwise [OF g x z] y by auto
    then show "mem ?s' (W (b + 4)) = mem s (W (b + 4))" "f \<Longrightarrow> mem ?s' (W (b + k + 4)) = mem s (W (b + k + 4))"
      using y32 lim by simp_all
  qed
  then show ?thesis using g l' co by (simp add: heap_def phys_def)
qed

lemma W_and: "unat ((W y :: u32) AND 3) = y mod 4" "W y AND NOT 3 = W (y - y mod 4)"
  unfolding W_def and_3 and_not_3 by (simp_all add: unat_of_nat)

lemma load_byte_W: "load_byte s (W y) = ucast (drop_bit (8 * (3 - y mod 4)) (mem s (W (y - y mod 4))))"
  unfolding load_byte_def load_def W_and by (rule refl)

lemma store_byte_W:
  "store_byte (W y) v s = store (W (y - y mod 4))
     ((mem s (W (y - y mod 4)) AND NOT (push_bit (8 * (3 - y mod 4)) 0xFF)) OR push_bit (8 * (3 - y mod 4)) (ucast v)) s"
  unfolding store_byte_def load_def Let_def W_and by (rule refl)

lemma bit_FF: "bit (0xFF :: u32) n \<longleftrightarrow> n < 8"
proof -
  have "(0xFF :: u32) = mask 8" by code_simp
  then show ?thesis by (simp only: bit_mask_iff) auto
qed

lemma byte_update:
  fixes w :: u32 and v :: u8
  assumes "i < 4" "j < 4"
  shows "ucast (drop_bit (8 * (3 - j)) ((w AND NOT (push_bit (8 * (3 - i)) 0xFF)) OR push_bit (8 * (3 - i)) (ucast v))) =
    (if i = j then v else (ucast (drop_bit (8 * (3 - j)) w) :: u8))"
proof (rule bit_word_eqI)
  fix n assume n: "n < LENGTH(8)"
  have "\<not> (8 * (3 - i) \<le> 8 * (3 - j) + n \<and> 8 * (3 - j) + n - 8 * (3 - i) < 8)" if "i \<noteq> j"
    using that assms n by (cases "i < j") auto
  moreover from this have "\<not> bit v (8 * (3 - j) + n - 8 * (3 - i))" if "i \<noteq> j" "8 * (3 - i) \<le> 8 * (3 - j) + n"
    using that bit_imp_le_length [of v "8 * (3 - j) + n - 8 * (3 - i)"] by auto
  ultimately show "bit (ucast (drop_bit (8 * (3 - j)) ((w AND NOT (push_bit (8 * (3 - i)) 0xFF)) OR push_bit (8 * (3 - i)) (ucast v))) :: u8) n =
    bit (if i = j then v else (ucast (drop_bit (8 * (3 - j)) w) :: u8)) n"
    using assms n
    by (auto simp: bit_ucast_iff bit_drop_bit_eq bit_or_iff bit_and_iff bit_not_iff bit_push_bit_iff bit_FF
        simp del: bit_numeral_word_iff)
qed

lemma load_store_byte:
  assumes "x < 2 ^ 32" "y < 2 ^ 32"
  shows "load_byte (store_byte (W x) v s) (W y) = (if x = y then v else load_byte s (W y))"
proof (cases "x - x mod 4 = y - y mod 4")
  case True
  then have "x = y \<longleftrightarrow> x mod 4 = y mod 4" by (metis le_add_diff_inverse mod_less_eq_dividend)
  then show ?thesis
    unfolding load_byte_W store_byte_W True using byte_update [of "x mod 4" "y mod 4"] by (simp add: store_def)
next
  case False
  then have "W (x - x mod 4) \<noteq> W (y - y mod 4)" using assms by (subst W_eq_iff) auto
  then show ?thesis unfolding load_byte_W store_byte_W using False by (auto simp: store_def)
qed

text \<open>A copy between disjoint ranges.\<close>

lemma copy_bytes_load:
  assumes "d + n \<le> 2 ^ 32" "r + n \<le> 2 ^ 32" "d + n \<le> r \<or> r + n \<le> d" "y < 2 ^ 32"
  shows "load_byte (copy_bytes n (W d) (W r) s) (W y) =
    (if d \<le> y \<and> y < d + n then load_byte s (W (r + (y - d))) else load_byte s (W y))"
  using assms(1-3)
proof (induction n arbitrary: d r s)
  case (Suc n)
  have "copy_bytes (Suc n) (W d) (W r) s = copy_bytes n (W (Suc d)) (W (Suc r)) (store_byte (W d) (load_byte s (W r)) s)"
    by (simp add: W_def add.commute)
  also have "load_byte \<dots> (W y) = (if Suc d \<le> y \<and> y < Suc d + n
      then load_byte (store_byte (W d) (load_byte s (W r)) s) (W (Suc r + (y - Suc d)))
      else load_byte (store_byte (W d) (load_byte s (W r)) s) (W y))"
    by (rule Suc.IH) (use Suc.prems in auto)
  also have "\<dots> = (if d \<le> y \<and> y < d + Suc n then load_byte s (W (r + (y - d))) else load_byte s (W y))"
  proof -
    have "d < 2 ^ 32" using Suc.prems by simp
    note ls = load_store_byte [OF this]
    consider "y = d" | "Suc d \<le> y" "y < Suc d + n" | "y < d \<or> Suc d + n \<le> y" by linarith
    then show ?thesis
    proof cases
      case 2
      then have "Suc r + (y - Suc d) < 2 ^ 32" "d \<noteq> Suc r + (y - Suc d)" "Suc r + (y - Suc d) = r + (y - d)"
        using Suc.prems by linarith+
      then show ?thesis using 2 ls by simp
    qed (use ls [OF assms(4)] in auto)
  qed
  finally show ?case .
qed auto

lemma copy_bytes_user:
  assumes "heap s B" "(a, m) \<in> useds B" "i + n \<le> m"
  shows "heap (copy_bytes n (W (a + 8 + i)) src s) B \<and> control (copy_bytes n (W (a + 8 + i)) src s) = control s \<and>
    (\<forall>y < 2 ^ 32. (y < a + 8 \<or> a + 8 + m \<le> y) \<longrightarrow> mem (copy_bytes n (W (a + 8 + i)) src s) (W y) = mem s (W y))"
  using assms(1,3)
proof (induction n arbitrary: i src s)
  case (Suc n)
  let ?y = "a + 8 + i" and ?v = "load_byte s src"
  let ?s = "store_byte (W ?y) ?v s"
  have ph: "phys s B" using Suc.prems(1) by (simp add: heap_def)
  have x: "(a, m, False) \<in> set B" using assms(2) by (auto simp: useds_def)
  have a4: "a mod 4 = 0" "a + m + 16 \<le> 2 ^ 30" using geom_in(2,5) [OF phys_geom [OF ph] x] by auto
  have z: "a + 8 \<le> ?y - ?y mod 4" "?y - ?y mod 4 < a + m + 8" using a4(1) Suc.prems(2) by presburger+
  have h: "heap ?s B" unfolding store_byte_W by (rule store_user [OF Suc.prems(1) assms(2) z])
  have fr: "mem ?s (W y) = mem s (W y)" if "y < 2 ^ 32" "y < a + 8 \<or> a + 8 + m \<le> y" for y
  proof -
    have "W y \<noteq> W (?y - ?y mod 4)" using z a4(2) that by (subst W_eq_iff) auto
    then show ?thesis unfolding store_byte_W by (simp add: store_def)
  qed
  have "W ?y + 1 = W (a + 8 + Suc i)" by (simp add: W_def)
  then have "copy_bytes (Suc n) (W ?y) src s = copy_bytes n (W (a + 8 + Suc i)) (src + 1) ?s" by simp
  moreover have "control ?s = control s" unfolding store_byte_W by (simp add: store_def)
  ultimately show ?case using Suc.IH [OF h, of "Suc i" "src + 1"] Suc.prems(2) fr by auto
qed simp

lemma load_byte_kept:
  assumes "\<forall>y. a + 8 \<le> y \<longrightarrow> y < a + 8 + n \<longrightarrow> mem s' (W y) = mem s (W y)" "a mod 4 = 0" "i < n"
  shows "load_byte s' (W (a + 8 + i)) = load_byte s (W (a + 8 + i))"
proof -
  have "a + 8 \<le> a + 8 + i - (a + 8 + i) mod 4" "a + 8 + i - (a + 8 + i) mod 4 < a + 8 + n"
    using assms(2,3) by presburger+
  then show ?thesis unfolding load_byte_W using assms(1) by simp
qed

section \<open>Reallocation\<close>

text \<open>The blocks in use other than the one that is reallocated.\<close>

definition except :: "nat \<Rightarrow> nat \<Rightarrow> blk list \<Rightarrow> blk list" where
  "except a n B = filter (\<lambda>x. x \<noteq> (a, n, False)) B"

lemma useds_except: "useds (except a n B) = useds B - {(a, n)}"
  by (auto simp: useds_def except_def)

lemma kept_mono: "kept C s s' \<Longrightarrow> useds B \<subseteq> useds C \<Longrightarrow> kept B s s'"
  unfolding kept_def by blast

lemma kept_word: "kept B s s' \<Longrightarrow> (b, k) \<in> useds B \<Longrightarrow> b + 8 \<le> y \<Longrightarrow> y < b + 8 + k \<Longrightarrow> mem s' (W y) = mem s (W y)"
  by (fastforce simp: kept_def)

lemma realloc_setup:
  assumes h: "heap s B" and u: "(a, n) \<in> useds B" and sz: "sz + 3 < 2 ^ 32" and k: "k = adjusted sz" "k \<noteq> 0"
  obtains xs j f zs where "B = xs @ (a, n, False) # (a + n + 4, j, f) # zs" "12 \<le> n" "n mod 4 = 0" "n < 2 ^ 30" "a mod 4 = 0"
    "tlsf_realloc (W (a + 8)) (W sz) s =
      (if n < k \<and> (\<not> f \<or> n + j + 4 < k)
       then tlsf_malloc (W sz) s \<bind> (\<lambda>(p, s1). if p \<noteq> 0
         then tlsf_free (W (a + 8)) (copy_bytes (min n sz) p (W (a + 8)) s1) \<bind> (\<lambda>s. Some (p, s)) else Some (p, s1))
       else (if n < k then block_merge_next (W a) s \<bind> (\<lambda>(_, s). block_mark_as_used (W a) s) else Some s)
         \<bind> (\<lambda>s. block_trim_used (W a) (W k) s \<bind> (\<lambda>s. Some (W (a + 8), s))))"
proof -
  have d: "detached s B {}" using h by (simp add: heap_detached)
  obtain xs ws where B: "B = xs @ (a, n, False) # ws" "n \<noteq> 0" "block_size s (W a) = W n" "\<not> block_is_free s (W a)"
      "W (a + 8) \<noteq> 0" "block_from_ptr (W (a + 8)) = W a" "12 \<le> n" "n mod 4 = 0" "n < 2 ^ 30"
    by (rule used_block [OF detached_phys [OF d] u])
  from detached_next [OF d [unfolded B(1)] B(2)] obtain j f zs where ws: "ws = (a + n + 4, j, f) # zs" .
  note q = phys_pair [OF detached_phys [OF d, unfolded B(1) ws] B(2)]
  have nx: "block_next s (W a) = Some (W (a + n + 4))" using header_ops(5) [OF q(9)] q B(2) by simp
  have nj: "block_size s (W (a + n + 4)) = W j" "block_is_free s (W (a + n + 4)) = f"
    using header_ops(1,2) [OF q(10)] q by simp_all
  have adj: "adjust_request_size (W sz) ALIGN_SIZE = Some (W k)"
    unfolding W_def k(1) by (rule adjust_request_size_eq [OF sz])
  have "adjusted 0 = 0" by (simp add: adjusted_def)
  then have sz0: "sz \<noteq> 0" using k by metis
  have k30: "k < 2 ^ 30" unfolding k(1) by (rule adjusted_props)
  have lt: "W n < W k \<longleftrightarrow> n < k" using B(9) k30 by (subst W_less_iff) auto
  have comb: "W n + W j + block_header_overhead = W (n + j + 4)" by (simp add: W_add block_header_overhead_def)
  have lt2: "W (n + j + 4) < W k \<longleftrightarrow> n + j + 4 < k" using q(5) k30 by (subst W_less_iff) auto
  have mn: "unat (min (W n) (W sz)) = min n sz"
  proof -
    have "W n \<le> W sz \<longleftrightarrow> n \<le> sz" using B(9) sz by (subst W_le_iff) auto
    then show ?thesis using B(9) sz by (simp add: min_def unat_W)
  qed
  have z: "W sz \<noteq> 0" using sz sz0 by (subst W_eq_0_iff) auto
  have "tlsf_realloc (W (a + 8)) (W sz) s =
      (if n < k \<and> (\<not> f \<or> n + j + 4 < k)
       then tlsf_malloc (W sz) s \<bind> (\<lambda>(p, s1). if p \<noteq> 0
         then tlsf_free (W (a + 8)) (copy_bytes (min n sz) p (W (a + 8)) s1) \<bind> (\<lambda>s. Some (p, s)) else Some (p, s1))
       else (if n < k then block_merge_next (W a) s \<bind> (\<lambda>(_, s). block_mark_as_used (W a) s) else Some s)
         \<bind> (\<lambda>s. block_trim_used (W a) (W k) s \<bind> (\<lambda>s. Some (W (a + 8), s))))"
    unfolding tlsf_realloc_def Let_def B(3,6) nx nj adj bind.bind_lunit comb lt lt2 mn
    using B(4,5) z by (simp cong: if_cong)
  then show thesis using that B ws q(7) by simp
qed

lemma realloc_in_place:
  assumes d: "detached s1 (xs @ (a, n1, False) # zs) {}" and co: "coalesced (xs @ (a, n1, False) # zs)"
    and k: "k mod 4 = 0" "12 \<le> k" "k \<le> n1" and kp: "kept (xs @ (a, n, False) # zs) s s1" and n: "n \<noteq> 0" "n \<le> n1" "a mod 4 = 0"
  obtains s' m B' where "block_trim_used (W a) (W k) s1 = Some s'" "heap s' B'"
    "useds B' = insert (a, m) (useds xs \<union> useds zs)" "k \<le> m" "kept (xs @ zs) s s'"
    "\<forall>i. i < n \<longrightarrow> i < m \<longrightarrow> load_byte s' (W (a + 8 + i)) = load_byte s (W (a + 8 + i))"
proof -
  obtain s' m ws where s': "block_trim_used (W a) (W k) s1 = Some s'" "heap s' (xs @ (a, m, False) # ws)"
      "k \<le> m" "m \<le> n1" "useds ws = useds zs" "kept (xs @ (a, m, False) # zs) s1 s'"
    by (rule block_trim_used_ok [OF d co k])
  have m: "m \<noteq> 0" using s'(3) k(2) by simp
  have "kept (xs @ zs) s s'"
  proof (rule kept_trans)
    show "kept (xs @ zs) s s1" by (rule kept_mono [OF kp]) (use n(1) in auto)
    show "kept (xs @ zs) s1 s'" by (rule kept_mono [OF s'(6)]) (use m in auto)
  qed simp
  moreover have "load_byte s' (W (a + 8 + i)) = load_byte s (W (a + 8 + i))" if "i < n" "i < m" for i
  proof (rule load_byte_kept [of a "min n m"])
    show "\<forall>y. a + 8 \<le> y \<longrightarrow> y < a + 8 + min n m \<longrightarrow> mem s' (W y) = mem s (W y)"
      using kept_word [OF kp, of a n] kept_word [OF s'(6), of a m] n(1) m by simp
  qed (use that n(3) in auto)
  moreover have "useds (xs @ (a, m, False) # ws) = insert (a, m) (useds xs \<union> useds zs)" using s'(5) m by auto
  ultimately show thesis using that [OF s'(1,2)] s'(3) by blast
qed

lemma realloc_move:
  assumes h: "heap s B" and u: "(a, n) \<in> useds B" and sz: "sz + 3 < 2 ^ 32" and n: "n < adjusted sz" "a mod 4 = 0"
  obtains (none) "tlsf_malloc (W sz) s = Some (0, s)"
  | (some) c m s1 s' B' where "tlsf_malloc (W sz) s = Some (W (c + 8), s1)" "W (c + 8) \<noteq> 0"
      "tlsf_free (W (a + 8)) (copy_bytes (min n sz) (W (c + 8)) (W (a + 8)) s1) = Some s'" "heap s' B'"
      "useds B' = insert (c, m) (useds B - {(a, n)})" "(c, m) \<notin> useds B" "adjusted sz \<le> m" "kept (except a n B) s s'"
      "\<forall>i < min n sz. load_byte s' (W (c + 8 + i)) = load_byte s (W (a + 8 + i))"
proof -
  show thesis
  proof (rule tlsf_malloc_ok [OF h sz])
    assume "tlsf_malloc (W sz) s = Some (0, s)"
    then show thesis by (rule none)
  next
    fix c m s1 B1 assume r: "tlsf_malloc (W sz) s = Some (W (c + 8), s1)" "heap s1 B1" "useds B1 = insert (c, m) (useds B)"
      "(c, m) \<notin> useds B" "adjusted sz \<noteq> 0" "adjusted sz \<le> m" "kept B s s1"
    let ?n = "min n sz" and ?s2 = "copy_bytes (min n sz) (W (c + 8)) (W (a + 8)) s1"
    have g: "geom (unat (control s1)) B1" using r(2) by (simp add: heap_def phys_geom)
    have cu: "(c, m) \<in> useds B1" and au: "(a, n) \<in> useds B1" using r(3) u by auto
    have x: "(c, m, False) \<in> set B1" "(a, n, False) \<in> set B1" using cu au by (auto simp: useds_def)
    have lim: "c + m + 16 \<le> 2 ^ 30" "a + n + 16 \<le> 2 ^ 30" "c mod 4 = 0" "12 \<le> m"
      using geom_in [OF g x(1)] geom_in [OF g x(2)] r(5,6) adjusted_props(3) by auto
    have ap: "c + 8 + m \<le> a + 8 \<or> a + 8 + n \<le> c + 8" "(c, m) \<noteq> (a, n)"
      using geom_pairwise [OF g x] r(4) u by auto
    have nm: "?n \<le> m" using n(1) r(6) by simp
    have cp: "heap ?s2 B1" "control ?s2 = control s1"
      "\<forall>y < 2 ^ 32. (y < c + 8 \<or> c + 8 + m \<le> y) \<longrightarrow> mem ?s2 (W y) = mem s1 (W y)"
      using copy_bytes_user [OF r(2) cu, of 0 ?n "W (a + 8)"] nm by simp_all
    obtain s' B' where s': "tlsf_free (W (a + 8)) ?s2 = Some s'" "heap s' B'" "useds B' = useds B1 - {(a, n)}" "kept B' ?s2 s'"
      by (rule tlsf_free_ok [OF cp(1) au])
    have us: "useds B' = insert (c, m) (useds B - {(a, n)})" using s'(3) r(3) ap(2) by auto
    have "kept (except a n B) s1 ?s2"
    proof -
      have "mem ?s2 (W y) = mem s1 (W y)" if b: "(b, k) \<in> useds B" "b + 8 \<le> y" "y < b + k + 8" for b k y
      proof -
        have b1: "(b, k, False) \<in> set B1" "(b, k) \<noteq> (c, m)" using b(1) r(3,4) by (auto simp: useds_def)
        have "y < c + 8 \<or> c + 8 + m \<le> y" using geom_pairwise [OF g x(1) b1(1)] b1(2) b(2,3) by auto
        moreover have "y < 2 ^ 32" using geom_in(5) [OF g b1(1)] b(3) by simp
        ultimately show ?thesis using cp(3) by blast
      qed
      then show ?thesis using cp(2) by (auto simp: kept_def useds_except)
    qed
    moreover have "kept (except a n B) ?s2 s'" by (rule kept_mono [OF s'(4)]) (use us in \<open>auto simp: useds_except\<close>)
    moreover have "kept (except a n B) s s1" by (rule kept_mono [OF r(7)]) (auto simp: useds_except)
    ultimately have kp: "kept (except a n B) s s'" by (meson kept_trans order_refl)
    have bytes: "load_byte s' (W (c + 8 + i)) = load_byte s (W (a + 8 + i))" if i: "i < ?n" for i
    proof -
      have "load_byte s' (W (c + 8 + i)) = load_byte ?s2 (W (c + 8 + i))"
        by (rule load_byte_kept [of c m]) (use kept_word [OF s'(4), of c m] us i nm lim(3) in auto)
      also have "\<dots> = load_byte s1 (W (a + 8 + i))"
        using copy_bytes_load [of "c + 8" ?n "a + 8" "c + 8 + i" s1] ap(1) lim(1,2) i nm by auto
      also have "\<dots> = load_byte s (W (a + 8 + i))"
        by (rule load_byte_kept [of a n]) (use kept_word [OF r(7), of a n] u i n(2) in auto)
      finally show ?thesis .
    qed
    have "W (c + 8) \<noteq> 0" using lim(1) by (subst W_eq_0_iff) auto
    then show thesis using some [OF r(1) _ s'(1,2) us r(4,6) kp] bytes by blast
  qed
qed

lemma tlsf_realloc_ok:
  assumes h: "heap s B" and u: "(a, n) \<in> useds B" and sz: "sz + 3 < 2 ^ 32" and k: "adjusted sz \<noteq> 0"
  obtains (none) "tlsf_realloc (W (a + 8)) (W sz) s = Some (0, s)"
  | (some) c m s' B' where "tlsf_realloc (W (a + 8)) (W sz) s = Some (W (c + 8), s')" "heap s' B'"
      "useds B' = insert (c, m) (useds B - {(a, n)})" "adjusted sz \<le> m" "kept (except a n B) s s'"
      "\<forall>i < min n sz. load_byte s' (W (c + 8 + i)) = load_byte s (W (a + 8 + i))"
proof -
  let ?k = "adjusted sz"
  have kk: "?k mod 4 = 0" "12 \<le> ?k" "sz \<le> ?k" using adjusted_props [of sz] k by auto
  have d: "detached s B {}" and co: "coalesced B" using h by (simp_all add: heap_detached)
  obtain xs j f zs where B: "B = xs @ (a, n, False) # (a + n + 4, j, f) # zs" "12 \<le> n" "n mod 4 = 0" "n < 2 ^ 30" "a mod 4 = 0"
    and run: "tlsf_realloc (W (a + 8)) (W sz) s =
      (if n < ?k \<and> (\<not> f \<or> n + j + 4 < ?k)
       then tlsf_malloc (W sz) s \<bind> (\<lambda>(p, s1). if p \<noteq> 0
         then tlsf_free (W (a + 8)) (copy_bytes (min n sz) p (W (a + 8)) s1) \<bind> (\<lambda>s. Some (p, s)) else Some (p, s1))
       else (if n < ?k then block_merge_next (W a) s \<bind> (\<lambda>(_, s). block_mark_as_used (W a) s) else Some s)
         \<bind> (\<lambda>s. block_trim_used (W a) (W ?k) s \<bind> (\<lambda>s. Some (W (a + 8), s))))"
    by (rule realloc_setup [OF h u sz refl k])
  have g: "geom (unat (control s)) B" by (rule phys_geom [OF detached_phys [OF d]])
  have ux: "useds B - {(a, n)} = useds xs \<union> useds ((a + n + 4, j, f) # zs)"
    using useds_fresh [OF g [unfolded B(1)]] B(2) by (auto simp: B(1))
  consider "n < ?k" "\<not> f \<or> n + j + 4 < ?k" | "n < ?k" "f" "?k \<le> n + j + 4" | "?k \<le> n" by linarith
  then show thesis
  proof cases
    case 1
    show thesis
    proof (rule realloc_move [OF h u sz 1(1) B(5)])
      assume "tlsf_malloc (W sz) s = Some (0, s)"
      then show thesis using none run 1 by simp
    next
      fix c m s1 s' B' assume r: "tlsf_malloc (W sz) s = Some (W (c + 8), s1)" "W (c + 8) \<noteq> 0"
        "tlsf_free (W (a + 8)) (copy_bytes (min n sz) (W (c + 8)) (W (a + 8)) s1) = Some s'" "heap s' B'"
        "useds B' = insert (c, m) (useds B - {(a, n)})" "?k \<le> m" "kept (except a n B) s s'"
        "\<forall>i < min n sz. load_byte s' (W (c + 8 + i)) = load_byte s (W (a + 8 + i))"
      have "tlsf_realloc (W (a + 8)) (W sz) s = Some (W (c + 8), s')" using run 1 r(1-3) by simp
      then show thesis by (rule some [OF _ r(4-8)])
    qed
  next
    case 2
    have n0: "n \<noteq> 0" using B(2) by simp
    obtain s1 s2 where s2: "block_merge_next (W a) s = Some (W a, s1)" "block_mark_as_used (W a) s1 = Some s2"
        "detached s2 (xs @ (a, n + j + 4, False) # zs) {}" "coalesced (xs @ (a, n + j + 4, False) # zs)"
        "kept (xs @ (a, n, False) # zs) s s2"
      using d co 2(2) unfolding B(1) by (auto intro: grow_used_ok [OF _ n0])
    obtain s' m B' where s': "block_trim_used (W a) (W ?k) s2 = Some s'" "heap s' B'"
        "useds B' = insert (a, m) (useds xs \<union> useds zs)" "?k \<le> m" "kept (xs @ zs) s s'"
        "\<forall>i. i < n \<longrightarrow> i < m \<longrightarrow> load_byte s' (W (a + 8 + i)) = load_byte s (W (a + 8 + i))"
      by (rule realloc_in_place [OF s2(3,4) kk(1,2) 2(3) s2(5) n0 _ B(5)]) auto
    have "tlsf_realloc (W (a + 8)) (W sz) s = Some (W (a + 8), s')" using run 2 s2(1,2) s'(1) by simp
    moreover have "useds B' = insert (a, m) (useds B - {(a, n)})" using s'(3) ux 2(2) by simp
    moreover have "kept (except a n B) s s'" by (rule kept_mono [OF s'(5)]) (use ux 2(2) in \<open>simp add: useds_except\<close>)
    ultimately show thesis using some [of a s' B' m] s'(2,4,6) kk(3) by auto
  next
    case 3
    have n0: "n \<noteq> 0" using B(2) by simp
    let ?zs = "(a + n + 4, j, f) # zs"
    obtain s' m B' where s': "block_trim_used (W a) (W ?k) s = Some s'" "heap s' B'"
        "useds B' = insert (a, m) (useds xs \<union> useds ?zs)" "?k \<le> m" "kept (xs @ ?zs) s s'"
        "\<forall>i. i < n \<longrightarrow> i < m \<longrightarrow> load_byte s' (W (a + 8 + i)) = load_byte s (W (a + 8 + i))"
      by (rule realloc_in_place [OF d [unfolded B(1)] co [unfolded B(1)] kk(1,2) 3 _ n0 _ B(5)]) (auto simp: kept_def)
    have "tlsf_realloc (W (a + 8)) (W sz) s = Some (W (a + 8), s')" using run 3 s'(1) by simp
    moreover have "kept (except a n B) s s'" by (rule kept_mono [OF s'(5)]) (use ux in \<open>simp add: useds_except\<close>)
    ultimately show thesis using some [of a s' B' m] s'(2,3,4,6) ux kk(3) by auto
  qed
qed

end
