(* ===== verification/Tlsf_Correct.thy ===== *)
theory Tlsf_Correct
  imports Tlsf_Realloc
begin

text \<open>
  What the TLSF allocator of \<open>libyaul/kernel/mm/tlsf.c\<close> promises: the consistency checks
  \<open>tlsf_check\<close> and \<open>tlsf_check_pool\<close> succeed on every well-formed heap; creating a heap makes a
  well-formed one; allocation and release keep it so, hand out disjoint blocks and leave the
  contents of the other blocks alone; hence no assertion fails in any program that only releases
  what it holds and only writes inside the blocks it holds.
\<close>

section \<open>The consistency checks\<close>

lemma tlsf_insist_True [simp]: "b \<Longrightarrow> tlsf_insist b st = Some st"
  by (simp add: tlsf_insist_def)

text \<open>What the invariant says about a free block and its neighbours.\<close>

lemma heap_free_block:
  assumes h: "heap s B" and a: "(a, n) \<in> frees B"
  obtains b where "block_size s (W a) = W n" "block_is_free s (W a)" "\<not> block_is_prev_free s (W a)"
    "block_next s (W a) = Some (W b)" "\<not> block_is_free s (W b)" "block_is_prev_free s (W b)"
    "12 \<le> n" "n < 2 ^ 30"
proof -
  have p: "phys s B" and co: "coalesced B" using h by (simp_all add: heap_def)
  obtain xs ys where B: "B = xs @ (a, n, True) # ys" using a by (auto simp: frees_def in_set_conv_decomp)
  note b = phys_block [OF p [unfolded B]]
  have n: "n mod 4 = 0" "n < 2 ^ 32" "n \<noteq> 0" "12 \<le> n" "n < 2 ^ 30" using b(3) by auto
  from geom_next [OF phys_geom [OF p [unfolded B]] n(3)] obtain k g zs where ys: "ys = (a + n + 4, k, g) # zs" .
  note q = phys_pair [OF p [unfolded B ys] n(3)]
  have f: "\<not> last_free False xs" "\<not> g"
    using co coalesced_append_Cons [of xs "(a, n, True)" ys] by (simp_all add: B ys coalesced_snoc)
  have k: "k < 2 ^ 32" using q(5) by simp
  show thesis
    by (rule that [of "a + n + 4"])
      (use header_ops(1,2,3,5) [OF b(1) n(1,2)] header_ops(2,3) [OF q(10,4) k] f n in auto)
qed

lemma check_list_ok:
  assumes h: "heap s B" and seg: "seg (mem s) p xs c" and c: "c = unat (control s)"
    and xs: "\<And>a. a \<in> set xs \<Longrightarrow> a \<noteq> c \<and> a < 2 ^ 32 \<and> (\<exists>n. (a, n) \<in> frees B \<and> cls n = (i, j))"
  shows "check_list s (int i) (int j) (W (first xs c)) st = Some st"
  using seg xs
proof (induction xs arbitrary: p)
  case Nil
  then show ?case by (simp add: check_list.simps c)
next
  case (Cons a xs)
  obtain n where n: "(a, n) \<in> frees B" "cls n = (i, j)" and ac: "a \<noteq> c" "a < 2 ^ 32" using Cons.prems(2) [of a] by auto
  have aw: "W a \<noteq> control s"
    using ac unat_lt32 [of "control s"] W_eq_iff [of a c] by (simp add: c)
  obtain b where b: "block_size s (W a) = W n" "block_is_free s (W a)" "\<not> block_is_prev_free s (W a)"
      "block_next s (W a) = Some (W b)" "\<not> block_is_free s (W b)" "block_is_prev_free s (W b)" "12 \<le> n" "n < 2 ^ 30"
    by (rule heap_free_block [OF h n(1)])
  have "mapping_insert (W n) = (int i, int j)" using mapping_W [of n] n(2) b(8) by simp
  moreover have "block_size_min \<le> W n" using W_le_iff [of 12 n] b(7,8) by (simp add: block_size_min_def)
  moreover have "next_free s (W a) = W (first xs c)" "seg (mem s) a xs c"
    using Cons.prems(1) by (simp_all add: next_free_def load_def W_plus_numeral)
  moreover have "check_list s (int i) (int j) (W (first xs c)) st = Some st"
    by (rule Cons.IH [of a]) (use Cons.prems in auto)
  ultimately show ?case
    using aw b by (subst check_list.simps) simp
qed

lemma check_entry_ok:
  assumes h: "heap s B" and ij: "i < 24" "j < 32"
  shows "check_entry s (int i) (int j) st = Some st"
proof -
  let ?c = "unat (control s)"
  have p: "phys s B" and "lists s (frees B)" using h by (simp_all add: heap_def)
  then obtain L where L: "lists_ok s L" "holds L (frees B)" by (auto simp: lists_def)
  have lk: "linkable ?c (frees B)" by (rule linkable_frees [OF phys_geom [OF p]]) simp
  note acc = list_access [OF L(1) ij]
  have m: "(w :: u32) AND 2 ^ k = 0 \<longleftrightarrow> \<not> bit w k" if "k < 32" for w k
    using that by (auto simp: word_bits_0 bit_and_iff bit_exp_iff)
  have f: "bit (fl_bitmap s) i \<longleftrightarrow> sl_bitmap s ! i \<noteq> 0" using list_access(5) [OF L(1) ij, of i] ij by simp
  have s0: "bit (sl_bitmap s ! i) j \<Longrightarrow> sl_bitmap s ! i \<noteq> 0" by (auto simp: word_bits_0)
  show ?thesis
  proof (cases "L (i, j)")
    case Nil
    then have "\<not> bit (sl_bitmap s ! i) j" using acc(3) by simp
    then show ?thesis
      using Nil acc(1,2) ij by (simp add: check_entry_def Let_def m)
  next
    case (Cons a ys)
    then have b: "bit (sl_bitmap s ! i) j" using acc(3) by simp
    have el: "x \<noteq> ?c \<and> x < 2 ^ 32 \<and> (\<exists>n. (x, n) \<in> frees B \<and> cls n = (i, j))" if "x \<in> set (L (i, j))" for x
      using that holdsD(2) [OF L(2) ij] not_null [OF L(2) lk ij]
        linkable_sites(2) [OF lk, of x] holds_sites [OF L(2) ij] by fastforce
    have "W a \<noteq> control s"
      using el [of a] W_eq_iff [of a ?c] unat_lt32 [of "control s"] by (auto simp: Cons)
    moreover have "check_list s (int i) (int j) (W (first (L (i, j)) ?c)) st = Some st"
      by (rule check_list_ok [OF h acc(4) refl el])
    ultimately show ?thesis
      using Cons acc(1,2) ij b f s0 by (simp add: check_entry_def Let_def m)
  qed
qed

lemma check_entries_ok:
  assumes h: "heap s B" and "\<forall>(i, j) \<in> set ijs. 0 \<le> i \<and> i < 24 \<and> 0 \<le> j \<and> j < 32"
  shows "check_entries s ijs st = Some st"
  using assms(2)
proof (induction ijs)
  case (Cons x ijs)
  obtain i j where x: "x = (i, j)" by (cases x)
  have "0 \<le> i \<and> i < 24 \<and> 0 \<le> j \<and> j < 32" using Cons.prems by (simp add: x)
  then have "nat i < 24" "nat j < 32" "int (nat i) = i" "int (nat j) = j" by auto
  then have "check_entry s i j st = Some st" using check_entry_ok [OF h, of "nat i" "nat j"] by metis
  then show ?case using Cons by (simp add: x)
qed simp

lemma tlsf_check_ok: "heap s B \<Longrightarrow> tlsf_check s = Some 0"
  unfolding tlsf_check_def FL_INDEX_COUNT_def SL_INDEX_COUNT_def by (rule check_entries_ok) auto

lemma walk_blocks_ok:
  assumes "phys s (xs @ ps @ (e, 0, False) # ys)" and "\<forall>x \<in> set ps. fst (snd x) \<noteq> 0"
    and "prev_status integ = (if last_free False xs then 1 else 0)"
  shows "map_option integ_status
      (walk_blocks (integrity_walker s) s (W (fst (hd (ps @ [(e, 0, False)])))) integ) = Some (integ_status integ)"
  using assms
proof (induction ps arbitrary: xs integ)
  case Nil
  note b = phys_block [OF Nil(1) [simplified]]
  have "block_is_last s (W e)" using header_ops(4) [OF b(1)] by simp
  then show ?case by (simp add: walk_blocks.simps)
next
  case (Cons x ps)
  obtain a n f where x: "x = (a, n, f)" by (cases x)
  have n0: "n \<noteq> 0" using Cons.prems(2) by (simp add: x)
  have p: "phys s (xs @ (a, n, f) # (ps @ (e, 0, False) # ys))" using Cons.prems(1) by (simp add: x)
  note b = phys_block [OF p]
  have n: "n mod 4 = 0" "n < 2 ^ 32" using b(3) by auto
  note ops = header_ops [OF b(1) n]
  from geom_next [OF phys_geom [OF p] n0] obtain k g zs where nx: "ps @ (e, 0, False) # ys = (a + n + 4, k, g) # zs" .
  then have hd: "fst (hd (ps @ [(e, 0, False)])) = a + n + 4" by (cases ps) auto
  let ?i = "integ\<lparr>prev_status := if f then 1 else 0\<rparr>"
  have w: "integrity_walker s (block_to_ptr (W a)) (W n) used integ = Some ?i" for used
    using ops(1-3) Cons.prems(3)
    by (simp add: integrity_walker_def Let_def block_from_ptr_def block_to_ptr_def)
  have "map_option integ_status
      (walk_blocks (integrity_walker s) s (W (fst (hd (ps @ [(e, 0, False)])))) ?i) = Some (integ_status ?i)"
  proof (rule Cons.IH)
    show "phys s ((xs @ [(a, n, f)]) @ ps @ (e, 0, False) # ys)" using p by simp
  qed (use Cons.prems in auto)
  then show ?case
    using w ops(1,4,5) n0 b(4) hd by (subst walk_blocks.simps) (simp add: x)
qed

lemma tlsf_check_pool_ok:
  assumes "phys s (xs @ ps @ (e, 0, False) # ys)" and "\<forall>x \<in> set ps. fst (snd x) \<noteq> 0"
    and "\<not> last_free False xs" and "fst (hd (ps @ [(e, 0, False)])) + 4 = m"
  shows "tlsf_check_pool s (W m) = Some 0"
proof -
  let ?i = "\<lparr>prev_status = 0, integ_status = 0\<rparr>"
  have "W m - 4 = W (fst (hd (ps @ [(e, 0, False)])))" using assms(4) by (auto simp: W_add)
  then have "tlsf_walk_pool (Some (integrity_walker s)) s (W m) ?i
      = walk_blocks (integrity_walker s) s (W (fst (hd (ps @ [(e, 0, False)])))) ?i"
    by (simp add: tlsf_walk_pool_def offset_to_block_def block_header_overhead_def)
  then show ?thesis
    using walk_blocks_ok [OF assms(1,2), where integ = ?i] assms(3) by (auto simp: tlsf_check_pool_def)
qed


section \<open>Programs that use the heap\<close>

text \<open>The states a program can reach that creates a heap in one memory area and then allocates,
  also aligned blocks, reallocates and releases what it was given, and writes inside the blocks it holds. \<open>P\<close> is the set of pointers it holds.\<close>

inductive reachable :: "tlsf \<Rightarrow> u32 set \<Rightarrow> bool" where
  create: "m mod 4 = 0 \<Longrightarrow> m \<noteq> 0 \<Longrightarrow> 3208 \<le> bytes \<Longrightarrow> unat m + unat bytes + 16 \<le> 2 ^ 30 \<Longrightarrow>
    tlsf_create_with_pool m bytes s0 = Some (t, s) \<Longrightarrow> reachable s {}"
| malloc: "reachable s P \<Longrightarrow> sz \<le> 0xFFFFFFFC \<Longrightarrow> tlsf_malloc sz s = Some (p, s') \<Longrightarrow> p \<noteq> 0 \<Longrightarrow> reachable s' (insert p P)"
| malloc_fails: "reachable s P \<Longrightarrow> sz \<le> 0xFFFFFFFC \<Longrightarrow> tlsf_malloc sz s = Some (0, s') \<Longrightarrow> reachable s' P"
| memalign: "reachable s P \<Longrightarrow> e \<le> 29 \<Longrightarrow> sz \<le> 0xFFFFFFFC \<Longrightarrow> tlsf_memalign (2 ^ e) sz s = Some (p, s') \<Longrightarrow> p \<noteq> 0 \<Longrightarrow>
    reachable s' (insert p P)"
| memalign_fails: "reachable s P \<Longrightarrow> e \<le> 29 \<Longrightarrow> sz \<le> 0xFFFFFFFC \<Longrightarrow> tlsf_memalign (2 ^ e) sz s = Some (0, s') \<Longrightarrow> reachable s' P"
| realloc: "reachable s P \<Longrightarrow> p \<in> P \<Longrightarrow> 0 < sz \<Longrightarrow> sz \<le> 0x3FFFFFFC \<Longrightarrow> tlsf_realloc p sz s = Some (q, s') \<Longrightarrow> q \<noteq> 0 \<Longrightarrow>
    reachable s' (insert q (P - {p}))"
| realloc_fails: "reachable s P \<Longrightarrow> p \<in> P \<Longrightarrow> 0 < sz \<Longrightarrow> sz \<le> 0x3FFFFFFC \<Longrightarrow> tlsf_realloc p sz s = Some (0, s') \<Longrightarrow>
    reachable s' P"
| free: "reachable s P \<Longrightarrow> p \<in> P \<Longrightarrow> tlsf_free p s = Some s' \<Longrightarrow> reachable s' (P - {p})"
| assign: "reachable s P \<Longrightarrow> p \<in> P \<Longrightarrow> unat off mod 4 = 0 \<Longrightarrow> off < tlsf_block_size s p \<Longrightarrow> reachable (store (p + off) v s) P"

definition pointers :: "blk list \<Rightarrow> u32 set" where
  "pointers B = {W (a + 8) |a n. (a, n) \<in> useds B}"

lemma pointers_insert: "useds B' = insert (a, n) (useds B) \<Longrightarrow> pointers B' = insert (W (a + 8)) (pointers B)"
  by (auto simp: pointers_def)

lemma used_inj:
  assumes g: "geom c B" and "(a, n) \<in> useds B" and "(b, k) \<in> useds B" and "W (a + 8) = W (b + 8)"
  shows "a = b" and "n = k"
proof -
  have x: "(a, n, False) \<in> set B" "(b, k, False) \<in> set B" using assms(2,3) by (auto simp: useds_def)
  have "a + 8 < 2 ^ 32" "b + 8 < 2 ^ 32" using geom_in(5) [OF g x(1)] geom_in(5) [OF g x(2)] by simp_all
  then show "a = b" using assms(4) W_eq_iff by (metis add_right_cancel)
  with geom_pairwise [OF g x] show "n = k" by auto
qed

lemma pointers_remove:
  assumes g: "geom c B" and a: "(a, n) \<in> useds B" and u: "useds B' = useds B - {(a, n)}"
  shows "pointers B' = pointers B - {W (a + 8)}"
proof -
  have "(b, k) \<in> useds B \<Longrightarrow> (b, k) \<noteq> (a, n) \<longleftrightarrow> W (b + 8) \<noteq> W (a + 8)" for b k
    using used_inj [OF g _ a, of b k] by auto
  then show ?thesis unfolding pointers_def u by auto
qed

text \<open>What is common to the ways of allocating: the block handed out is new and disjoint from the others,
  and a search that fails has no fitting free block.\<close>

lemma fresh_block:
  assumes h: "heap s' B'" and u: "useds B' = insert (a, m) (useds B)" and new: "(a, m) \<notin> useds B"
  shows "W (a + 8) \<noteq> 0" and "unat (W (a + 8)) = a + 8" and "(a + 8) mod 4 = 0"
    and "\<forall>(b, k) \<in> useds B. {b + 8..<b + 8 + k} \<inter> {a + 8..<a + 8 + m} = {}"
proof -
  have g: "geom (unat (control s')) B'" using h by (simp add: heap_def phys_geom)
  have x: "(a, m, False) \<in> set B'" using u by (auto simp: useds_def)
  note i = geom_in [OF g x]
  show "W (a + 8) \<noteq> 0" "unat (W (a + 8)) = a + 8" using i by (simp_all add: W_eq_0_iff unat_W)
  show "(a + 8) mod 4 = 0" using i by presburger
  have "{b + 8..<b + 8 + k} \<inter> {a + 8..<a + 8 + m} = {}" if b: "(b, k) \<in> useds B" for b k
  proof -
    have "(b, k, False) \<in> set B'" using b u by (auto simp: useds_def)
    from geom_pairwise [OF g x this] show ?thesis using b new by auto
  qed
  then show "\<forall>(b, k) \<in> useds B. {b + 8..<b + 8 + k} \<inter> {a + 8..<a + 8 + m} = {}" by blast
qed

lemma no_fit:
  assumes h: "heap s B" and no: "\<forall>a m. (a, m) \<in> frees B \<longrightarrow> k = 0 \<or> \<not> class_le (cls (rounded k)) (cls m)"
  shows "k = 0 \<or> (\<forall>(a, n) \<in> frees B. n < rounded k)"
proof -
  have "n < rounded k" if "(a, n) \<in> frees B" "k \<noteq> 0" for a n
  proof (rule ccontr)
    assume "\<not> n < rounded k"
    moreover have "phys s B" using h by (simp add: heap_def)
    then have "n < 2 ^ 32" using geom_in(5) [OF phys_geom] that(1) by (fastforce simp: frees_def)
    ultimately have "class_le (cls (rounded k)) (cls n)" by (intro cls_mono) auto
    with no [rule_format, OF that(1)] that(2) show False by simp
  qed
  then show ?thesis by blast
qed

lemma adjusted_nonzero:
  assumes "0 < sz" "sz \<le> (0x3FFFFFFC :: u32)"
  shows "adjusted (unat sz) \<noteq> 0" and "unat sz + 3 < 2 ^ 32"
proof -
  have "0 < unat sz" "unat sz \<le> 0x3FFFFFFC" using assms by (simp_all add: unat_gt_0 word_le_nat_alt)
  then show "adjusted (unat sz) \<noteq> 0" "unat sz + 3 < 2 ^ 32" by (auto simp: adjusted_def)
qed

lemma pointers_replace:
  assumes g: "geom c B" and a: "(a, n) \<in> useds B" and u: "useds B' = insert (b, m) (useds B - {(a, n)})"
  shows "pointers B' = insert (W (b + 8)) (pointers B - {W (a + 8)})"
proof -
  have "pointers (except a n B) = pointers B - {W (a + 8)}"
    by (rule pointers_remove [OF g a useds_except])
  then show ?thesis using pointers_insert [of B' b m "except a n B"] u by (simp add: useds_except)
qed

lemma create_with_pool_ok:
  assumes m: "m mod 4 = 0" "0 < m" and k: "3208 \<le> k" and lim: "m + k + 16 \<le> 2 ^ 30"
  obtains s' where "tlsf_create_with_pool (W m) (W k) s = Some (W m, s')"
    "heap s' (pool_blocks (m + 3188) (pool_bytes (k - 3188)))" "control s' = W m"
proof -
  let ?s1 = "control_construct (s\<lparr>control := W m\<rparr>)"
  have al: "W m mod ALIGN_SIZE = 0"
    using m lim by (simp add: ALIGN_SIZE_def word_unat_eq_iff unat_W unat_mod_distrib)
  have h: "heap ?s1 []" "control ?s1 = W m"
    using control_construct_heap [of "s\<lparr>control := W m\<rparr>" m] m lim k by simp_all
  have c: "unat (control ?s1) = m" using h(2) lim by (simp add: unat_W)
  have r: "room (unat (control ?s1)) [] (m + 3188) (k - 3188)" using m lim k c by (simp add: room_def)
  have k2: "8 \<le> k - 3188" "12 \<le> pool_bytes (k - 3188)" using k by (auto simp: pool_bytes_def)
  have m2: "(m + 3188) mod 4 = 0" using m(1) by presburger
  obtain s' where s': "tlsf_add_pool (W (m + 3188)) (W (k - 3188)) ?s1 = Some (W (m + 3188), s')"
      "heap s' ([] @ pool_blocks (m + 3188) (pool_bytes (k - 3188)))" "kept [] ?s1 s'"
    by (rule tlsf_add_pool_ok [OF h(1) r m2 k2])
  have "W m + tlsf_size = W (m + 3188)" "W k - tlsf_size = W (k - 3188)"
    using k by (simp_all add: tlsf_size_def W_add W_diff)
  then have "tlsf_create_with_pool (W m) (W k) s = Some (W m, s')"
    using al s'(1) by (simp add: tlsf_create_with_pool_def tlsf_create_def)
  moreover have "control s' = W m" using s'(3) h(2) by (simp add: kept_def)
  ultimately show thesis using s'(2) by (intro that) simp_all
qed

lemma reachable_heap:
  "reachable s P \<Longrightarrow> \<exists>B. heap s B \<and> P = pointers B"
proof (induction rule: reachable.induct)
  case (create m bytes s0 t s)
  have "unat m mod 4 = unat (m mod 4)" by (simp add: unat_mod_distrib)
  then have m: "unat m mod 4 = 0" "0 < unat m" using create(1,2) by (simp_all add: unat_gt_0)
  have k: "3208 \<le> unat bytes" using create(3) by (simp add: word_le_nat_alt)
  obtain s' where s': "tlsf_create_with_pool (W (unat m)) (W (unat bytes)) s0 = Some (W (unat m), s')"
      "heap s' (pool_blocks (unat m + 3188) (pool_bytes (unat bytes - 3188)))" "control s' = W (unat m)"
    by (rule create_with_pool_ok [OF m k create(4)])
  then have "s' = s" using create(5) by simp
  moreover have "pointers (pool_blocks x y) = {}" for x y by (auto simp: pointers_def pool_blocks_def)
  ultimately show ?case using s'(2) by auto
next
  case (malloc s P sz p s')
  then obtain B where B: "heap s B" "P = pointers B" by blast
  have "unat sz + 3 < 2 ^ 32" using malloc(2) by (simp add: word_le_nat_alt)
  then show ?case
  proof (rule tlsf_malloc_ok [OF B(1)])
    assume "tlsf_malloc (W (unat sz)) s = Some (0, s)"
    then show ?case using malloc(3,4) by simp
  next
    fix a m s1 B' assume r: "tlsf_malloc (W (unat sz)) s = Some (W (a + 8), s1)" "heap s1 B'"
      "useds B' = insert (a, m) (useds B)"
    then have "p = W (a + 8)" "s' = s1" using malloc(3) by simp_all
    then have "heap s' B'" "insert p P = pointers B'" using pointers_insert [OF r(3)] r(2) B(2) by simp_all
    then show ?case by blast
  qed
next
  case (malloc_fails s P sz s')
  then obtain B where B: "heap s B" "P = pointers B" by blast
  have "unat sz + 3 < 2 ^ 32" using malloc_fails(2) by (simp add: word_le_nat_alt)
  then show ?case
  proof (rule tlsf_malloc_ok [OF B(1)])
    assume "tlsf_malloc (W (unat sz)) s = Some (0, s)"
    then show ?case using malloc_fails(3) B by auto
  next
    fix a m s1 B' assume r: "tlsf_malloc (W (unat sz)) s = Some (W (a + 8), s1)" "heap s1 B'"
      "useds B' = insert (a, m) (useds B)"
    then have "(a, m, False) \<in> set B'" by (auto simp: useds_def)
    moreover have "phys s1 B'" using r(2) by (simp add: heap_def)
    ultimately have "a + m + 16 \<le> 2 ^ 30" using geom_in(5) [OF phys_geom] by blast
    then have "W (a + 8) \<noteq> 0" by (simp add: W_eq_0_iff)
    then show ?case using malloc_fails(3) r(1) by simp
  qed
next
  case (memalign s P e sz p s')
  then obtain B where B: "heap s B" "P = pointers B" by blast
  have "unat sz + 3 < 2 ^ 32" using memalign(3) by (simp add: word_le_nat_alt)
  then show ?case
  proof (rule tlsf_memalign_ok [OF B(1) _ memalign(2)])
    assume "tlsf_memalign (W (2 ^ e)) (W (unat sz)) s = Some (0, s)"
    then show ?case using memalign(2,4,5) by (simp add: pow_W(1))
  next
    fix a m s1 B' assume r: "tlsf_memalign (W (2 ^ e)) (W (unat sz)) s = Some (W (a + 8), s1)" "heap s1 B'"
      "useds B' = insert (a, m) (useds B)"
    then have "p = W (a + 8)" "s' = s1" using memalign(2,4) by (simp_all add: pow_W(1))
    then have "heap s' B'" "insert p P = pointers B'" using pointers_insert [OF r(3)] r(2) B(2) by simp_all
    then show ?case by blast
  qed
next
  case (memalign_fails s P e sz s')
  then obtain B where B: "heap s B" "P = pointers B" by blast
  have "unat sz + 3 < 2 ^ 32" using memalign_fails(3) by (simp add: word_le_nat_alt)
  then show ?case
  proof (rule tlsf_memalign_ok [OF B(1) _ memalign_fails(2)])
    assume "tlsf_memalign (W (2 ^ e)) (W (unat sz)) s = Some (0, s)"
    then show ?case using memalign_fails(2,4) B by (auto simp: pow_W(1))
  next
    fix a m s1 B' assume r: "tlsf_memalign (W (2 ^ e)) (W (unat sz)) s = Some (W (a + 8), s1)" "heap s1 B'"
      "useds B' = insert (a, m) (useds B)" "(a, m) \<notin> useds B"
    then show ?case using memalign_fails(2,4) fresh_block(1) [OF r(2-4)] by (simp add: pow_W(1))
  qed
next
  case (realloc s P p sz q s')
  then obtain B where B: "heap s B" "P = pointers B" by blast
  then obtain a n where a: "(a, n) \<in> useds B" "p = W (a + 8)" using realloc(2) by (auto simp: pointers_def)
  have g: "geom (unat (control s)) B" using B(1) by (simp add: heap_def phys_geom)
  note k = adjusted_nonzero [OF realloc(3,4)]
  show ?case
  proof (rule tlsf_realloc_ok [OF B(1) a(1) k(2,1)])
    assume "tlsf_realloc (W (a + 8)) (W (unat sz)) s = Some (0, s)"
    then show ?case using realloc(5,6) a(2) by simp
  next
    fix c m s1 B' assume r: "tlsf_realloc (W (a + 8)) (W (unat sz)) s = Some (W (c + 8), s1)" "heap s1 B'"
      "useds B' = insert (c, m) (useds B - {(a, n)})"
    then have "q = W (c + 8)" "s' = s1" using realloc(5) a(2) by simp_all
    then have "heap s' B'" "insert q (P - {p}) = pointers B'"
      using pointers_replace [OF g a(1) r(3)] r(2) B(2) a(2) by simp_all
    then show ?case by blast
  qed
next
  case (realloc_fails s P p sz s')
  then obtain B where B: "heap s B" "P = pointers B" by blast
  then obtain a n where a: "(a, n) \<in> useds B" "p = W (a + 8)" using realloc_fails(2) by (auto simp: pointers_def)
  note k = adjusted_nonzero [OF realloc_fails(3,4)]
  show ?case
  proof (rule tlsf_realloc_ok [OF B(1) a(1) k(2,1)])
    assume "tlsf_realloc (W (a + 8)) (W (unat sz)) s = Some (0, s)"
    then show ?case using realloc_fails(5) a(2) B by auto
  next
    fix c m s1 B' assume r: "tlsf_realloc (W (a + 8)) (W (unat sz)) s = Some (W (c + 8), s1)" "heap s1 B'"
      "useds B' = insert (c, m) (useds B - {(a, n)})"
    then have "W (c + 8) \<noteq> 0" using fresh_block(1) [of s1 B' c m "except c m B'"] by (simp add: useds_except insert_absorb)
    then show ?case using realloc_fails(5) a(2) r(1) by simp
  qed
next
  case (free s P p s')
  then obtain B where B: "heap s B" "P = pointers B" by blast
  then obtain a n where a: "(a, n) \<in> useds B" "p = W (a + 8)" using free(2) by (auto simp: pointers_def)
  obtain s1 B' where r: "tlsf_free (W (a + 8)) s = Some s1" "heap s1 B'" "useds B' = useds B - {(a, n)}" "kept B' s s1"
    by (rule tlsf_free_ok [OF B(1) a(1)])
  have g: "geom (unat (control s)) B" using B(1) by (simp add: heap_def phys_geom)
  have "heap s' B'" "P - {p} = pointers B'"
    using r(1,2) free(3) a(2) B(2) pointers_remove [OF g a(1) r(3)] by simp_all
  then show ?case by blast
next
  case (assign s P p off v)
  then obtain B where B: "heap s B" "P = pointers B" by blast
  then obtain a n where a: "(a, n) \<in> useds B" "p = W (a + 8)" using assign(2) by (auto simp: pointers_def)
  have ph: "phys s B" using B(1) by (simp add: heap_def)
  obtain xs zs where b: "B = xs @ (a, n, False) # zs" "n \<noteq> 0" "block_size s (W a) = W n" "\<not> block_is_free s (W a)"
      "W (a + 8) \<noteq> 0" "block_from_ptr (W (a + 8)) = W a" "12 \<le> n" "n mod 4 = 0" "n < 2 ^ 30"
    by (rule used_block [OF ph a(1)])
  have "off < W n" using assign(4) a(2) b(3,5,6) by (simp add: tlsf_block_size_def)
  then have "unat off < n" using b(9) by (simp add: word_less_nat_alt unat_W)
  then have "heap (store (W (a + 8 + unat off)) v s) B"
    by (intro store_user [OF B(1) a(1)]) auto
  moreover have "p + off = W (a + 8 + unat off)" using a(2) by (simp add: W_add)
  ultimately show ?case using B(2) by metis
qed
section \<open>A concrete heap\<close>

definition blank :: tlsf where
  "blank = \<lparr>mem = \<lambda>_. 0, control = 0, fl_bitmap = 0, sl_bitmap = [], blocks = []\<rparr>"

lemma sample_heap:
  obtains s where "tlsf_create_with_pool 0x06004000 0x8000 blank = Some (0x06004000, s)"
    "heap s (pool_blocks 100682868 29572)"
proof -
  have k: "(3208 :: nat) \<le> 0x8000" and m: "(0x06004000 :: nat) mod 4 = 0" "0 < (0x06004000 :: nat)"
    and l: "(0x06004000 :: nat) + 0x8000 + 16 \<le> 2 ^ 30" by simp_all
  obtain s where "tlsf_create_with_pool (W 0x06004000) (W 0x8000) blank = Some (W 0x06004000, s)"
    "heap s (pool_blocks (0x06004000 + 3188) (pool_bytes (0x8000 - 3188)))" "control s = W 0x06004000"
    by (rule create_with_pool_ok [OF m k l])
  moreover have "pool_bytes (0x8000 - 3188) = 29572" by (simp add: pool_bytes_def)
  ultimately show thesis by (intro that) simp_all
qed

lemma sample_malloc:
  assumes h: "heap s (pool_blocks 100682868 29572)"
  obtains p n s' B' where "tlsf_malloc 100 s = Some (p, s')" "p \<noteq> 0" "heap s' B'" "useds B' = {(unat p - 8, n)}" "8 \<le> unat p"
proof -
  have w: "W 100 = 100" by simp
  have ad: "adjusted 100 = 100" "rounded 100 = 100" by (simp_all add: adjusted_def rounded_def)
  have cl: "class_le (cls 100) (cls 29572)" by (intro cls_mono) auto
  have "(100 :: nat) + 3 < 2 ^ 32" by simp
  then show thesis
  proof (rule tlsf_malloc_ok [OF h])
    assume no: "\<forall>a m. (a, m) \<in> frees (pool_blocks 100682868 29572) \<longrightarrow>
       adjusted 100 = 0 \<or> \<not> class_le (cls (rounded (adjusted 100))) (cls m)"
    have "(100682864, 29572) \<in> frees (pool_blocks 100682868 29572)" by (simp add: pool_blocks_def)
    from no [rule_format, OF this] cl show thesis unfolding ad by simp
  next
    fix a m s' B' assume r: "tlsf_malloc (W 100) s = Some (W (a + 8), s')" "heap s' B'"
      "useds B' = insert (a, m) (useds (pool_blocks 100682868 29572))"
    have x: "(a, m, False) \<in> set B'" using r(3) by (auto simp: useds_def)
    have "phys s' B'" using r(2) by (simp add: heap_def)
    from geom_in(5) [OF phys_geom [OF this] x] have lim: "a + 8 < 2 ^ 32" by simp
    show thesis
      by (rule that [of "W (a + 8)" s' B' m]) (use r lim in \<open>auto simp: W_eq_0_iff unat_W pool_blocks_def\<close>)
  qed
qed

text \<open>The smallest heap: one block of 12 bytes, which is then allocated.\<close>

lemma small_malloc:
  obtains s a s' B' where "tlsf_malloc 12 s = Some (W (a + 8), s')" "W (a + 8) \<noteq> 0" "heap s' B'" "useds B' = {(a, 12)}"
proof -
  obtain s where h: "heap s (pool_blocks (0x06004000 + 3188) (pool_bytes (3208 - 3188)))"
    by (rule create_with_pool_ok [of "0x06004000" 3208 blank]) simp_all
  have B: "frees (pool_blocks (0x06004000 + 3188) (pool_bytes (3208 - 3188))) = {(0x06004000 + 3184, 12)}"
    "useds (pool_blocks (0x06004000 + 3188) (pool_bytes (3208 - 3188))) = {}"
    by (simp_all add: pool_blocks_def pool_bytes_def)
  have ad: "adjusted 12 = 12" "rounded 12 = 12" by (simp_all add: adjusted_def rounded_def)
  have cl: "class_le (cls 12) (cls 12)" by (intro cls_mono) auto
  have "(12 :: nat) + 3 < 2 ^ 32" by simp
  then show thesis
  proof (rule tlsf_malloc_ok [OF h])
    assume no: "\<forall>a m. (a, m) \<in> frees (pool_blocks (0x06004000 + 3188) (pool_bytes (3208 - 3188))) \<longrightarrow>
       adjusted 12 = 0 \<or> \<not> class_le (cls (rounded (adjusted 12))) (cls m)"
    then show thesis using cl unfolding B ad by simp
  next
    fix a m s' B' assume r: "tlsf_malloc (W 12) s = Some (W (a + 8), s')" "heap s' B'"
      "useds B' = insert (a, m) (useds (pool_blocks (0x06004000 + 3188) (pool_bytes (3208 - 3188))))"
      "adjusted 12 \<le> m" "\<exists>j. (a, j) \<in> frees (pool_blocks (0x06004000 + 3188) (pool_bytes (3208 - 3188))) \<and> m \<le> j"
    have m: "m = 12" "a = 0x06004000 + 3184" using r(4,5) unfolding B ad by auto
    show thesis
      by (rule that [OF _ _ r(2), of s a]) (use r(1,3) B(2) m in \<open>simp_all add: W_eq_0_iff\<close>)
  qed
qed

lemma sample_reachable: "\<exists>s p. p \<noteq> 0 \<and> reachable s {p}"
proof -
  obtain s where s: "tlsf_create_with_pool 0x06004000 0x8000 blank = Some (0x06004000, s)"
      "heap s (pool_blocks 100682868 29572)" by (rule sample_heap)
  have r: "reachable s {}" by (rule reachable.create [OF _ _ _ _ s(1)]) simp_all
  obtain p n s' B' where "tlsf_malloc 100 s = Some (p, s')" "p \<noteq> 0" "heap s' B'" "useds B' = {(unat p - 8, n)}" "8 \<le> unat p"
    by (rule sample_malloc [OF s(2)])
  then have "reachable s' {p}" using reachable.malloc [OF r, of 100 p s'] by simp
  with \<open>p \<noteq> 0\<close> show ?thesis by blast
qed

section \<open>Properties\<close>

text \<open>C3: Allocation. In a well-formed heap \<open>tlsf_malloc\<close> always returns, with no assertion failing. It returns
  \<open>NULL\<close>, without any effect, only for a size of 0, a size the allocator does not support, or when every
  free block is smaller than the request rounded up to its size class. Otherwise it returns a
  4-aligned pointer to a new block of at least the size asked for, which overlaps no block in use;
  the heap stays well formed and the contents of all blocks in use are unchanged.\<close>

theorem tlsf_malloc_correct:
  assumes "heap s B" and "sz \<le> 0xFFFFFFFC"
  shows "\<exists>p s'. tlsf_malloc sz s = Some (p, s') \<and>
    (if p = 0 then s' = s \<and> (adjusted (unat sz) = 0 \<or> (\<forall>(a, n) \<in> frees B. n < rounded (adjusted (unat sz))))
     else \<exists>B' n. heap s' B' \<and> unat p mod 4 = 0 \<and> unat sz \<le> n \<and> useds B' = insert (unat p - 8, n) (useds B) \<and>
       (\<forall>(b, k) \<in> useds B. {b + 8..<b + 8 + k} \<inter> {unat p..<unat p + n} = {}) \<and> kept B s s')"
proof -
  let ?k = "adjusted (unat sz)"
  have "unat sz + 3 < 2 ^ 32" using assms(2) by (simp add: word_le_nat_alt)
  then show ?thesis
  proof (rule tlsf_malloc_ok [OF assms(1)])
    assume r: "tlsf_malloc (W (unat sz)) s = Some (0, s)"
      "\<forall>a m. (a, m) \<in> frees B \<longrightarrow> ?k = 0 \<or> \<not> class_le (cls (rounded ?k)) (cls m)"
    from no_fit [OF assms(1) r(2)] r(1) show ?thesis by auto
  next
    fix a m s' B' assume r: "tlsf_malloc (W (unat sz)) s = Some (W (a + 8), s')" "heap s' B'"
      "useds B' = insert (a, m) (useds B)" "(a, m) \<notin> useds B" "?k \<noteq> 0" "?k \<le> m" "kept B s s'"
    note p = fresh_block [OF r(2-4)]
    have sz: "unat sz \<le> m" using adjusted_props(3) [OF r(5)] r(6) by linarith
    have "tlsf_malloc sz s = Some (W (a + 8), s')" using r(1) by simp
    then show ?thesis
      using r p sz by (intro exI [of _ "W (a + 8)"] exI [of _ s']) (auto intro!: exI [of _ B'] exI [of _ m])
  qed
qed

theorem tlsf_malloc_correct_witness:
  "\<exists>s B p s'. heap s B \<and> tlsf_malloc 100 s = Some (p, s') \<and> (\<exists>B'. heap s' B')"
proof -
  obtain s where h: "heap s (pool_blocks 100682868 29572)" by (rule sample_heap)
  from tlsf_malloc_correct [OF h, of 100] obtain p s' where r: "tlsf_malloc 100 s = Some (p, s')"
    and f: "if p = 0 then s' = s else \<exists>B'. heap s' B'"
    by (auto split: if_splits) blast
  have "\<exists>B'. heap s' B'" using f h by (cases "p = 0") auto
  with h r show ?thesis by blast
qed

text \<open>C5: Aligned allocation. For an alignment that is a power of two up to 2^29, the request is served with
  a new block whose address is a multiple of it, disjoint from all others, and the rest of the heap
  is kept; it fails only if no free block has room for the block and the gap before it.\<close>

theorem tlsf_memalign_correct:
  assumes "heap s B" and "sz \<le> 0xFFFFFFFC" and "e \<le> 29"
  shows "\<exists>p s'. tlsf_memalign (2 ^ e) sz s = Some (p, s') \<and>
    (if p = 0 then s' = s \<and> (request e (adjusted (unat sz)) = 0 \<or>
       (\<forall>(a, n) \<in> frees B. n < rounded (request e (adjusted (unat sz)))))
     else \<exists>B' n. heap s' B' \<and> 2 ^ e dvd unat p \<and> unat sz \<le> n \<and> useds B' = insert (unat p - 8, n) (useds B) \<and>
       (\<forall>(b, k) \<in> useds B. {b + 8..<b + 8 + k} \<inter> {unat p..<unat p + n} = {}) \<and> kept B s s')"
proof -
  let ?k = "adjusted (unat sz)"
  have "unat sz + 3 < 2 ^ 32" using assms(2) by (simp add: word_le_nat_alt)
  then show ?thesis
  proof (rule tlsf_memalign_ok [OF assms(1) _ assms(3)])
    assume r: "tlsf_memalign (W (2 ^ e)) (W (unat sz)) s = Some (0, s)"
      "\<forall>a m. (a, m) \<in> frees B \<longrightarrow> request e ?k = 0 \<or> \<not> class_le (cls (rounded (request e ?k))) (cls m)"
    have "tlsf_memalign (2 ^ e) sz s = Some (0, s)" using r(1) assms(3) by (simp add: pow_W(1))
    with no_fit [OF assms(1) r(2)] show ?thesis by auto
  next
    fix a m s' B' assume r: "tlsf_memalign (W (2 ^ e)) (W (unat sz)) s = Some (W (a + 8), s')" "2 ^ e dvd a + 8"
      "heap s' B'" "useds B' = insert (a, m) (useds B)" "(a, m) \<notin> useds B" "?k \<noteq> 0" "?k \<le> m" "kept B s s'"
    note p = fresh_block [OF r(3-5)]
    have sz: "unat sz \<le> m" using adjusted_props(3) [OF r(6)] r(7) by linarith
    have "tlsf_memalign (2 ^ e) sz s = Some (W (a + 8), s')" using r(1) assms(3) by (simp add: pow_W(1))
    then show ?thesis
      using r p sz by (intro exI [of _ "W (a + 8)"] exI [of _ s']) (auto intro!: exI [of _ B'] exI [of _ m])
  qed
qed

theorem tlsf_memalign_correct_witness:
  "\<exists>s B p s'. heap s B \<and> tlsf_memalign 64 100 s = Some (p, s') \<and> (p \<noteq> 0 \<longrightarrow> 64 dvd unat p)"
proof -
  obtain s where h: "heap s (pool_blocks 100682868 29572)" by (rule sample_heap)
  from tlsf_memalign_correct [OF h, of 100 6] obtain p s' where
    "tlsf_memalign 64 100 s = Some (p, s')" "p \<noteq> 0 \<longrightarrow> 64 dvd unat p"
    by (auto split: if_splits)
  with h show ?thesis by blast
qed

text \<open>C4: Release. Freeing a block in use always succeeds: the block, merged with its free neighbours, goes
  back to the free lists, so that exactly it leaves the set of blocks in use; the heap stays well
  formed and the contents of all other blocks in use are unchanged. Freeing \<open>NULL\<close> has no effect.\<close>

theorem tlsf_free_correct:
  assumes "heap s B" and "(a, n) \<in> useds B"
  shows "(\<exists>s' B'. tlsf_free (of_nat (a + 8)) s = Some s' \<and> heap s' B' \<and> useds B' = useds B - {(a, n)} \<and> kept B' s s') \<and>
    tlsf_free 0 s = Some s"
proof -
  obtain s' B' where "tlsf_free (W (a + 8)) s = Some s'" "heap s' B'" "useds B' = useds B - {(a, n)}" "kept B' s s'"
    by (rule tlsf_free_ok [OF assms])
  moreover have "tlsf_free 0 s = Some s" by (simp add: tlsf_free_def)
  ultimately show ?thesis unfolding W_def by blast
qed

theorem tlsf_free_correct_witness:
  "\<exists>s p s1 s2 B. tlsf_malloc 100 s = Some (p, s1) \<and> tlsf_free p s1 = Some s2 \<and> heap s2 B \<and> useds B = {}"
proof -
  obtain s where h: "heap s (pool_blocks 100682868 29572)" by (rule sample_heap)
  obtain p n s1 B1 where r: "tlsf_malloc 100 s = Some (p, s1)" "p \<noteq> 0" "heap s1 B1" "useds B1 = {(unat p - 8, n)}" "8 \<le> unat p"
    by (rule sample_malloc [OF h])
  have "of_nat (unat p - 8 + 8) = p" using r(5) by simp
  with tlsf_free_correct [OF r(3), of "unat p - 8" n] r(4) obtain s2 B where
    "tlsf_free p s1 = Some s2" "heap s2 B" "useds B = {}" by auto
  with r(1) show ?thesis by blast
qed

text \<open>C6: Reallocation of a block to a size the heap supports. It returns \<open>NULL\<close> and leaves everything as it
  was, or a pointer to a block that is large enough and starts with the old contents, while the old
  block is no longer in use; the contents of all other blocks are unchanged.\<close>

theorem tlsf_realloc_correct:
  assumes "heap s B" and "(a, n) \<in> useds B" and "0 < sz" and "sz \<le> 0x3FFFFFFC"
  shows "\<exists>p s'. tlsf_realloc (of_nat (a + 8)) sz s = Some (p, s') \<and>
    (if p = 0 then s' = s
     else \<exists>B' m. heap s' B' \<and> unat sz \<le> m \<and> useds B' = insert (unat p - 8, m) (useds B - {(a, n)}) \<and>
       (\<forall>i < min n (unat sz). load_byte s' (p + of_nat i) = load_byte s (of_nat (a + 8 + i))) \<and>
       (\<forall>(b, k) \<in> useds B - {(a, n)}. \<forall>y. b + 8 \<le> y \<longrightarrow> y < b + k + 8 \<longrightarrow> mem s' (of_nat y) = mem s (of_nat y)))"
proof -
  note k = adjusted_nonzero [OF assms(3,4)]
  show ?thesis
  proof (rule tlsf_realloc_ok [OF assms(1,2) k(2,1)])
    assume "tlsf_realloc (W (a + 8)) (W (unat sz)) s = Some (0, s)"
    then show ?thesis by (simp add: W_def)
  next
    fix c m s' B' assume r: "tlsf_realloc (W (a + 8)) (W (unat sz)) s = Some (W (c + 8), s')" "heap s' B'"
      "useds B' = insert (c, m) (useds B - {(a, n)})" "adjusted (unat sz) \<le> m" "kept (except a n B) s s'"
      "\<forall>i < min n (unat sz). load_byte s' (W (c + 8 + i)) = load_byte s (W (a + 8 + i))"
    have p: "W (c + 8) \<noteq> 0" "unat (W (c + 8)) = c + 8"
      using fresh_block(1,2) [of s' B' c m "except c m B'"] r(2,3) by (simp_all add: useds_except insert_absorb)
    have sz: "unat sz \<le> m" using adjusted_props(3) [OF k(1)] r(4) by linarith
    have "tlsf_realloc (of_nat (a + 8)) sz s = Some (W (c + 8), s')" using r(1) by (simp add: W_def)
    moreover have "\<forall>i < min n (unat sz). load_byte s' (W (c + 8) + of_nat i) = load_byte s (of_nat (a + 8 + i))"
      using r(6) by (simp add: W_def ac_simps)
    moreover have "\<forall>(b, k) \<in> useds B - {(a, n)}. \<forall>y. b + 8 \<le> y \<longrightarrow> y < b + k + 8 \<longrightarrow> mem s' (of_nat y) = mem s (of_nat y)"
      using r(5) unfolding kept_def useds_except W_def by blast
    ultimately show ?thesis
      using p sz r(2,3) by (intro exI [of _ "W (c + 8)"] exI [of _ s'] conjI) (simp_all, blast)
  qed
qed

theorem tlsf_realloc_correct_witness:
  "\<exists>s p s1 q s2. tlsf_malloc 100 s = Some (p, s1) \<and> p \<noteq> 0 \<and> tlsf_realloc p 200 s1 = Some (q, s2) \<and> (q = 0 \<longrightarrow> s2 = s1)"
proof -
  obtain s where h: "heap s (pool_blocks 100682868 29572)" by (rule sample_heap)
  obtain p n s1 B1 where r: "tlsf_malloc 100 s = Some (p, s1)" "p \<noteq> 0" "heap s1 B1" "useds B1 = {(unat p - 8, n)}" "8 \<le> unat p"
    by (rule sample_malloc [OF h])
  have "of_nat (unat p - 8 + 8) = p" using r(5) by simp
  with tlsf_realloc_correct [OF r(3), of "unat p - 8" n 200] r(4) obtain q s2 where
    "tlsf_realloc p 200 s1 = Some (q, s2)" "q = 0 \<longrightarrow> s2 = s1" by (auto split: if_splits)
  with r(1,2) show ?thesis by blast
qed

text \<open>C27: Reallocation of a small block to a size that cannot be served reports success: for a block of 12
  bytes and a request of 2^30 bytes or more, the same pointer is returned, to the same 12 bytes.\<close>

theorem tlsf_realloc_oversize:
  assumes "heap s B" and "(a, 12) \<in> useds B" and "0x40000000 \<le> sz" and "sz \<le> 0xFFFFFFFC"
  shows "tlsf_realloc (of_nat (a + 8)) sz s = Some (of_nat (a + 8), s) \<and> tlsf_block_size s (of_nat (a + 8)) = 12"
proof -
  have d: "detached s B {}" using assms(1) by (simp add: heap_detached)
  obtain xs ws where b: "B = xs @ (a, 12, False) # ws" "(12 :: nat) \<noteq> 0" "block_size s (W a) = W 12" "\<not> block_is_free s (W a)"
      "W (a + 8) \<noteq> 0" "block_from_ptr (W (a + 8)) = W a" "12 \<le> (12 :: nat)" "12 mod 4 = (0 :: nat)" "12 < (2 :: nat) ^ 30"
    by (rule used_block [OF detached_phys [OF d] assms(2)])
  from detached_next [OF d [unfolded b(1)] b(2)] obtain j f zs where ws: "ws = (a + 12 + 4, j, f) # zs" .
  note q = phys_pair [OF detached_phys [OF d, unfolded b(1) ws] b(2)]
  have nx: "block_next s (W a) = Some (W (a + 12 + 4))" using header_ops(5) [OF q(9)] q by simp
  have sz: "2 ^ 30 \<le> unat sz" "unat sz + 3 < 2 ^ 32" using assms(3,4) by (simp_all add: word_le_nat_alt)
  have "adjusted (unat sz) = 0" using sz(1) by (simp add: adjusted_def)
  then have adj: "adjust_request_size sz ALIGN_SIZE = Some 0" using adjust_request_size_eq [OF sz(2)] by simp
  have z: "sz \<noteq> 0" using assms(3) by auto
  have "\<not> block_can_split s (W a) 0" using b(3) by (simp add: block_can_split_def)
  then have "tlsf_realloc (W (a + 8)) sz s = Some (W (a + 8), s)"
    unfolding tlsf_realloc_def Let_def b(3,6) nx adj bind.bind_lunit
    using b(4,5) z by (simp add: block_trim_used_def)
  moreover have "tlsf_block_size s (W (a + 8)) = 12" using b(3,5,6) by (simp add: tlsf_block_size_def)
  ultimately show ?thesis by (simp only: W_def)
qed

theorem tlsf_realloc_oversize_witness:
  "\<exists>s p s1. tlsf_malloc 12 s = Some (p, s1) \<and> p \<noteq> 0 \<and> tlsf_realloc p 0x40000000 s1 = Some (p, s1)"
proof -
  obtain s a s1 B1 where r: "tlsf_malloc 12 s = Some (W (a + 8), s1)" "W (a + 8) \<noteq> 0" "heap s1 B1" "useds B1 = {(a, 12)}"
    by (rule small_malloc)
  with tlsf_realloc_oversize [OF r(3), of a "0x40000000"] have "tlsf_realloc (W (a + 8)) 0x40000000 s1 = Some (W (a + 8), s1)"
    by (simp add: W_def)
  with r(1,2) show ?thesis by blast
qed

text \<open>C1: Safety of every program that uses the heap properly. In each reachable state the self check \<open>tlsf_check\<close>
  finds no error; every allocation request of up to 0xFFFFFFFC bytes (also aligned to a power of two up to
  2^29), every release and every reallocation of a held pointer to 1 to 0x3FFFFFFC bytes is
  served without a failing assertion; and the memory of two pointers the program holds never overlaps.\<close>

theorem tlsf_reachable_safe:
  assumes "reachable s P"
  shows "tlsf_check s = Some 0 \<and> 0 \<notin> P \<and> (\<forall>sz \<le> 0xFFFFFFFC. tlsf_malloc sz s \<noteq> None) \<and>
    (\<forall>sz \<le> 0xFFFFFFFC. \<forall>e \<le> 29. tlsf_memalign (2 ^ e) sz s \<noteq> None) \<and>
    (\<forall>p \<in> P. tlsf_free p s \<noteq> None \<and> (\<forall>sz. 0 < sz \<and> sz \<le> 0x3FFFFFFC \<longrightarrow> tlsf_realloc p sz s \<noteq> None)) \<and>
    (\<forall>p \<in> P. \<forall>q \<in> P. p \<noteq> q \<longrightarrow>
      {unat p..<unat p + unat (tlsf_block_size s p)} \<inter> {unat q..<unat q + unat (tlsf_block_size s q)} = {})"
proof -
  obtain B where B: "heap s B" "P = pointers B" using reachable_heap [OF assms] by blast
  have ph: "phys s B" using B(1) by (simp add: heap_def)
  have info: "\<exists>a n. (a, n) \<in> useds B \<and> p = W (a + 8) \<and> unat p = a + 8 \<and> p \<noteq> 0 \<and> unat (tlsf_block_size s p) = n"
    if p: "p \<in> P" for p
  proof -
    obtain a n where a: "(a, n) \<in> useds B" "p = W (a + 8)" using p B(2) by (auto simp: pointers_def)
    obtain xs zs where b: "B = xs @ (a, n, False) # zs" "n \<noteq> 0" "block_size s (W a) = W n" "\<not> block_is_free s (W a)"
        "W (a + 8) \<noteq> 0" "block_from_ptr (W (a + 8)) = W a" "12 \<le> n" "n mod 4 = 0" "n < 2 ^ 30"
      by (rule used_block [OF ph a(1)])
    have "a + n + 16 \<le> 2 ^ 30" using phys_block(3) [OF ph [unfolded b(1)]] by simp
    then show ?thesis using a b by (intro exI [of _ a] exI [of _ n]) (simp add: tlsf_block_size_def unat_W)
  qed
  have mal: "tlsf_malloc sz s \<noteq> None" if "sz \<le> 0xFFFFFFFC" for sz
  proof -
    have "unat sz + 3 < 2 ^ 32" using that by (simp add: word_le_nat_alt)
    then show ?thesis using tlsf_malloc_ok [OF B(1), of "unat sz" "tlsf_malloc sz s \<noteq> None"] by simp
  qed
  have mem: "tlsf_memalign (2 ^ e) sz s \<noteq> None" if "sz \<le> 0xFFFFFFFC" "e \<le> 29" for sz e
  proof -
    have "unat sz + 3 < 2 ^ 32" using that by (simp add: word_le_nat_alt)
    then show ?thesis
      using tlsf_memalign_ok [OF B(1) _ that(2), of "unat sz" "tlsf_memalign (2 ^ e) sz s \<noteq> None"] that(2)
      by (simp add: pow_W(1))
  qed
  have fr: "tlsf_free p s \<noteq> None" if p: "p \<in> P" for p
  proof -
    obtain a n where a: "(a, n) \<in> useds B" "p = W (a + 8)" using info [OF p] by blast
    show ?thesis by (rule tlsf_free_ok [OF B(1) a(1)]) (simp add: a(2))
  qed
  have re: "tlsf_realloc p sz s \<noteq> None" if p: "p \<in> P" and sz: "0 < sz" "sz \<le> 0x3FFFFFFC" for p sz
  proof -
    obtain a n where a: "(a, n) \<in> useds B" "p = W (a + 8)" using info [OF p] by blast
    note k = adjusted_nonzero [OF sz]
    show ?thesis by (rule tlsf_realloc_ok [OF B(1) a(1) k(2,1)]) (simp_all add: a(2))
  qed
  have dis: "{unat p..<unat p + unat (tlsf_block_size s p)} \<inter> {unat q..<unat q + unat (tlsf_block_size s q)} = {}"
    if p: "p \<in> P" and q: "q \<in> P" and ne: "p \<noteq> q" for p q
  proof -
    obtain a n where a: "(a, n) \<in> useds B" "unat p = a + 8" "unat (tlsf_block_size s p) = n" using info [OF p] by blast
    obtain b k where b: "(b, k) \<in> useds B" "unat q = b + 8" "unat (tlsf_block_size s q) = k" using info [OF q] by blast
    have x: "(a, n, False) \<in> set B" "(b, k, False) \<in> set B" using a b by (auto simp: useds_def)
    have "a \<noteq> b" using ne a(2) b(2) by (auto simp: word_unat_eq_iff)
    with geom_pairwise [OF phys_geom [OF ph] x] show ?thesis unfolding a b by auto
  qed
  have "0 \<notin> P" using info by blast
  then show ?thesis using tlsf_check_ok [OF B(1)] mal mem fr re dis by blast
qed

theorem tlsf_reachable_safe_witness: "\<exists>s p. p \<noteq> 0 \<and> reachable s {p} \<and> tlsf_check s = Some 0 \<and> tlsf_free p s \<noteq> None"
  using sample_reachable tlsf_reachable_safe by blast

text \<open>C10: Initialisation. A heap created in a 4-aligned area of at least 3208 bytes below 2^30 is well formed, has
  nothing allocated, and offers the whole area beyond the control structure and the two headers
  as one free block.\<close>

theorem tlsf_create_with_pool_correct:
  assumes "m mod 4 = 0" and "0 < m" and "3208 \<le> bytes" and "m + bytes + 16 \<le> 2 ^ 30"
  shows "\<exists>s' B. tlsf_create_with_pool (of_nat m) (of_nat bytes) s = Some (of_nat m, s') \<and> heap s' B \<and> useds B = {} \<and>
    frees B = {(m + 3184, (bytes - 3196) div 4 * 4)}"
proof -
  obtain s' where "tlsf_create_with_pool (W m) (W bytes) s = Some (W m, s')"
    "heap s' (pool_blocks (m + 3188) (pool_bytes (bytes - 3188)))" "control s' = W m"
    by (rule create_with_pool_ok [OF assms])
  then show ?thesis unfolding W_def
    by (intro exI [of _ s'] exI [of _ "pool_blocks (m + 3188) (pool_bytes (bytes - 3188))"])
       (simp add: pool_blocks_def pool_bytes_def)
qed

theorem tlsf_create_with_pool_correct_witness:
  "\<exists>s' B. tlsf_create_with_pool 0x06004000 0x8000 blank = Some (0x06004000, s') \<and> heap s' B \<and> useds B = {}"
  using tlsf_create_with_pool_correct [where m = "0x06004000" and bytes = "0x8000" and s = blank] by auto

end
