(* ===== verification/Bcl_Rle.thy ===== *)
theory Bcl_Rle
  imports Prelude
begin

text \<open>
  Run-length coding, \<open>libbcl/rle.c\<close>. The unread part of the input buffer is a list, so that
  \<open>in[inpos++]\<close> takes its head and \<open>inpos < insize\<close> is non-emptiness; the bytes written so far are a
  list, so that \<open>out[outpos++] = b\<close> appends \<open>b\<close> and the returned size is its length. Positions and
  counters never exceed the size of a buffer, which is below 2^32. Reading past the end of the
  input has no defined result.

  The theory also holds the choice of the marker byte, which the LZ coder shares.
\<close>

section \<open>The marker byte\<close>

definition histogram :: "u8 list \<Rightarrow> nat list" where
  "histogram xs = fold (\<lambda>b h. h[unat b := h ! unat b + 1]) xs (replicate 256 0)"

definition marker_of :: "u8 list \<Rightarrow> u8" where
  "marker_of xs = (let h = histogram xs in fold (\<lambda>i m. if h ! i < h ! unat m then of_nat i else m) [1..<256] 0)"

section \<open>Compression\<close>

definition RLE_WriteRep :: "u8 \<Rightarrow> u8 \<Rightarrow> nat \<Rightarrow> u8 list" where
  "RLE_WriteRep marker symbol count =
     (if count \<le> 3 then
        if symbol = marker then [marker, of_nat (count - 1)] else replicate count symbol
      else
        let count = count - 1
        in [marker] @ (if 128 \<le> count then [of_nat (count div 256) OR 0x80] else []) @ [of_nat (count mod 256), symbol])"

definition RLE_WriteNonRep :: "u8 \<Rightarrow> u8 \<Rightarrow> u8 list" where
  "RLE_WriteNonRep marker symbol = (if symbol = marker then [marker, 0] else [symbol])"

text \<open>The inner loop, which counts equal bytes; it returns \<open>byte2\<close>, \<open>count\<close> and the unread input.\<close>

fun rle_run :: "u8 \<Rightarrow> u8 \<Rightarrow> nat \<Rightarrow> u8 list \<Rightarrow> u8 \<times> nat \<times> u8 list" where
  "rle_run byte1 byte2 count [] = (byte2, count, [])"
| "rle_run byte1 byte2 count (b # rest) =
     (if byte1 = byte2 \<and> count < 32768 then rle_run byte1 b (count + 1) rest else (byte2, count, b # rest))"

text \<open>The body of the main loop up to the fetch of the next byte: the new \<open>byte1\<close> and \<open>count\<close>, the unread
  input, and the bytes written.\<close>

definition rle_body :: "u8 \<Rightarrow> u8 \<Rightarrow> u8 \<Rightarrow> nat \<Rightarrow> u8 list \<Rightarrow> u8 \<times> nat \<times> u8 list \<times> u8 list" where
  "rle_body marker byte1 byte2 count rest =
     (if byte1 = byte2 then
        let (byte2, count, rest) = rle_run byte1 byte2 count rest
        in if byte1 = byte2 then
             case rest of
               b # rest \<Rightarrow> (b, 1, rest, RLE_WriteRep marker byte1 count)
             | [] \<Rightarrow> (byte1, 0, [], RLE_WriteRep marker byte1 count)
           else (byte2, 1, rest, RLE_WriteRep marker byte1 (count - 1))
      else (byte2, 1, rest, RLE_WriteNonRep marker byte1))"

lemma rle_run_length: "rle_run b1 b2 c rest = (b, c', rest') \<Longrightarrow> length rest' \<le> length rest"
  by (induction b1 b2 c rest rule: rle_run.induct) (auto split: if_splits)

lemma rle_body_length: "rle_body m b1 b2 c rest = (b, c', rest', w) \<Longrightarrow> length rest' \<le> length rest"
  by (auto simp: rle_body_def split: if_splits list.splits prod.splits dest: rle_run_length)

text \<open>The main loop, and the byte that may be left after it.\<close>

function rle_loop :: "u8 \<Rightarrow> u8 \<Rightarrow> u8 \<Rightarrow> nat \<Rightarrow> u8 list \<Rightarrow> u8 list \<Rightarrow> u8 list" where
  "rle_loop marker byte1 byte2 count rest out =
     (case rle_body marker byte1 byte2 count rest of (byte1, count, rest, written) \<Rightarrow>
        let out = out @ written
        in case rest of
             b # rest \<Rightarrow> rle_loop marker byte1 b 2 rest out
           | [] \<Rightarrow> if count = 1 then out @ RLE_WriteNonRep marker byte1 else out)"
  by pat_completeness auto
termination
  by (relation "measure (\<lambda>(m, b1, b2, c, rest, out). length rest)") (auto dest: rle_body_length [OF sym])

declare rle_loop.simps [simp del]

definition RLE_Compress :: "u8 list \<Rightarrow> u8 list" where
  "RLE_Compress input =
     (case input of
        [] \<Rightarrow> []
      | byte1 # rest \<Rightarrow>
          let marker = marker_of input; out = [marker]
          in case rest of
               [] \<Rightarrow> out @ RLE_WriteNonRep marker byte1
             | byte2 # rest \<Rightarrow> rle_loop marker byte1 byte2 2 rest out)"

section \<open>Decompression\<close>

function rle_unloop :: "u8 \<Rightarrow> u8 list \<Rightarrow> u8 list \<Rightarrow> u8 list option" where
  "rle_unloop marker input out =
     (case input of
        [] \<Rightarrow> None
      | symbol # input \<Rightarrow>
          (if symbol = marker then
             case input of
               [] \<Rightarrow> None
             | count # input \<Rightarrow>
                 if count \<le> 2 then Some (input, out @ replicate (unat count + 1) marker)
                 else if count AND 0x80 \<noteq> 0 then
                   case input of
                     low # symbol # input \<Rightarrow>
                       Some (input, out @ replicate (unat (count AND 0x7F) * 256 + unat low + 1) symbol)
                   | _ \<Rightarrow> None
                 else
                   case input of
                     symbol # input \<Rightarrow> Some (input, out @ replicate (unat count + 1) symbol)
                   | [] \<Rightarrow> None
           else Some (input, out @ [symbol]))
          \<bind> (\<lambda>(input, out). if input = [] then Some out else rle_unloop marker input out))"
  by pat_completeness auto
termination
  by (relation "measure (\<lambda>(m, input, out). length input)") (auto split: list.splits if_splits)

declare rle_unloop.simps [simp del]

definition RLE_Uncompress :: "u8 list \<Rightarrow> u8 list option" where
  "RLE_Uncompress input =
     (case input of
        [] \<Rightarrow> Some []
      | marker # input \<Rightarrow> rle_unloop marker input [])"
section \<open>The marker is a least common byte\<close>

lemma histogram_nth:
  "length h = 256 \<Longrightarrow> length (fold (\<lambda>b h. h[unat b := h ! unat b + 1]) xs h) = 256 \<and>
    (\<forall>c :: u8. fold (\<lambda>b h. h[unat b := h ! unat b + 1]) xs h ! unat c = h ! unat c + count_list xs c)"
proof (induction xs arbitrary: h)
  case (Cons x xs)
  have u: "unat (c :: u8) < 256" for c using unsigned_less [of c] by simp
  let ?h = "h[unat x := h ! unat x + 1]"
  from Cons.IH [of ?h] Cons.prems
  have IH: "length (fold (\<lambda>b h. h[unat b := h ! unat b + 1]) xs ?h) = 256"
    "\<forall>c. fold (\<lambda>b h. h[unat b := h ! unat b + 1]) xs ?h ! unat c = ?h ! unat c + count_list xs c" by simp_all
  have "?h ! unat c = h ! unat c + (if c = x then 1 else 0)" for c
    using Cons.prems u [of c] by (auto simp: nth_list_update word_unat_eq_iff)
  then show ?case using IH by simp
qed simp

lemma histogram_count: "histogram xs ! unat c = count_list xs c"
proof -
  have "unat c < 256" using unsigned_less [of c] by simp
  then show ?thesis using histogram_nth [of "replicate 256 0" xs] by (simp add: histogram_def)
qed

lemma marker_scan:
  fixes f :: "nat \<Rightarrow> nat"
  shows "k \<le> 256 \<Longrightarrow> (\<forall>i. i < max 1 k \<longrightarrow>
      f (unat (fold (\<lambda>i m. if f i < f (unat m) then of_nat i else m) [1..<k] (0 :: u8))) \<le> f i)"
proof (induction k)
  case (Suc k)
  let ?m = "fold (\<lambda>i m. if f i < f (unat m) then of_nat i else m) [1..<k] (0 :: u8)"
  have IH: "\<forall>i. i < max 1 k \<longrightarrow> f (unat ?m) \<le> f i" using Suc by simp
  show ?case
  proof (cases "k = 0")
    case False
    have "unat (of_nat k :: u8) = k" using Suc.prems by (simp add: unat_of_nat take_bit_nat_eq_self)
    then show ?thesis using IH False by (auto simp: less_Suc_eq)
  qed simp
qed simp

lemma marker_least: "count_list xs (marker_of xs) \<le> count_list xs b"
proof -
  have b: "unat b < 256" using unsigned_less [of b] by simp
  have "\<forall>i. i < max 1 256 \<longrightarrow> histogram xs ! unat (marker_of xs) \<le> histogram xs ! i"
    unfolding marker_of_def Let_def by (rule marker_scan) simp
  from this [rule_format, of "unat b"] b show ?thesis by (simp add: histogram_count)
qed

lemma sum_count_list: "finite A \<Longrightarrow> set xs \<subseteq> A \<Longrightarrow> (\<Sum>b \<in> A. count_list xs b) = length xs"
  using sum_count_set by metis

lemma marker_rare: "256 * count_list xs (marker_of xs) \<le> length xs"
proof -
  have "(\<Sum>b \<in> (UNIV :: u8 set). count_list xs (marker_of xs)) \<le> (\<Sum>b \<in> UNIV. count_list xs b)"
    by (intro sum_mono marker_least)
  also have "\<dots> = length xs" by (rule sum_count_list) auto
  finally show ?thesis by (simp add: card_word)
qed

section \<open>Tokens\<close>

text \<open>Continue decoding, unless the input is used up.\<close>

definition unmore :: "u8 \<Rightarrow> u8 list \<Rightarrow> u8 list \<Rightarrow> u8 list option" where
  "unmore m input out = (if input = [] then Some out else rle_unloop m input out)"

lemma unloop_plain: "s \<noteq> m \<Longrightarrow> rle_unloop m (s # r) out = unmore m r (out @ [s])"
  by (subst rle_unloop.simps) (simp add: unmore_def)

lemma unloop_marker: "c \<le> 2 \<Longrightarrow> rle_unloop m (m # c # r) out = unmore m r (out @ replicate (unat c + 1) m)"
  by (subst rle_unloop.simps) (simp add: unmore_def)

lemma unloop_short:
  "\<not> c \<le> 2 \<Longrightarrow> c AND 0x80 = 0 \<Longrightarrow> rle_unloop m (m # c # s # r) out = unmore m r (out @ replicate (unat c + 1) s)"
  by (subst rle_unloop.simps) (simp add: unmore_def)

lemma unloop_long:
  "\<not> c \<le> 2 \<Longrightarrow> c AND 0x80 \<noteq> 0 \<Longrightarrow> rle_unloop m (m # c # lo # s # r) out
     = unmore m r (out @ replicate (unat (c AND 0x7F) * 256 + unat lo + 1) s)"
  by (subst rle_unloop.simps) (simp add: unmore_def)

lemma unloop_nonrep: "rle_unloop m (RLE_WriteNonRep m s @ r) out = unmore m r (out @ [s])"
  using unloop_plain unloop_marker [of 0 m r out] by (simp add: RLE_WriteNonRep_def)

lemma unloop_plains:
  "s \<noteq> m \<Longrightarrow> 0 < n \<Longrightarrow> rle_unloop m (replicate n s @ r) out = unmore m r (out @ replicate n s)"
proof (induction n arbitrary: out)
  case (Suc n)
  then show ?case
  proof (cases "n = 0")
    case False
    then have "replicate n s @ r \<noteq> []" by simp
    then have "unmore m (replicate n s @ r) (out @ [s]) = rle_unloop m (replicate n s @ r) (out @ [s])"
      unfolding unmore_def by (rule if_not_P)
    then show ?thesis using Suc False by (simp add: unloop_plain)
  qed (simp add: unloop_plain)
qed simp

text \<open>The two halves of a 15-bit count, checked for every value of the upper one.\<close>

lemma byte_split_all:
  "list_all (\<lambda>c. (of_nat c OR 0x80 :: u8) AND 0x80 \<noteq> 0 \<and> unat ((of_nat c OR 0x80 :: u8) AND 0x7F) = c \<and>
     \<not> (of_nat c OR 0x80 :: u8) \<le> 2 \<and> (of_nat c :: u8) AND 0x80 = 0) [0..<128]"
  by code_simp

lemma byte_split:
  assumes "c < 128"
  shows "(of_nat c OR 0x80 :: u8) AND 0x80 \<noteq> 0" and "unat ((of_nat c OR 0x80 :: u8) AND 0x7F) = c"
    and "\<not> (of_nat c OR 0x80 :: u8) \<le> 2" and "(of_nat c :: u8) AND 0x80 = 0"
  using byte_split_all assms unfolding list_all_iff by auto
lemma unat_of_nat8: "n < 256 \<Longrightarrow> unat (of_nat n :: u8) = n"
  by (simp add: unat_of_nat take_bit_nat_eq_self)

lemma unloop_rep:
  assumes "0 < n" and "n \<le> 32768"
  shows "rle_unloop m (RLE_WriteRep m s n @ r) out = unmore m r (out @ replicate n s)"
proof (cases "n \<le> 3")
  case True
  have "(of_nat (n - 1) :: u8) \<le> 2" using True by (simp add: word_le_nat_alt unat_of_nat8)
  then have "rle_unloop m (m # of_nat (n - 1) # r) out = unmore m r (out @ replicate n m)"
    using unloop_marker [of "of_nat (n - 1)" m r out] True assms(1) by (simp add: unat_of_nat8 del: of_nat_diff)
  then show ?thesis using True assms(1) unloop_plains [of s m n r out] by (simp add: RLE_WriteRep_def)
next
  case False
  let ?c = "n - 1"
  show ?thesis
  proof (cases "128 \<le> ?c")
    case True
    let ?h = "of_nat (?c div 256) OR 0x80 :: u8"
    have q: "?c div 256 < 128" using assms(2) by simp
    have l: "unat (of_nat (?c mod 256) :: u8) = ?c mod 256" by (rule unat_of_nat8) simp
    have "unat (?h AND 0x7F) * 256 + unat (of_nat (?c mod 256) :: u8) + 1 = n"
      unfolding byte_split(2) [OF q] l using assms(1) by simp
    moreover have w: "RLE_WriteRep m s n = [m, ?h, of_nat (?c mod 256), s]"
      using False True by (simp add: RLE_WriteRep_def Let_def)
    ultimately show ?thesis
      using unloop_long [OF byte_split(3) [OF q] byte_split(1) [OF q], of m "of_nat (?c mod 256)" s r out]
      unfolding w by (simp only: append_Cons append_Nil)
  next
    case small: False
    have w: "RLE_WriteRep m s n = [m, of_nat ?c, s]"
      using False small by (simp add: RLE_WriteRep_def Let_def)
    have u: "unat (of_nat ?c :: u8) = ?c" using small by (intro unat_of_nat8) simp
    have "\<not> (of_nat ?c :: u8) \<le> 2" using False u by (simp only: word_le_nat_alt) simp
    moreover have "(of_nat ?c :: u8) AND 0x80 = 0" using small by (intro byte_split(4)) simp
    ultimately have "rle_unloop m (m # of_nat ?c # s # r) out = unmore m r (out @ replicate (unat (of_nat ?c :: u8) + 1) s)"
      by (rule unloop_short)
    then show ?thesis unfolding w u using assms(1) by (simp only: append_Cons append_Nil) simp
  qed
qed

section \<open>The compression loop\<close>

lemma rle_run_spec:
  assumes "rle_run b1 b2 c rest = (b, c', rest')" and "0 < c" and "c \<le> 32768"
  shows "replicate (c - 1) b1 @ b2 # rest = replicate (c' - 1) b1 @ b # rest' \<and> c \<le> c' \<and> c' \<le> 32768 \<and> (b1 = b2 \<and> b \<noteq> b1 \<longrightarrow> c < c')"
  using assms
proof (induction b1 b2 c rest rule: rle_run.induct)
  case (2 byte1 byte2 count x rest)
  show ?case
  proof (cases "byte1 = byte2 \<and> count < 32768")
    case True
    then have "rle_run byte1 x (count + 1) rest = (b, c', rest')" using "2.prems"(1) by simp
    from "2.IH" [OF True this] True
    have IH: "replicate count byte1 @ x # rest = replicate (c' - 1) byte1 @ b # rest'" "count + 1 \<le> c'" "c' \<le> 32768" by auto
    have "replicate (count - 1) byte1 @ byte2 # x # rest = replicate count byte1 @ x # rest"
      using True "2.prems"(2) by (cases count) (auto simp: replicate_app_Cons_same)
    then show ?thesis using IH by auto
  qed (use 2 in auto)
qed auto

text \<open>One round of the loop: what it writes decodes to what it consumed, and is not longer than that plus
  the markers in it.\<close>

lemma rle_body_spec:
  assumes b: "rle_body m b1 b2 2 rest = (b, c, rest', w)"
  obtains used where "b1 # b2 # rest = used @ (if c = 0 then [] else [b]) @ rest'" "c \<le> 1" "c = 0 \<longrightarrow> rest' = []"
    "w \<noteq> []" "\<forall>r out. rle_unloop m (w @ r) out = unmore m r (out @ used)" "length w \<le> length used + count_list used m"
proof -
  note goal = that
  have rep: "thesis"
    if u: "b1 # b2 # rest = replicate n b1 @ (if c = 0 then [] else [b]) @ rest'" "c \<le> 1" "c = 0 \<longrightarrow> rest' = []"
      and n: "2 \<le> n" "n \<le> 32768" and w: "w = RLE_WriteRep m b1 n" for n
  proof (rule goal [of "replicate n b1"])
    show "\<forall>r out. rle_unloop m (w @ r) out = unmore m r (out @ replicate n b1)"
      unfolding w using unloop_rep [of n m b1] n by simp
    show "w \<noteq> []" "length w \<le> length (replicate n b1) + count_list (replicate n b1) m"
      using n by (auto simp: w RLE_WriteRep_def Let_def)
  qed (use u in auto)
  show thesis
  proof (cases "b1 = b2")
    case False
    then have w: "b = b2" "c = 1" "rest' = rest" "w = RLE_WriteNonRep m b1" using b by (auto simp: rle_body_def)
    show thesis
    proof (rule that [of "[b1]"])
      show "\<forall>r out. rle_unloop m (w @ r) out = unmore m r (out @ [b1])" by (simp add: w unloop_nonrep)
    qed (auto simp: w RLE_WriteNonRep_def)
  next
    case True
    obtain b' c' r' where run: "rle_run b1 b2 2 rest = (b', c', r')" by (cases "rle_run b1 b2 2 rest") auto
    have sp: "b1 # b2 # rest = replicate (c' - 1) b1 @ b' # r'" "2 \<le> c'" "c' \<le> 32768" "b' \<noteq> b1 \<longrightarrow> 2 < c'"
      using rle_run_spec [OF run] True by auto
    have e: "replicate (c' - 1) b1 @ b1 # r' = replicate c' b1 @ r'"
      using sp(2) by (cases c') (auto simp: replicate_app_Cons_same)
    show thesis
    proof (cases "b' = b1")
      case same: True
      show thesis
      proof (cases r')
        case Nil
        then show thesis
          using b run True same sp e by (intro rep [of c']) (auto simp: rle_body_def)
      next
        case (Cons x xs)
        then show thesis
          using b run True same sp e by (intro rep [of c']) (auto simp: rle_body_def)
      qed
    next
      case False
      then show thesis
        using b run True sp by (intro rep [of "c' - 1"]) (auto simp: rle_body_def)
    qed
  qed
qed

lemma rle_loop_spec:
  "\<exists>w. rle_loop m b1 b2 2 rest out = out @ w \<and> w \<noteq> [] \<and>
     (\<forall>o'. rle_unloop m w o' = Some (o' @ b1 # b2 # rest)) \<and>
     length w \<le> length (b1 # b2 # rest) + count_list (b1 # b2 # rest) m"
proof (induction "length rest" arbitrary: b1 b2 rest out rule: less_induct)
  case less
  obtain b c rest' w where body: "rle_body m b1 b2 2 rest = (b, c, rest', w)"
    by (cases "rle_body m b1 b2 2 rest") auto
  obtain used where u: "b1 # b2 # rest = used @ (if c = 0 then [] else [b]) @ rest'" "c \<le> 1" "c = 0 \<longrightarrow> rest' = []"
      "w \<noteq> []" "\<forall>r out. rle_unloop m (w @ r) out = unmore m r (out @ used)" "length w \<le> length used + count_list used m"
    by (rule rle_body_spec [OF body])
  show ?case
  proof (cases rest')
    case Nil
    let ?w = "w @ (if c = 1 then RLE_WriteNonRep m b else [])"
    have "rle_loop m b1 b2 2 rest out = out @ ?w"
      by (subst rle_loop.simps) (simp add: body Nil)
    moreover have "rle_unloop m ?w o' = Some (o' @ b1 # b2 # rest)" for o'
    proof (cases "c = 1")
      case True
      have "RLE_WriteNonRep m b \<noteq> []" by (simp add: RLE_WriteNonRep_def)
      then have "unmore m (RLE_WriteNonRep m b) (o' @ used) = Some (o' @ used @ [b])"
        using unloop_nonrep [of m b "[]" "o' @ used"] by (simp add: unmore_def)
      then show ?thesis using True u(1) u(5) [rule_format, of "RLE_WriteNonRep m b" o'] Nil by simp
    next
      case False
      then show ?thesis using u(1,2) u(5) [rule_format, of "[]" o'] Nil by (simp add: unmore_def)
    qed
    moreover have "length ?w \<le> length (b1 # b2 # rest) + count_list (b1 # b2 # rest) m"
      unfolding u(1) using u(2,6) Nil by (auto simp: RLE_WriteNonRep_def le_Suc_eq)
    ultimately show ?thesis using u(4) by blast
  next
    case (Cons x xs)
    then have c: "c = 1" using u(2,3) by (cases c) auto
    have "length xs < length rest" using rle_body_length [OF body] Cons by simp
    from less [OF this, of b x "out @ w"] obtain w' where w': "rle_loop m b x 2 xs (out @ w) = (out @ w) @ w'" "w' \<noteq> []"
      "\<forall>o'. rle_unloop m w' o' = Some (o' @ b # x # xs)" "length w' \<le> length (b # x # xs) + count_list (b # x # xs) m" by blast
    have "rle_loop m b1 b2 2 rest out = out @ (w @ w')"
      by (subst rle_loop.simps) (simp add: body Cons w'(1))
    moreover have "rle_unloop m (w @ w') o' = Some (o' @ b1 # b2 # rest)" for o'
      using u(1) u(5) [rule_format, of w' o'] w'(2,3) c Cons by (simp add: unmore_def)
    moreover have "length (w @ w') \<le> length (b1 # b2 # rest) + count_list (b1 # b2 # rest) m"
      unfolding u(1) using u(6) w'(4) c Cons by auto
    ultimately show ?thesis using u(4) by (metis append_is_Nil_conv)
  qed
qed

lemma RLE_Compress_spec:
  assumes "xs \<noteq> []"
  obtains w where "RLE_Compress xs = marker_of xs # w" "rle_unloop (marker_of xs) w [] = Some xs"
    "length w \<le> length xs + count_list xs (marker_of xs)"
proof -
  let ?m = "marker_of xs"
  obtain b1 rest where xs: "xs = b1 # rest" using assms by (cases xs) auto
  show thesis
  proof (cases rest)
    case Nil
    show thesis
    proof (rule that [of "RLE_WriteNonRep ?m b1"])
      show "RLE_Compress xs = ?m # RLE_WriteNonRep ?m b1" by (simp add: RLE_Compress_def xs Nil Let_def)
      show "rle_unloop ?m (RLE_WriteNonRep ?m b1) [] = Some xs"
        using unloop_nonrep [of ?m b1 "[]" "[]"] by (simp add: unmore_def xs Nil)
    qed (simp add: RLE_WriteNonRep_def xs Nil)
  next
    case (Cons b2 rest')
    obtain w where w: "rle_loop ?m b1 b2 2 rest' [?m] = [?m] @ w"
      "\<forall>o'. rle_unloop ?m w o' = Some (o' @ b1 # b2 # rest')"
      "length w \<le> length (b1 # b2 # rest') + count_list (b1 # b2 # rest') ?m"
      using rle_loop_spec [of ?m b1 b2 rest' "[?m]"] by blast
    show thesis
      by (rule that [of w]) (use w in \<open>simp_all add: RLE_Compress_def xs Cons Let_def\<close>)
  qed
qed

section \<open>Properties\<close>

text \<open>C12: Decompressing the output of the run-length coder gives back the input, for every input, and never
  reads past the end of the compressed data.\<close>

theorem RLE_roundtrip: "RLE_Uncompress (RLE_Compress xs) = Some xs"
proof (cases "xs = []")
  case True
  then show ?thesis by (simp add: RLE_Uncompress_def RLE_Compress_def)
next
  case False
  obtain w where "RLE_Compress xs = marker_of xs # w" "rle_unloop (marker_of xs) w [] = Some xs"
    "length w \<le> length xs + count_list xs (marker_of xs)" by (rule RLE_Compress_spec [OF False])
  then show ?thesis by (simp add: RLE_Uncompress_def)
qed

text \<open>C24: The output buffer that \<open>RLE_Compress\<close> asks for, one byte and 0.4 percent (one byte in 256) more than the
  input, is always large enough.\<close>

theorem RLE_Compress_bound: "length (RLE_Compress xs) \<le> length xs + length xs div 256 + 1"
proof (cases "xs = []")
  case True
  then show ?thesis by (simp add: RLE_Compress_def)
next
  case False
  obtain w where "RLE_Compress xs = marker_of xs # w" "rle_unloop (marker_of xs) w [] = Some xs"
    "length w \<le> length xs + count_list xs (marker_of xs)" by (rule RLE_Compress_spec [OF False])
  moreover have "count_list xs (marker_of xs) \<le> length xs div 256"
    using marker_rare [of xs] by (simp add: less_eq_div_iff_mult_less_eq mult.commute)
  ultimately show ?thesis by simp
qed

end
