(* ===== verification/Bcl_Lz.thy ===== *)
theory Bcl_Lz
  imports Bcl_Rle
begin

text \<open>
  The LZ77 coder, \<open>libbcl/lz.c\<close>. The compressors search the part of the input already coded, so the
  input is a buffer \<open>buf\<close> read at positions, of which the first \<open>insize\<close> bytes are the data; a read
  outside \<open>buf\<close> has no defined result. The bytes written are a list. Positions, lengths and offsets
  are natural numbers: they stay below the size of a buffer, which is below 2^32. The variable-size
  integers are coded with 32-bit words.
\<close>

section \<open>Variable-size integers\<close>

definition LZ_MAX_OFFSET :: nat where "LZ_MAX_OFFSET = 100000"

fun lz_num_bytes :: "nat \<Rightarrow> u32 \<Rightarrow> nat" where
  "lz_num_bytes n y =
     (if 2 \<le> n then if y AND 0xFE000000 \<noteq> 0 then n else lz_num_bytes (n - 1) (push_bit 7 y) else n)"

declare lz_num_bytes.simps [simp del]

definition lz_byte :: "u32 \<Rightarrow> nat \<Rightarrow> u8" where
  "lz_byte x i = ucast ((drop_bit (7 * i) x AND 0x7F) OR (if 0 < i then 0x80 else 0))"

definition LZ_WriteVarSize :: "u32 \<Rightarrow> u8 list" where
  "LZ_WriteVarSize x = map (lz_byte x) (rev [0..<lz_num_bytes 5 (drop_bit 3 x)])"

text \<open>The value read and the input after it.\<close>

fun lz_read :: "u32 \<Rightarrow> u8 list \<Rightarrow> (u32 \<times> u8 list) option" where
  "lz_read y [] = None"
| "lz_read y (c # input) =
     (let b = ucast c :: u32; y = push_bit 7 y OR (b AND 0x7F)
      in if b AND 0x80 \<noteq> 0 then lz_read y input else Some (y, input))"

definition LZ_ReadVarSize :: "u8 list \<Rightarrow> (u32 \<times> u8 list) option" where
  "LZ_ReadVarSize input = lz_read 0 input"

section \<open>Compression\<close>

definition peek :: "'a list \<Rightarrow> nat \<Rightarrow> 'a option" where
  "peek buf i = (if i < length buf then Some (buf ! i) else None)"

function LZ_StringCompare :: "u8 list \<Rightarrow> nat \<Rightarrow> nat \<Rightarrow> nat \<Rightarrow> nat \<Rightarrow> nat option" where
  "LZ_StringCompare buf str1 str2 len maxlen =
     (if len < maxlen then
        peek buf (str1 + len) \<bind> (\<lambda>a. peek buf (str2 + len) \<bind> (\<lambda>b.
          if a = b then LZ_StringCompare buf str1 str2 (len + 1) maxlen else Some len))
      else Some len)"
  by pat_completeness auto
termination
  by (relation "measure (\<lambda>(buf, s1, s2, len, maxlen). maxlen - len)") auto

declare LZ_StringCompare.simps [simp del]

text \<open>The better of the best match so far and the one at the given offset.\<close>

definition lz_better :: "u8 list \<Rightarrow> nat \<Rightarrow> nat \<Rightarrow> nat \<Rightarrow> nat \<Rightarrow> nat \<times> nat \<Rightarrow> (nat \<times> nat) option" where
  "lz_better buf inpos bytesleft minlen offset best =
     (let (bestlength, bestoffset) = best; maxlength = (if bytesleft < offset then bytesleft else offset)
      in LZ_StringCompare buf inpos (inpos - offset) minlen maxlength \<bind> (\<lambda>len.
        Some (if bestlength < len then (len, offset) else best)))"

fun lz_search :: "u8 list \<Rightarrow> nat \<Rightarrow> nat \<Rightarrow> nat list \<Rightarrow> nat \<times> nat \<Rightarrow> (nat \<times> nat) option" where
  "lz_search buf inpos bytesleft [] best = Some best"
| "lz_search buf inpos bytesleft (offset # offsets) best =
     (peek buf inpos \<bind> (\<lambda>a. peek buf (inpos - offset) \<bind> (\<lambda>b.
        if a = b then
          peek buf (inpos + fst best) \<bind> (\<lambda>c. peek buf (inpos - offset + fst best) \<bind> (\<lambda>d.
            if c = d then lz_better buf inpos bytesleft 0 offset best else Some best))
        else Some best)))
     \<bind> lz_search buf inpos bytesleft offsets"

definition lz_good :: "nat \<Rightarrow> nat \<Rightarrow> bool" where
  "lz_good bestlength bestoffset \<longleftrightarrow>
     8 \<le> bestlength \<or> bestlength = 4 \<and> bestoffset \<le> 0x7F \<or> bestlength = 5 \<and> bestoffset \<le> 0x3FFF \<or>
     bestlength = 6 \<and> bestoffset \<le> 0x1FFFFF \<or> bestlength = 7 \<and> bestoffset \<le> 0x0FFFFFFF"

text \<open>A single byte; the marker is escaped by a zero.\<close>

definition lz_single :: "u8 \<Rightarrow> u8 \<Rightarrow> u8 list" where
  "lz_single marker symbol = (if symbol = marker then [marker, 0] else [symbol])"

definition lz_emit :: "u8 \<Rightarrow> nat \<Rightarrow> nat \<Rightarrow> u8 list" where
  "lz_emit marker bestlength bestoffset =
     [marker] @ LZ_WriteVarSize (of_nat bestlength) @ LZ_WriteVarSize (of_nat bestoffset)"

text \<open>The remaining bytes, \<open>n\<close> of them from \<open>inpos\<close>.\<close>

fun lz_dump :: "u8 list \<Rightarrow> u8 \<Rightarrow> nat \<Rightarrow> nat \<Rightarrow> u8 list option" where
  "lz_dump buf marker inpos 0 = Some []"
| "lz_dump buf marker inpos (Suc n) =
     peek buf inpos \<bind> (\<lambda>b. lz_dump buf marker (inpos + 1) n \<bind> (\<lambda>out. Some (lz_single marker b @ out)))"

text \<open>The main loop, for a way \<open>search\<close> of finding the best match at a position. The state is \<open>inpos\<close> and
  \<open>bytesleft\<close>; their sum is \<open>insize\<close>.\<close>

function lz_loop :: "(nat \<Rightarrow> nat \<Rightarrow> (nat \<times> nat) option) \<Rightarrow> u8 list \<Rightarrow> u8 \<Rightarrow> nat \<Rightarrow> nat \<Rightarrow> u8 list option" where
  "lz_loop search buf marker inpos bytesleft =
     search inpos bytesleft \<bind> (\<lambda>(bestlength, bestoffset).
       (if lz_good bestlength bestoffset
        then Some (lz_emit marker bestlength bestoffset, inpos + bestlength, bytesleft - bestlength)
        else peek buf inpos \<bind> (\<lambda>symbol. Some (lz_single marker symbol, inpos + 1, bytesleft - 1)))
       \<bind> (\<lambda>(written, inpos, bytesleft).
         (if 3 < bytesleft then lz_loop search buf marker inpos bytesleft
          else lz_dump buf marker inpos bytesleft) \<bind> (\<lambda>out. Some (written @ out))))"
  by pat_completeness auto
termination
  by (relation "measure (\<lambda>(search, buf, marker, inpos, bytesleft). bytesleft)")
    (auto simp: lz_good_def split: if_splits bind_splits)

declare lz_loop.simps [simp del]

definition lz_window :: "u8 list \<Rightarrow> nat \<Rightarrow> nat \<Rightarrow> (nat \<times> nat) option" where
  "lz_window buf inpos bytesleft =
     (let maxoffset = (if LZ_MAX_OFFSET < inpos then LZ_MAX_OFFSET else inpos)
      in lz_search buf inpos bytesleft [3..<maxoffset + 1] (3, 0))"

definition LZ_Compress :: "u8 list \<Rightarrow> nat \<Rightarrow> u8 list option" where
  "LZ_Compress buf insize =
     (if insize < 1 then Some []
      else
        let marker = marker_of (take insize buf)
        in lz_loop (lz_window buf) buf marker 0 insize \<bind> (\<lambda>out. Some ([marker] @ out)))"

section \<open>Decompression\<close>

fun lz_copy :: "nat \<Rightarrow> nat \<Rightarrow> u8 list \<Rightarrow> u8 list option" where
  "lz_copy 0 offset out = Some out"
| "lz_copy (Suc n) offset out =
     (if 0 < offset \<and> offset \<le> length out then lz_copy n offset (out @ [out ! (length out - offset)]) else None)"

lemma lz_read_length: "lz_read y input = Some (x, r) \<Longrightarrow> length r < length input"
  by (induction y input rule: lz_read.induct) (fastforce simp: Let_def split: if_splits)+

lemma LZ_ReadVarSize_length: "LZ_ReadVarSize input = Some (x, r) \<Longrightarrow> length r < length input"
  by (simp add: LZ_ReadVarSize_def lz_read_length)

function lz_unloop :: "u8 \<Rightarrow> u8 list \<Rightarrow> u8 list \<Rightarrow> u8 list option" where
  "lz_unloop marker input out =
     (case input of
        [] \<Rightarrow> None
      | symbol # input \<Rightarrow>
          (if symbol = marker then
             case input of
               [] \<Rightarrow> None
             | b # rest \<Rightarrow>
                 if b = 0 then Some (rest, out @ [marker])
                 else
                   LZ_ReadVarSize input \<bind> (\<lambda>(len, input). LZ_ReadVarSize input \<bind> (\<lambda>(offset, input).
                     lz_copy (unat len) (unat offset) out \<bind> (\<lambda>out. Some (input, out))))
           else Some (input, out @ [symbol]))
          \<bind> (\<lambda>(input, out). if input = [] then Some out else lz_unloop marker input out))"
  by pat_completeness auto
termination
  by (relation "measure (\<lambda>(m, input, out). length input)")
    (auto split: list.splits if_splits bind_splits dest!: LZ_ReadVarSize_length)

declare lz_unloop.simps [simp del]

definition LZ_Uncompress :: "u8 list \<Rightarrow> u8 list option" where
  "LZ_Uncompress input =
     (case input of
        [] \<Rightarrow> Some []
      | marker # input \<Rightarrow> lz_unloop marker input [])"

section \<open>The fast compressor\<close>

text \<open>\<open>lastindex\<close> is an array of 65536 unsigned integers indexed by symbol pairs, and \<open>jumptable\<close> one of
  \<open>insize\<close>; 0xffffffff stands for no index. The loop over \<open>i\<close> fills the jump table in order.\<close>

definition NO_INDEX :: u32 where "NO_INDEX = 0xFFFFFFFF"

definition lz_pair :: "u8 \<Rightarrow> u8 \<Rightarrow> u32" where
  "lz_pair a b = push_bit 8 (ucast a) OR ucast b"

fun lz_jumps :: "u8 list \<Rightarrow> nat list \<Rightarrow> (u32 \<Rightarrow> u32) \<Rightarrow> u32 list option" where
  "lz_jumps buf [] lastindex = Some []"
| "lz_jumps buf (i # is) lastindex =
     peek buf i \<bind> (\<lambda>a. peek buf (i + 1) \<bind> (\<lambda>b.
       let symbols = lz_pair a b; index = lastindex symbols
       in lz_jumps buf is (lastindex(symbols := of_nat i)) \<bind> (\<lambda>jumptable. Some (index # jumptable))))"

definition lz_jumptable :: "u8 list \<Rightarrow> nat \<Rightarrow> u32 list option" where
  "lz_jumptable buf insize =
     lz_jumps buf [0..<insize - 1] (\<lambda>_. NO_INDEX) \<bind> (\<lambda>jumptable. Some (jumptable @ [NO_INDEX]))"

text \<open>The walk along the jump table. The table only points back, so \<open>inpos - index\<close> does not wrap.\<close>

partial_function (option) lz_walk ::
  "u8 list \<Rightarrow> u32 list \<Rightarrow> nat \<Rightarrow> nat \<Rightarrow> u32 \<Rightarrow> nat \<times> nat \<Rightarrow> (nat \<times> nat) option" where
  "lz_walk buf jumptable inpos bytesleft index best =
     (if index \<noteq> NO_INDEX \<and> inpos - unat index < LZ_MAX_OFFSET then
        peek buf (unat index + fst best) \<bind> (\<lambda>a. peek buf (inpos + fst best) \<bind> (\<lambda>b.
          (if a = b then lz_better buf inpos bytesleft 2 (inpos - unat index) best else Some best) \<bind> (\<lambda>best.
            peek jumptable (unat index) \<bind> (\<lambda>index. lz_walk buf jumptable inpos bytesleft index best))))
      else Some best)"

declare lz_walk.simps [code]

definition lz_chain :: "u8 list \<Rightarrow> u32 list \<Rightarrow> nat \<Rightarrow> nat \<Rightarrow> (nat \<times> nat) option" where
  "lz_chain buf jumptable inpos bytesleft =
     peek jumptable inpos \<bind> (\<lambda>index. lz_walk buf jumptable inpos bytesleft index (3, 0))"

definition LZ_CompressFast :: "u8 list \<Rightarrow> nat \<Rightarrow> u8 list option" where
  "LZ_CompressFast buf insize =
     (if insize < 1 then Some []
      else lz_jumptable buf insize \<bind> (\<lambda>jumptable.
        let marker = marker_of (take insize buf)
        in lz_loop (lz_chain buf jumptable) buf marker 0 insize \<bind> (\<lambda>out. Some ([marker] @ out))))"

lemma LZ_MAX_OFFSET_code [code_unfold]:
  "LZ_MAX_OFFSET < n \<longleftrightarrow> (100000 :: int) < int n" "n < LZ_MAX_OFFSET \<longleftrightarrow> int n < 100000"
  by (auto simp: LZ_MAX_OFFSET_def)

section \<open>Variable-size integers are read back\<close>

lemma lz_num_bytes_top:
  assumes "y = push_bit (7 * (5 - n)) (drop_bit 3 x)" "n \<le> 5" "1 \<le> n" "\<forall>j. 7 * n \<le> j \<longrightarrow> \<not> bit x j"
  shows "\<forall>j. 7 * lz_num_bytes n y \<le> j \<longrightarrow> \<not> bit x j"
  using assms
proof (induction n y rule: lz_num_bytes.induct)
  case (1 n y)
  show ?case
  proof (cases "2 \<le> n \<and> y AND 0xFE000000 = 0")
    case loop: True
    have "7 + 7 * (5 - n) = 7 * (5 - (n - 1))" using loop 1(3) by linarith
    then have next_y: "push_bit 7 y = push_bit (7 * (5 - (n - 1))) (drop_bit 3 x)"
      unfolding 1(2) push_bit_push_bit by simp
    have low: "\<not> bit y k" if "25 \<le> k" "k < 32" for k
    proof -
      have "\<not> bit (y AND 0xFE000000) k" using loop by simp
      moreover have "bit (0xFE000000 :: u32) k"
      proof -
        have "list_all (\<lambda>k. bit (0xFE000000 :: u32) k) [25..<32]" by code_simp
        then have "\<forall>k \<in> set [25..<32]. bit (0xFE000000 :: u32) k" unfolding list_all_iff .
        then show ?thesis using that by (metis atLeastLessThan_iff set_upt)
      qed
      ultimately show ?thesis by (simp add: bit_and_iff)
    qed
    have "\<not> bit x j" if "7 * (n - 1) \<le> j" for j
    proof (cases "7 * n \<le> j")
      case True
      then show ?thesis using 1(5) by blast
    next
      case False
      let ?k = "j + 7 * (5 - n) - 3"
      have k: "25 \<le> ?k" "?k < 32" using that False loop 1(3) by linarith+
      have "3 + (?k - 7 * (5 - n)) = j" using that loop by linarith
      then show ?thesis using low [OF k] k unfolding 1(2) by (simp add: bit_push_bit_iff bit_drop_bit_eq)
    qed
    moreover have "1 \<le> n - 1" using loop by linarith
    ultimately have "\<forall>j. 7 * lz_num_bytes (n - 1) (push_bit 7 y) \<le> j \<longrightarrow> \<not> bit x j"
      using loop next_y 1(3) by (intro 1(1)) simp_all
    then show ?thesis using loop by (simp add: lz_num_bytes.simps [of n])
  next
    case False
    then show ?thesis using 1(5) by (simp add: lz_num_bytes.simps [of n])
  qed
qed

lemma lz_num_bytes_bounds: "1 \<le> n \<Longrightarrow> 1 \<le> lz_num_bytes n y \<and> lz_num_bytes n y \<le> n"
proof (induction n y rule: lz_num_bytes.induct)
  case (1 n y)
  then show ?case
    by (cases "2 \<le> n \<and> y AND 0xFE000000 = 0") (force simp: lz_num_bytes.simps [of n])+
qed

lemma bit_7F: "bit (0x7F :: u32) j \<longleftrightarrow> j < 7"
proof -
  have "(0x7F :: u32) = mask 7" by code_simp
  then show ?thesis by (simp only: bit_mask_iff) (auto simp: min_def)
qed

lemma bit_80: "bit (0x80 :: u32) j \<longleftrightarrow> j = 7"
proof -
  have "(0x80 :: u32) = push_bit 7 1" by code_simp
  then show ?thesis by (simp only: bit_push_bit_iff bit_1_iff) auto
qed

lemma lz_byte_low: "(ucast (lz_byte x k) :: u32) AND 0x7F = drop_bit (7 * k) x AND 0x7F"
  by (rule bit_word_eqI) (auto simp: lz_byte_def bit_and_iff bit_or_iff bit_unsigned_iff bit_7F bit_80 simp del: bit_numeral_word_iff)

lemma lz_byte_high: "((ucast (lz_byte x k) :: u32) AND 0x80 \<noteq> 0) = (0 < k)"
proof -
  have "(ucast (lz_byte x k) :: u32) AND 0x80 = (if 0 < k then 0x80 else 0)"
    by (rule bit_word_eqI) (auto simp: lz_byte_def bit_and_iff bit_or_iff bit_unsigned_iff bit_7F bit_80 simp del: bit_numeral_word_iff)
  then show ?thesis by simp
qed

lemma lz_push: "push_bit 7 (drop_bit (7 * Suc k) x) OR (drop_bit (7 * k) x AND 0x7F) = drop_bit (7 * k) (x :: u32)"
  by (rule bit_word_eqI)
    (auto simp: bit_and_iff bit_or_iff bit_push_bit_iff bit_drop_bit_eq bit_7F algebra_simps simp del: bit_numeral_word_iff)

lemma lz_read_write:
  "k \<le> 5 \<Longrightarrow> 1 \<le> k \<Longrightarrow> lz_read (drop_bit (7 * k) x) (map (lz_byte x) (rev [0..<k]) @ r) = Some (x, r)"
proof (induction k)
  case (Suc k)
  have byte: "(ucast (lz_byte x k) :: u32) AND 0x7F = drop_bit (7 * k) x AND 0x7F"
    "((ucast (lz_byte x k) :: u32) AND 0x80 \<noteq> 0) = (0 < k)"
    by (rule lz_byte_low lz_byte_high)+
  have "push_bit 7 (drop_bit (7 * Suc k) x) OR (drop_bit (7 * k) x AND 0x7F) = drop_bit (7 * k) x"
    by (rule lz_push)
  then show ?case using Suc byte by (cases "k = 0") (simp_all add: Let_def)
qed simp

definition num_bytes :: "u32 \<Rightarrow> nat" where "num_bytes x = lz_num_bytes 5 (drop_bit 3 x)"

lemma num_bytes_top: "drop_bit (7 * num_bytes x) x = 0"
proof -
  have "\<forall>j. 7 * num_bytes x \<le> j \<longrightarrow> \<not> bit x j"
    unfolding num_bytes_def
  proof (rule lz_num_bytes_top)
    show "\<forall>j. 7 * 5 \<le> j \<longrightarrow> \<not> bit x j" using bit_imp_le_length [of x] by fastforce
  qed simp_all
  then show ?thesis by (intro bit_word_eqI) (simp add: bit_drop_bit_eq)
qed

theorem LZ_ReadVarSize_LZ_WriteVarSize: "LZ_ReadVarSize (LZ_WriteVarSize x @ r) = Some (x, r)"
proof -
  have "num_bytes x \<le> 5" "1 \<le> num_bytes x"
    using lz_num_bytes_bounds [of 5 "drop_bit 3 x"] by (simp_all add: num_bytes_def)
  from lz_read_write [OF this, of x r] show ?thesis
    unfolding LZ_ReadVarSize_def LZ_WriteVarSize_def num_bytes_def [symmetric] num_bytes_top .
qed

section \<open>Matches\<close>

lemma LZ_StringCompare_spec:
  assumes "str1 + maxlen \<le> length buf" "str2 + maxlen \<le> length buf"
  shows "\<exists>l. LZ_StringCompare buf str1 str2 len maxlen = Some l \<and> len \<le> l \<and> l \<le> max len maxlen \<and>
    (\<forall>i. len \<le> i \<longrightarrow> i < l \<longrightarrow> buf ! (str1 + i) = buf ! (str2 + i))"
  using assms
proof (induction buf str1 str2 len maxlen rule: LZ_StringCompare.induct)
  case (1 buf str1 str2 len maxlen)
  show ?case
  proof (cases "len < maxlen \<and> buf ! (str1 + len) = buf ! (str2 + len)")
    case True
    then obtain l where l: "LZ_StringCompare buf str1 str2 (len + 1) maxlen = Some l" "len + 1 \<le> l"
      "l \<le> max (len + 1) maxlen" "\<forall>i. len + 1 \<le> i \<longrightarrow> i < l \<longrightarrow> buf ! (str1 + i) = buf ! (str2 + i)"
      using 1 by (fastforce simp: peek_def)
    have "\<forall>i. len \<le> i \<longrightarrow> i < l \<longrightarrow> buf ! (str1 + i) = buf ! (str2 + i)"
      using l(4) True by (metis Suc_eq_plus1 le_antisym not_less_eq_eq)
    then show ?thesis
      using True 1 l by (subst LZ_StringCompare.simps) (simp add: peek_def)
  next
    case False
    then show ?thesis
      using 1(2,3) by (subst LZ_StringCompare.simps) (auto simp: peek_def)
  qed
qed

text \<open>No match yet, or a match of more than three bytes with an earlier part of the data.\<close>

definition lz_match :: "u8 list \<Rightarrow> nat \<Rightarrow> nat \<Rightarrow> nat \<times> nat \<Rightarrow> bool" where
  "lz_match buf insize inpos best \<longleftrightarrow>
     best = (3, 0) \<or>
     3 < fst best \<and> fst best \<le> snd best \<and> snd best \<le> inpos \<and> inpos + fst best \<le> insize \<and>
     (\<forall>i < fst best. buf ! (inpos + i) = buf ! (inpos - snd best + i))"

lemma lz_match_bounds:
  assumes "lz_match buf insize inpos best" "inpos + 3 < insize"
  shows "inpos + fst best \<le> insize"
  using assms by (auto simp: lz_match_def)

lemma lz_better_match:
  assumes "lz_match buf insize inpos best" "inpos + bytesleft = insize" "insize \<le> length buf"
    "offset \<le> inpos" "minlen \<le> 3" "\<forall>i < minlen. buf ! (inpos + i) = buf ! (inpos - offset + i)"
  shows "\<exists>best'. lz_better buf inpos bytesleft minlen offset best = Some best' \<and> lz_match buf insize inpos best'"
proof -
  let ?m = "if bytesleft < offset then bytesleft else offset"
  have "inpos + ?m \<le> length buf" "inpos - offset + ?m \<le> length buf" using assms by auto
  then obtain l where l: "LZ_StringCompare buf inpos (inpos - offset) minlen ?m = Some l" "minlen \<le> l"
    "l \<le> max minlen ?m"
    "\<forall>i. minlen \<le> i \<longrightarrow> i < l \<longrightarrow> buf ! (inpos + i) = buf ! (inpos - offset + i)"
    using LZ_StringCompare_spec [of inpos ?m buf "inpos - offset" minlen] by blast
  have three: "3 \<le> fst best" using assms(1) by (auto simp: lz_match_def)
  have "lz_match buf insize inpos (l, offset)" if "fst best < l"
  proof -
    have "\<forall>i < l. buf ! (inpos + i) = buf ! (inpos - offset + i)"
      using l(4) assms(6) by (meson not_le)
    moreover have "l \<le> offset \<and> l \<le> bytesleft" using l(3) that three assms(5) by (auto split: if_splits)
    ultimately show ?thesis using that three assms by (auto simp: lz_match_def)
  qed
  then show ?thesis using l(1) assms(1) by (cases best) (auto simp: lz_better_def Let_def)
qed

section \<open>The decoder follows the coder\<close>

definition lz_resume :: "u8 \<Rightarrow> u8 list \<Rightarrow> u8 list \<Rightarrow> u8 list option" where
  "lz_resume marker input out = (if input = [] then Some out else lz_unloop marker input out)"

lemma lz_resume_single: "lz_resume marker (lz_single marker b @ rest) out = lz_resume marker rest (out @ [b])"
  by (simp add: lz_resume_def lz_single_def lz_unloop.simps [of marker "c # xs" for c xs])

lemma lz_copy_match:
  assumes "0 < offset" "offset \<le> inpos" "inpos + n \<le> length buf"
    "\<forall>i < n. buf ! (inpos + i) = buf ! (inpos - offset + i)"
  shows "lz_copy n offset (take inpos buf) = Some (take (inpos + n) buf)"
  using assms
proof (induction n arbitrary: inpos)
  case (Suc n)
  have "buf ! inpos = buf ! (inpos - offset)" using Suc.prems by fastforce
  then have "take inpos buf @ [take inpos buf ! (inpos - offset)] = take (Suc inpos) buf"
    using Suc.prems by (simp add: take_Suc_conv_app_nth)
  moreover have "\<forall>i<n. buf ! (Suc inpos + i) = buf ! (Suc inpos - offset + i)"
  proof (intro allI impI)
    fix i assume "i < n"
    then have "buf ! (inpos + Suc i) = buf ! (inpos - offset + Suc i)" using Suc.prems(4) by blast
    then show "buf ! (Suc inpos + i) = buf ! (Suc inpos - offset + i)"
      using Suc.prems(2) by (simp add: Suc_diff_le)
  qed
  ultimately show ?case using Suc.prems Suc.IH [of "Suc inpos"] by (simp add: min_def)
qed simp

lemma LZ_WriteVarSize_Cons:
  assumes "x \<noteq> 0"
  shows "\<exists>b bs. LZ_WriteVarSize x = b # bs \<and> b \<noteq> 0"
proof -
  define n where "n = num_bytes x"
  have n: "1 \<le> n" unfolding n_def num_bytes_def using lz_num_bytes_bounds [of 5] by simp
  then obtain k where k: "n = Suc k" by (cases n) auto
  have W: "LZ_WriteVarSize x = lz_byte x k # map (lz_byte x) (rev [0..<k])"
    unfolding LZ_WriteVarSize_def num_bytes_def [symmetric] n_def [symmetric] k by simp
  have "lz_byte x k \<noteq> 0"
  proof (cases "k = 0")
    case True
    have "drop_bit 7 x = 0" using num_bytes_top [of x] k True n_def by simp
    then have "x AND 0x7F = x"
      using lz_push [of 0 x] by simp
    then have "(ucast (lz_byte x k) :: u32) AND 0x7F \<noteq> 0" using lz_byte_low [of x k] True assms by simp
    then show ?thesis by auto
  next
    case False
    then have "(ucast (lz_byte x k) :: u32) AND 0x80 \<noteq> 0" using lz_byte_high [of x k] by blast
    then show ?thesis by auto
  qed
  then show ?thesis using W by blast
qed

lemma lz_resume_emit:
  assumes "lz_match buf insize inpos (bl, bo)" "lz_good bl bo" "insize \<le> length buf" "insize < 2 ^ 32"
  shows "lz_resume marker (lz_emit marker bl bo @ rest) (take inpos buf) =
    lz_resume marker rest (take (inpos + bl) buf)"
proof -
  have m: "3 < bl" "bl \<le> bo" "bo \<le> inpos" "inpos + bl \<le> insize"
    "\<forall>i < bl. buf ! (inpos + i) = buf ! (inpos - bo + i)"
    using assms(1,2) by (auto simp: lz_match_def lz_good_def)
  have nat: "unat (of_nat bl :: u32) = bl" "unat (of_nat bo :: u32) = bo"
    using m assms(4) by (simp_all add: unat_of_nat)
  then have "(of_nat bl :: u32) \<noteq> 0" using m(1) by (metis not_less_zero unat_0)
  then obtain b bs where b: "LZ_WriteVarSize (of_nat bl) = b # bs" "b \<noteq> 0"
    using LZ_WriteVarSize_Cons by blast
  have "LZ_ReadVarSize (b # bs @ LZ_WriteVarSize (of_nat bo) @ rest) =
      Some (of_nat bl, LZ_WriteVarSize (of_nat bo) @ rest)"
    using LZ_ReadVarSize_LZ_WriteVarSize [of "of_nat bl" "LZ_WriteVarSize (of_nat bo) @ rest"] b by simp
  moreover have "lz_copy bl bo (take inpos buf) = Some (take (inpos + bl) buf)"
    using m assms(3) by (intro lz_copy_match) auto
  ultimately show ?thesis
    by (simp add: lz_resume_def lz_emit_def b lz_unloop.simps [of marker "marker # xs" for xs] LZ_ReadVarSize_LZ_WriteVarSize nat)
qed

lemma length_lz_single: "length (lz_single marker b) = 1 + (if b = marker then 1 else 0)"
  by (simp add: lz_single_def)

lemma take_count_Suc:
  assumes "inpos < length buf"
  shows "take inpos buf @ [buf ! inpos] = take (Suc inpos) buf"
    "count_list (take (Suc n) (drop inpos buf)) marker =
       (if buf ! inpos = marker then 1 else 0) + count_list (take n (drop (Suc inpos) buf)) marker"
  using assms by (simp_all add: take_Suc_conv_app_nth flip: Cons_nth_drop_Suc)

lemma lz_dump_spec:
  "inpos + n \<le> length buf \<Longrightarrow> \<exists>out. lz_dump buf marker inpos n = Some out \<and>
     lz_resume marker out (take inpos buf) = Some (take (inpos + n) buf) \<and>
     length out = n + count_list (take n (drop inpos buf)) marker"
proof (induction n arbitrary: inpos)
  case (Suc n)
  obtain out where "lz_dump buf marker (inpos + 1) n = Some out"
    "lz_resume marker out (take (Suc inpos) buf) = Some (take (inpos + Suc n) buf)"
    "length out = n + count_list (take n (drop (Suc inpos) buf)) marker"
    using Suc.IH [of "Suc inpos"] Suc.prems by auto
  then have "lz_dump buf marker inpos (Suc n) = Some (lz_single marker (buf ! inpos) @ out)"
    "lz_resume marker (lz_single marker (buf ! inpos) @ out) (take inpos buf) = Some (take (inpos + Suc n) buf)"
    "length (lz_single marker (buf ! inpos) @ out) = Suc n + count_list (take (Suc n) (drop inpos buf)) marker"
    using Suc.prems take_count_Suc [of inpos buf]
    by (simp_all add: peek_def lz_resume_single length_lz_single del: take_Suc)
  then show ?case by blast
qed (simp add: lz_resume_def)

section \<open>Sizes\<close>

lemma lz_num_bytes_le:
  assumes "y = push_bit (7 * (5 - n)) (drop_bit 3 x)" "n \<le> 5" "1 \<le> k" "k \<le> n" "\<forall>j. 7 * k \<le> j \<longrightarrow> \<not> bit x j"
  shows "lz_num_bytes n y \<le> k"
  using assms
proof (induction n y rule: lz_num_bytes.induct)
  case (1 n y)
  show ?case
  proof (cases "n = k")
    case True
    then show ?thesis using lz_num_bytes_bounds 1(4) by blast
  next
    case False
    have "\<not> bit y j" if "25 \<le> j" for j
    proof -
      have "7 * k \<le> 3 + (j - 7 * (5 - n))" using that False 1(3-5) by linarith
      then show ?thesis using 1(6) unfolding 1(2) by (simp add: bit_push_bit_iff bit_drop_bit_eq)
    qed
    moreover have "\<not> bit (0xFE000000 :: u32) j" if "j < 25" for j
    proof -
      have "list_all (\<lambda>k. \<not> bit (0xFE000000 :: u32) k) [0..<25]" by code_simp
      then have "\<forall>k \<in> set [0..<25]. \<not> bit (0xFE000000 :: u32) k" unfolding list_all_iff .
      then show ?thesis using that by (metis atLeast0LessThan lessThan_iff set_upt)
    qed
    ultimately have y0: "y AND 0xFE000000 = 0"
      by (intro bit_word_eqI) (metis bit_0_eq bit_and_iff bot_apply bot_bool_def not_le)
    have "7 + 7 * (5 - n) = 7 * (5 - (n - 1))" using False 1(3-5) by linarith
    then have "push_bit 7 y = push_bit (7 * (5 - (n - 1))) (drop_bit 3 x)"
      unfolding 1(2) push_bit_push_bit by simp
    moreover have "2 \<le> n" "k \<le> n - 1" using False 1(4,5) by linarith+
    ultimately have "lz_num_bytes (n - 1) (push_bit 7 y) \<le> k" using 1(1) y0 1(3-6) by simp
    then show ?thesis using y0 \<open>2 \<le> n\<close> by (simp add: lz_num_bytes.simps [of n])
  qed
qed

lemma num_bytes_of_nat:
  assumes "m < 2 ^ (7 * k)" "1 \<le> k" "k \<le> 5"
  shows "num_bytes (of_nat m) \<le> k"
  unfolding num_bytes_def
proof (rule lz_num_bytes_le)
  show "\<forall>j. 7 * k \<le> j \<longrightarrow> \<not> bit (of_nat m :: u32) j"
  proof (intro allI impI)
    fix j assume "7 * k \<le> j"
    then have "m < 2 ^ j" using assms(1) by (meson less_le_trans one_le_numeral power_increasing)
    then have "\<not> bit m j" by (simp add: bit_iff_odd)
    then show "\<not> bit (of_nat m :: u32) j" by transfer (simp add: bit_take_bit_iff bit_of_nat_iff_bit)
  qed
qed (use assms in simp_all)

lemma length_LZ_WriteVarSize: "length (LZ_WriteVarSize x) = num_bytes x"
  by (simp add: LZ_WriteVarSize_def num_bytes_def)

lemma num_bytes_max: "num_bytes x \<le> 5"
  using lz_num_bytes_bounds [of 5] by (simp add: num_bytes_def)

lemma length_lz_emit:
  assumes "lz_good bl bo"
  shows "length (lz_emit marker bl bo) \<le> bl"
proof -
  have len: "length (lz_emit marker bl bo) = 1 + num_bytes (of_nat bl) + num_bytes (of_nat bo)"
    by (simp add: lz_emit_def length_LZ_WriteVarSize)
  have b: "num_bytes (of_nat bl) \<le> 5" "num_bytes (of_nat bo) \<le> 5" by (rule num_bytes_max)+
  have small: "num_bytes (of_nat bl) \<le> 1" if "bl < 128" using num_bytes_of_nat [of bl 1] that by simp
  have off: "bo \<le> 0x7F \<Longrightarrow> num_bytes (of_nat bo) \<le> 1" "bo \<le> 0x3FFF \<Longrightarrow> num_bytes (of_nat bo) \<le> 2"
    "bo \<le> 0x1FFFFF \<Longrightarrow> num_bytes (of_nat bo) \<le> 3" "bo \<le> 0x0FFFFFFF \<Longrightarrow> num_bytes (of_nat bo) \<le> 4"
    using num_bytes_of_nat [of bo 1] num_bytes_of_nat [of bo 2] num_bytes_of_nat [of bo 3] num_bytes_of_nat [of bo 4]
    by simp_all
  consider "128 \<le> bl" | "8 \<le> bl" "bl < 128" | "bl = 4" "bo \<le> 0x7F" | "bl = 5" "bo \<le> 0x3FFF" |
    "bl = 6" "bo \<le> 0x1FFFFF" | "bl = 7" "bo \<le> 0x0FFFFFFF"
    using assms unfolding lz_good_def by linarith
  then show ?thesis unfolding len using b small off by cases linarith+
qed

lemma count_list_tail:
  assumes "k \<le> n"
  shows "count_list (take (n - k) (drop (inpos + k) xs)) a \<le> count_list (take n (drop inpos xs)) a"
proof -
  have "take n (drop inpos xs) = take k (drop inpos xs) @ take (n - k) (drop (inpos + k) xs)"
    using take_add [of k "n - k" "drop inpos xs"] assms by (simp add: add.commute)
  then show ?thesis by (simp add: count_list_append)
qed

section \<open>Compressors over a match finder\<close>

text \<open>The contract of a way to find matches: it returns a match, reading inside a buffer that is longer
  than the data by at least one byte.\<close>

locale match_finder =
  fixes find :: "u8 list \<Rightarrow> nat \<Rightarrow> nat \<Rightarrow> nat \<Rightarrow> (nat \<times> nat) option"
  assumes find_match:
    "insize < length buf \<Longrightarrow> insize < 2 ^ 32 \<Longrightarrow> inpos + bytesleft = insize \<Longrightarrow>
     3 < bytesleft \<or> inpos = 0 \<Longrightarrow> 0 < bytesleft \<Longrightarrow> \<exists>best. find buf insize inpos bytesleft = Some best \<and> lz_match buf insize inpos best"
begin

lemma loop_spec:
  assumes "insize < length buf" "insize < 2 ^ 32" "inpos + bytesleft = insize" "3 < bytesleft \<or> inpos = 0"
    "0 < bytesleft"
  shows "\<exists>out. lz_loop (find buf insize) buf marker inpos bytesleft = Some out \<and>
    lz_resume marker out (take inpos buf) = Some (take insize buf) \<and>
    length out \<le> bytesleft + count_list (take bytesleft (drop inpos buf)) marker"
  using assms(3-)
proof (induction bytesleft arbitrary: inpos rule: less_induct)
  case (less bytesleft)
  obtain bl bo where best: "find buf insize inpos bytesleft = Some (bl, bo)" "lz_match buf insize inpos (bl, bo)"
    using find_match [OF assms(1,2) less.prems] by auto
  let ?rest = "\<lambda>inpos bytesleft. if 3 < bytesleft then lz_loop (find buf insize) buf marker inpos bytesleft
    else lz_dump buf marker inpos bytesleft"
  have rest: "\<exists>out. ?rest (inpos + k) (bytesleft - k) = Some out \<and>
      lz_resume marker out (take (inpos + k) buf) = Some (take insize buf) \<and>
      length out \<le> bytesleft - k + count_list (take (bytesleft - k) (drop (inpos + k) buf)) marker"
    if "0 < k" "k \<le> bytesleft" for k
  proof (cases "3 < bytesleft - k")
    case True
    then show ?thesis using less.IH [of "bytesleft - k" "inpos + k"] less.prems that by simp
  next
    case False
    then show ?thesis
      using lz_dump_spec [of "inpos + k" "bytesleft - k" buf marker] less.prems assms(1) that by auto
  qed
  show ?case
  proof (cases "lz_good bl bo")
    case good: True
    then have bl: "0 < bl" "bl \<le> bytesleft"
      using best(2) less.prems by (auto simp: lz_match_def lz_good_def)
    obtain out where out: "?rest (inpos + bl) (bytesleft - bl) = Some out"
      "lz_resume marker out (take (inpos + bl) buf) = Some (take insize buf)"
      "length out \<le> bytesleft - bl + count_list (take (bytesleft - bl) (drop (inpos + bl) buf)) marker"
      using rest [OF bl] by blast
    have dec: "lz_resume marker (lz_emit marker bl bo @ out) (take inpos buf) = Some (take insize buf)"
      using lz_resume_emit [OF best(2) good] assms out(2) by simp
    have "length (lz_emit marker bl bo) \<le> bl" by (rule length_lz_emit [OF good])
    moreover have "count_list (take (bytesleft - bl) (drop (inpos + bl) buf)) marker
        \<le> count_list (take bytesleft (drop inpos buf)) marker"
      by (rule count_list_tail [OF bl(2)])
    ultimately have "length (lz_emit marker bl bo @ out)
        \<le> bytesleft + count_list (take bytesleft (drop inpos buf)) marker"
      using out(3) bl by simp
    moreover have "lz_loop (find buf insize) buf marker inpos bytesleft = Some (lz_emit marker bl bo @ out)"
      using out(1) best(1) good by (subst lz_loop.simps) simp
    ultimately show ?thesis using dec by blast
  next
    case single: False
    obtain out where out: "?rest (inpos + 1) (bytesleft - 1) = Some out"
      "lz_resume marker out (take (inpos + 1) buf) = Some (take insize buf)"
      "length out \<le> bytesleft - 1 + count_list (take (bytesleft - 1) (drop (inpos + 1) buf)) marker"
      using rest [of 1] less.prems by auto
    have "lz_resume marker (lz_single marker (buf ! inpos) @ out) (take inpos buf) = Some (take insize buf)"
      "length (lz_single marker (buf ! inpos) @ out) \<le> bytesleft + count_list (take bytesleft (drop inpos buf)) marker"
      using out take_count_Suc [where inpos = inpos and buf = buf]  take_count_Suc(2) [of inpos buf "bytesleft - 1" marker] less.prems assms(1)
      by (auto simp: lz_resume_single length_lz_single)
    moreover have "lz_loop (find buf insize) buf marker inpos bytesleft = Some (lz_single marker (buf ! inpos) @ out)"
      using out(1) best(1) single less.prems assms(1) by (subst lz_loop.simps) (auto simp: peek_def split: if_splits)
    ultimately show ?thesis by blast
  qed
qed

lemma compress_spec:
  assumes "insize < length buf" "insize < 2 ^ 32" "0 < insize" "marker = marker_of (take insize buf)"
  shows "\<exists>out. lz_loop (find buf insize) buf marker 0 insize = Some out \<and>
    LZ_Uncompress (marker # out) = Some (take insize buf) \<and> length out \<le> insize + insize div 256"
proof -
  obtain out where out: "lz_loop (find buf insize) buf marker 0 insize = Some out"
    "lz_resume marker out [] = Some (take insize buf)" "length out \<le> insize + count_list (take insize buf) marker"
    using loop_spec [of insize buf 0 insize marker] assms by auto
  then have "out \<noteq> []" using assms by (auto simp: lz_resume_def)
  then have "LZ_Uncompress (marker # out) = Some (take insize buf)"
    using out(2) by (simp add: LZ_Uncompress_def lz_resume_def)
  moreover have "count_list (take insize buf) marker \<le> insize div 256"
    using marker_rare [of "take insize buf"] assms by simp
  ultimately show ?thesis using out by auto
qed

end

lemma lz_search_match:
  assumes "insize < length buf" "inpos + bytesleft = insize" "3 < bytesleft"
    "lz_match buf insize inpos best" "\<forall>offset \<in> set offsets. offset \<le> inpos"
  shows "\<exists>best'. lz_search buf inpos bytesleft offsets best = Some best' \<and> lz_match buf insize inpos best'"
  using assms(4-)
proof (induction offsets arbitrary: best)
  case (Cons offset offsets)
  have "inpos + fst best \<le> insize" using Cons.prems assms(2,3) by (intro lz_match_bounds) auto
  then have "inpos < length buf" "inpos - offset < length buf" "inpos + fst best < length buf"
    "inpos - offset + fst best < length buf"
    using assms by linarith+
  moreover obtain b where "lz_better buf inpos bytesleft 0 offset best = Some b" "lz_match buf insize inpos b"
    using lz_better_match [of buf insize inpos best bytesleft offset 0] Cons.prems assms by auto
  ultimately show ?case using Cons by (auto simp: peek_def)
qed simp

interpretation window: match_finder "\<lambda>buf insize. lz_window buf"
proof
  fix buf :: "u8 list" and insize inpos bytesleft
  assume a: "insize < length buf" "inpos + bytesleft = insize" "3 < bytesleft \<or> inpos = 0"
  show "\<exists>best. lz_window buf inpos bytesleft = Some best \<and> lz_match buf insize inpos best"
  proof (cases "3 < bytesleft")
    case True
    then show ?thesis
      unfolding lz_window_def Let_def using a by (intro lz_search_match) (auto simp: lz_match_def)
  next
    case False
    then show ?thesis using a by (auto simp: lz_window_def lz_match_def)
  qed
qed

section \<open>The jump table\<close>

lemma lz_pair_inj: "lz_pair a b = lz_pair c d \<Longrightarrow> a = c \<and> b = d"
proof -
  assume "lz_pair a b = lz_pair c d"
  then have "push_bit 8 (ucast a :: u32) OR ucast b = push_bit 8 (ucast c :: u32) OR ucast d"
    by (simp add: lz_pair_def)
  then have eq: "bit (push_bit 8 (ucast a :: u32) OR ucast b) n = bit (push_bit 8 (ucast c :: u32) OR ucast d) n" for n
    by simp
  have "bit a n = bit c n" if "n < 8" for n
    using eq [of "n + 8"] that bit_imp_le_length [of b "n + 8"] bit_imp_le_length [of d "n + 8"]
    by (auto simp: bit_or_iff bit_push_bit_iff bit_unsigned_iff)
  moreover have "bit b n = bit d n" if "n < 8" for n
    using eq [of n] that by (auto simp: bit_or_iff bit_push_bit_iff bit_unsigned_iff)
  ultimately show ?thesis by (auto intro!: bit_word_eqI)
qed

definition jump_ok :: "u8 list \<Rightarrow> nat \<Rightarrow> u32 \<Rightarrow> bool" where
  "jump_ok buf i index \<longleftrightarrow>
     index = NO_INDEX \<or>
     unat index < i \<and> buf ! unat index = buf ! i \<and> buf ! (unat index + 1) = buf ! (i + 1)"

lemma lz_jumps_spec:
  assumes "\<forall>s. lastindex s = NO_INDEX \<or>
      unat (lastindex s) < j \<and> lz_pair (buf ! unat (lastindex s)) (buf ! (unat (lastindex s) + 1)) = s"
    "j + n < length buf" "j + n < 2 ^ 32"
  shows "\<exists>jt. lz_jumps buf [j..<j + n] lastindex = Some jt \<and> length jt = n \<and> (\<forall>i < n. jump_ok buf (j + i) (jt ! i))"
  using assms
proof (induction n arbitrary: j lastindex)
  case (Suc n)
  let ?s = "lz_pair (buf ! j) (buf ! Suc j)"
  let ?l = "lastindex(?s := of_nat j)"
  have "\<forall>s. ?l s = NO_INDEX \<or> 
      unat (?l s) < Suc j \<and> lz_pair (buf ! unat (?l s)) (buf ! (unat (?l s) + 1)) = s"
    using Suc.prems(1,3) by (auto simp: less_Suc_eq unat_of_nat)
  moreover have "Suc j + n < length buf" "Suc j + n < 2 ^ 32" using Suc.prems(2,3) by simp_all
  ultimately obtain jt where jt: "lz_jumps buf [Suc j..<Suc j + n] ?l = Some jt" "length jt = n"
    "\<forall>i < n. jump_ok buf (Suc j + i) (jt ! i)"
    using Suc.IH [of ?l "Suc j"] by blast
  have ok: "jump_ok buf j (lastindex ?s)"
    using Suc.prems(1) lz_pair_inj unfolding jump_ok_def by (metis Suc_eq_plus1)
  have "[j..<j + Suc n] = j # [Suc j..<Suc j + n]" by (simp add: upt_conv_Cons del: upt_Suc)
  then have "lz_jumps buf [j..<j + Suc n] lastindex = Some (lastindex ?s # jt)"
    using jt(1) Suc.prems(2) by (simp add: peek_def del: upt_Suc)
  moreover have "\<forall>i < Suc n. jump_ok buf (j + i) ((lastindex ?s # jt) ! i)"
    using jt(3) ok by (auto simp: nth_Cons split: nat.split)
  ultimately show ?case using jt(2) by auto
qed simp

lemma lz_jumptable_spec:
  assumes "0 < insize" "insize < length buf" "insize < 2 ^ 32"
  shows "\<exists>jt. lz_jumptable buf insize = Some jt \<and> length jt = insize \<and> (\<forall>i < insize. jump_ok buf i (jt ! i))"
proof -
  have "0 + (insize - 1) < length buf" "0 + (insize - 1) < 2 ^ 32" using assms by simp_all
  then obtain jt where jt: "lz_jumps buf [0..<insize - 1] (\<lambda>_. NO_INDEX) = Some jt" "length jt = insize - 1"
    "\<forall>i < insize - 1. jump_ok buf i (jt ! i)"
    using lz_jumps_spec [of "\<lambda>_. NO_INDEX" 0 buf "insize - 1"] by auto
  moreover have "\<forall>i < insize. jump_ok buf i ((jt @ [NO_INDEX]) ! i)"
    using jt(2,3) by (auto simp: nth_append jump_ok_def)
  ultimately show ?thesis using assms by (simp add: lz_jumptable_def)
qed

text \<open>The walk ends: the index decreases.\<close>

lemma lz_walk_match:
  assumes "insize < length buf" "inpos + bytesleft = insize" "3 < bytesleft" "length jt = insize"
    "\<forall>i < insize. jump_ok buf i (jt ! i)" "lz_match buf insize inpos best" "jump_ok buf inpos index"
  shows "\<exists>best'. lz_walk buf jt inpos bytesleft index best = Some best' \<and> lz_match buf insize inpos best'"
  using assms(6-)
proof (induction "unat index" arbitrary: index best rule: less_induct)
  case less
  show ?case
  proof (cases "index \<noteq> NO_INDEX \<and> inpos - unat index < LZ_MAX_OFFSET")
    case True
    then have i: "unat index < inpos" "buf ! unat index = buf ! inpos" "buf ! (unat index + 1) = buf ! (inpos + 1)"
      using less.prems(2) by (auto simp: jump_ok_def)
    have "\<forall>i < 2. buf ! (inpos + i) = buf ! (inpos - (inpos - unat index) + i)"
      using i by (auto simp: less_2_cases_iff)
    then obtain b where b: "lz_better buf inpos bytesleft 2 (inpos - unat index) best = Some b" "lz_match buf insize inpos b"
      using lz_better_match [of buf insize inpos best bytesleft "inpos - unat index" 2] less.prems(1) assms(1-3) by auto
    have "inpos + fst best \<le> insize" using less.prems(1) assms(2,3) by (intro lz_match_bounds) auto
    then have p: "peek buf (unat index + fst best) = Some (buf ! (unat index + fst best))"
      "peek buf (inpos + fst best) = Some (buf ! (inpos + fst best))" "peek jt (unat index) = Some (jt ! unat index)"
      using i(1) assms(1-4) by (auto simp: peek_def)
    have next_ok: "jump_ok buf (unat index) (jt ! unat index)" using assms(2,5) i(1) by simp
    have rec: "\<exists>best'. lz_walk buf jt inpos bytesleft (jt ! unat index) c = Some best' \<and> lz_match buf insize inpos best'"
      if "lz_match buf insize inpos c" for c
    proof (cases "jt ! unat index = NO_INDEX")
      case True
      then show ?thesis using that by (simp add: lz_walk.simps)
    next
      case False
      then have "unat (jt ! unat index) < unat index" "jump_ok buf inpos (jt ! unat index)"
        using next_ok i by (auto simp: jump_ok_def)
      then show ?thesis using less.hyps that by blast
    qed
    show ?thesis
      using True b p rec [OF b(2)] rec [OF less.prems(1)] by (subst lz_walk.simps) simp
  next
    case False
    then have "lz_walk buf jt inpos bytesleft index best = Some best" by (subst lz_walk.simps) auto
    then show ?thesis using less.prems(1) by blast
  qed
qed

interpretation chain: match_finder "\<lambda>buf insize inpos bytesleft.
  lz_jumptable buf insize \<bind> (\<lambda>jumptable. lz_chain buf jumptable inpos bytesleft)"
proof
  fix buf :: "u8 list" and insize inpos bytesleft
  assume a: "insize < length buf" "insize < 2 ^ 32" "inpos + bytesleft = insize" "3 < bytesleft \<or> inpos = 0" "0 < bytesleft"
  then obtain jt where jt: "lz_jumptable buf insize = Some jt" "length jt = insize"
    "\<forall>i < insize. jump_ok buf i (jt ! i)"
    using lz_jumptable_spec [of insize buf] by auto
  have "\<exists>best. lz_walk buf jt inpos bytesleft (jt ! inpos) (3, 0) = Some best \<and> lz_match buf insize inpos best"
  proof (cases "3 < bytesleft")
    case True
    then show ?thesis using a jt by (intro lz_walk_match) (auto simp: lz_match_def)
  next
    case False
    then have "jt ! inpos = NO_INDEX" using a jt(3) by (auto simp: jump_ok_def)
    then show ?thesis by (simp add: lz_walk.simps lz_match_def)
  qed
  then show "\<exists>best. lz_jumptable buf insize \<bind> (\<lambda>jumptable. lz_chain buf jumptable inpos bytesleft) = Some best \<and>
      lz_match buf insize inpos best"
    using jt a by (simp add: lz_chain_def peek_def)
qed

section \<open>Round trips and sizes\<close>

text \<open>C13: the LZ77 coder is correct. With a buffer that is readable one byte past the data,
  \<open>LZ_Compress\<close> returns, \<open>LZ_Uncompress\<close> gives the data back, and the output is at most 1/256 (0.4%)
  larger than the data, plus one byte.\<close>

theorem LZ_roundtrip:
  assumes "insize < length buf" "insize < 2 ^ 32"
  shows "\<exists>out. LZ_Compress buf insize = Some out \<and> LZ_Uncompress out = Some (take insize buf) \<and>
    length out \<le> insize + insize div 256 + 1"
proof (cases "insize = 0")
  case False
  then show ?thesis
    using window.compress_spec [OF assms, of "marker_of (take insize buf)"] by (auto simp: LZ_Compress_def Let_def)
qed (simp add: LZ_Compress_def LZ_Uncompress_def)

theorem LZ_roundtrip_witness:
  "\<exists>out. LZ_Compress [1, 2, 9, 1, 2, 3, 4, 1, 2, 3, 4, 0] 11 = Some out \<and>
    LZ_Uncompress out = Some [1, 2, 9, 1, 2, 3, 4, 1, 2, 3, 4] \<and> length out \<le> 12"
  using LZ_roundtrip [of 11 "[1, 2, 9, 1, 2, 3, 4, 1, 2, 3, 4, 0]"] by simp

text \<open>C14: the fast compressor, which follows a jump table of symbol pairs, has the same contract, and its
  walk along the table always ends.\<close>

theorem LZ_CompressFast_roundtrip:
  assumes "insize < length buf" "insize < 2 ^ 32"
  shows "\<exists>out. LZ_CompressFast buf insize = Some out \<and> LZ_Uncompress out = Some (take insize buf) \<and>
    length out \<le> insize + insize div 256 + 1"
proof (cases "insize = 0")
  case False
  then obtain jt where "lz_jumptable buf insize = Some jt"
    using lz_jumptable_spec [of insize buf] assms by auto
  then show ?thesis
    using False chain.compress_spec [OF assms, of "marker_of (take insize buf)"]
    by (auto simp: LZ_CompressFast_def Let_def)
qed (simp add: LZ_CompressFast_def LZ_Uncompress_def)

theorem LZ_CompressFast_roundtrip_witness:
  "\<exists>out. LZ_CompressFast [1, 2, 9, 1, 2, 3, 4, 1, 2, 3, 4, 0] 11 = Some out \<and>
    LZ_Uncompress out = Some [1, 2, 9, 1, 2, 3, 4, 1, 2, 3, 4] \<and> length out \<le> 12"
  using LZ_CompressFast_roundtrip [of 11 "[1, 2, 9, 1, 2, 3, 4, 1, 2, 3, 4, 0]"] by simp


end
