(* ===== verification/Cd_Block.thy ===== *)
theory Cd_Block
  imports Scu_Dma
begin

text \<open>
  The CD block driver: \<open>cd-block_execute.c\<close>, \<open>cd-block_cmds.c\<close> and \<open>cd-block_init.c\<close> under
  \<open>libyaul/scu/bus/a/cs2/cd-block\<close>.

  The drive is an environment. Every access to its registers is an event, and the machine keeps
  the history of events, newest first. What a read returns is given by a parameter \<open>hw\<close>, a function
  of that history and of the register. \<open>None\<close> is a wait that never ends or a failed assertion. A
  pointer through which a result is returned is a flag (whether it is not \<open>NULL\<close>), and what is stored
  through it an optional value.
\<close>

section \<open>Registers\<close>

definition CMOK :: u16 where "CMOK = 0x0001"
definition DRDY :: u16 where "DRDY = 0x0002"
definition DCHG :: u16 where "DCHG = 0x0020"
definition ESEL :: u16 where "ESEL = 0x0040"
definition EHST :: u16 where "EHST = 0x0080"
definition ECPY :: u16 where "ECPY = 0x0100"
definition EFLS :: u16 where "EFLS = 0x0200"

datatype cd_register = DTR | HIRQ | CR1 | CR2 | CR3 | CR4

fun CD_BLOCK :: "cd_register \<Rightarrow> u32" where
  "CD_BLOCK DTR = 0x25890000 + 0x0000"
| "CD_BLOCK HIRQ = 0x25890000 + 0x0008"
| "CD_BLOCK CR1 = 0x25890000 + 0x0018"
| "CD_BLOCK CR2 = 0x25890000 + 0x001C"
| "CD_BLOCK CR3 = 0x25890000 + 0x0020"
| "CD_BLOCK CR4 = 0x25890000 + 0x0024"

declare CD_BLOCK.simps [simp del]

text \<open>The members \<open>dtr\<close> and \<open>hirq\<close> of the structure are never used.\<close>

record cd_block_regs =
  hirq_mask :: u16
  cr1 :: u16
  cr2 :: u16
  cr3 :: u16
  cr4 :: u16

definition cd_regs :: "u16 \<Rightarrow> u16 \<Rightarrow> u16 \<Rightarrow> u16 \<Rightarrow> u16 \<Rightarrow> cd_block_regs" where
  "cd_regs h a b c d = \<lparr>hirq_mask = h, cr1 = a, cr2 = b, cr3 = c, cr4 = d\<rparr>"

text \<open>An event: a read of 16 bits, a write of 16 bits, a write of 32 bits.\<close>

datatype cd_event = Rd u32 | Wr u32 u16 | Wr32 u32 u32

type_synonym cd_hw = "cd_event list \<Rightarrow> u32 \<Rightarrow> u16"

record cd_machine = machine +
  history :: "cd_event list"

definition cd_log :: "cd_event \<Rightarrow> cd_machine \<Rightarrow> cd_machine" where
  "cd_log e m = m\<lparr>history := e # history m\<rparr>"

definition cd_read :: "cd_hw \<Rightarrow> cd_register \<Rightarrow> cd_machine \<Rightarrow> u16 \<times> cd_machine" where
  "cd_read hw r m = (hw (history m) (CD_BLOCK r), cd_log (Rd (CD_BLOCK r)) m)"

definition cd_write :: "cd_register \<Rightarrow> u16 \<Rightarrow> cd_machine \<Rightarrow> cd_machine" where
  "cd_write r v m = cd_log (Wr (CD_BLOCK r) v) m"

definition cd_write_and :: "cd_hw \<Rightarrow> cd_register \<Rightarrow> u16 \<Rightarrow> cd_machine \<Rightarrow> cd_machine" where
  "cd_write_and hw r v m = (let (x, m) = cd_read hw r m in cd_write r (x AND v) m)"

definition cd_write_or :: "cd_hw \<Rightarrow> cd_register \<Rightarrow> u16 \<Rightarrow> cd_machine \<Rightarrow> cd_machine" where
  "cd_write_or hw r v m = (let (x, m) = cd_read hw r m in cd_write r (x OR v) m)"

section \<open>Executing a command\<close>

definition busy :: "cd_hw \<Rightarrow> cd_machine \<Rightarrow> bool \<times> cd_machine" where
  "busy hw m = (let (v, m) = cd_read hw HIRQ m in (v AND CMOK = 0x0000, m))"

lemma counter_step: "w < 0x00240000 \<Longrightarrow> 0x00240000 - unat (w + 1 :: u32) < 0x00240000 - unat w"
proof -
  assume less: "w < 0x00240000"
  then have w: "unat w < 0x00240000" by (simp add: word_less_nat_alt)
  have "unat (w + 1) = Suc (unat w)" using less by (rule unat_Suc_less)
  then show ?thesis using w by simp
qed

function busy_wait :: "cd_hw \<Rightarrow> u32 \<Rightarrow> cd_machine \<Rightarrow> cd_machine" where
  "busy_wait hw w m =
     (if w < 0x00240000 then
        let (b, m) = busy hw m in if \<not> b then m else busy_wait hw (w + 1) m
      else m)"
  by pat_completeness auto
termination
  by (relation "measure (\<lambda>(hw, w, m). 0x00240000 - unat w)") (auto intro: counter_step)

declare busy_wait.simps [simp del]

text \<open>The part that runs with interrupts masked: \<open>Inl\<close> is the error, \<open>Inr\<close> the registers read back.\<close>

definition execute_masked :: "cd_hw \<Rightarrow> cd_block_regs \<Rightarrow> cd_machine \<Rightarrow> (s32 + cd_block_regs) \<times> cd_machine" where
  "execute_masked hw regs m =
     (let (b, m) = busy hw m in
      if b then (Inl (- 1), m)
      else
        let (hirq, m) = cd_read hw HIRQ m;
            hirq = hirq AND 0xFFFE;
            hirq = hirq AND NOT (hirq_mask regs);
            m = cd_write HIRQ hirq m;
            m = cd_write CR1 (cr1 regs) m;
            m = cd_write CR2 (cr2 regs) m;
            m = cd_write CR3 (cr3 regs) m;
            m = cd_write CR4 (cr4 regs) m;
            m = busy_wait hw 0 m;
            (b, m) = busy hw m
        in
        if b then (Inl (- 1), m)
        else
          let (c1, m) = cd_read hw CR1 m;
              (c2, m) = cd_read hw CR2 m;
              (c3, m) = cd_read hw CR3 m;
              (c4, m) = cd_read hw CR4 m;
              cd_status = drop_bit 8 c1
          in if cd_status = 0xFF \<or> cd_status AND 0x80 \<noteq> 0 then (Inl (- 1), m)
             else (Inr (cd_regs 0 c1 c2 c3 c4), m))"

definition cd_block_cmd_execute :: "cd_hw \<Rightarrow> cd_block_regs \<Rightarrow> cd_machine \<Rightarrow> (s32 + cd_block_regs) \<times> cd_machine" where
  "cd_block_cmd_execute hw regs m =
     (let mask = cpu_intc_mask_get m;
          m = cpu_intc_mask_set 15 m;
          (error, m) = execute_masked hw regs m
      in (error, cpu_intc_mask_set mask m))"

section \<open>Commands\<close>

definition CD_STATUS_PAUSE :: u8 where "CD_STATUS_PAUSE = 0x01"
definition CD_STATUS_OPEN :: u8 where "CD_STATUS_OPEN = 0x06"
definition CD_STATUS_NO_DISC :: u8 where "CD_STATUS_NO_DISC = 0x07"
definition CD_STATUS_ERROR :: u8 where "CD_STATUS_ERROR = 0x09"
definition CD_STATUS_FATAL :: u8 where "CD_STATUS_FATAL = 0x0A"
definition CD_STATUS_REJECT :: u8 where "CD_STATUS_REJECT = 0xFF"

partial_function (option) hirq_flag_wait :: "cd_hw \<Rightarrow> u16 \<Rightarrow> cd_machine \<Rightarrow> cd_machine option" where
  "hirq_flag_wait hw flag m =
     (let (v, m) = cd_read hw HIRQ m in if v AND flag = 0 then hirq_flag_wait hw flag m else Some m)"

declare hirq_flag_wait.simps [code]

definition return_status_check :: "cd_block_regs \<Rightarrow> s32" where
  "return_status_check status =
     (let status_flags = (ucast (cr1 status AND 0xFF) :: u8)
      in if status_flags AND CD_STATUS_FATAL \<noteq> 0 then - ucast CD_STATUS_FATAL
         else if status_flags AND CD_STATUS_ERROR \<noteq> 0 then - ucast CD_STATUS_ERROR
         else if status_flags AND CD_STATUS_NO_DISC \<noteq> 0 then - ucast CD_STATUS_NO_DISC
         else if status_flags AND CD_STATUS_OPEN \<noteq> 0 then - ucast CD_STATUS_OPEN
         else 0)"

text \<open>What most commands do after the execution: return the error, or look at the status.\<close>

definition check_status :: "(s32 + cd_block_regs) \<times> cd_machine \<Rightarrow> s32 \<times> cd_machine" where
  "check_status r = (case r of (Inl ret, m) \<Rightarrow> (ret, m) | (Inr status, m) \<Rightarrow> (return_status_check status, m))"

definition stored :: "bool \<Rightarrow> 'a \<Rightarrow> 'a option" where
  "stored ptr v = (if ptr then Some v else None)"

definition high :: "u16 \<Rightarrow> u8" where "high v = ucast (drop_bit 8 v)"
definition low :: "u16 \<Rightarrow> u8" where "low v = ucast (v AND 0xFF)"

text \<open>\<open>((c & 0xFF) << 16) | d\<close>\<close>

definition long_of :: "u16 \<Rightarrow> u16 \<Rightarrow> u32" where
  "long_of c d = push_bit 16 (ucast (c AND 0xFF)) OR ucast d"

record cd_block_status =
  cd_status :: u8
  flag_and_repeat_count :: u8
  ctrl_addr :: u8
  track_number :: u8
  index_number :: u8
  fad :: u32

record cd_block_hardware_info =
  hw_cd_status :: u8
  hw_flag :: u8
  hw_version :: u8
  mpeg_version :: u8
  drive_version :: u8
  drive_revision :: u8

definition cd_block_cmd_status_get ::
  "cd_hw \<Rightarrow> bool \<Rightarrow> cd_machine \<Rightarrow> (s32 \<times> cd_block_status option) \<times> cd_machine" where
  "cd_block_cmd_status_get hw ptr m =
     (case cd_block_cmd_execute hw (cd_regs 0 0x0000 0x0000 0x0000 0x0000) m of
        (Inl ret, m) \<Rightarrow> ((ret, None), m)
      | (Inr status, m) \<Rightarrow>
          ((0, stored ptr
            \<lparr>cd_status = high (cr1 status), flag_and_repeat_count = low (cr1 status),
             ctrl_addr = high (cr2 status), track_number = low (cr2 status),
             index_number = high (cr3 status), fad = long_of (cr3 status) (cr4 status)\<rparr>), m))"

definition cd_block_cmd_get_hardware_info ::
  "cd_hw \<Rightarrow> bool \<Rightarrow> cd_machine \<Rightarrow> (s32 \<times> cd_block_hardware_info option) \<times> cd_machine" where
  "cd_block_cmd_get_hardware_info hw ptr m =
     (case cd_block_cmd_execute hw (cd_regs 0 0x0100 0x0000 0x0000 0x0000) m of
        (Inl ret, m) \<Rightarrow> ((ret, None), m)
      | (Inr status, m) \<Rightarrow>
          ((0, stored ptr
            \<lparr>hw_cd_status = high (cr1 status), hw_flag = high (cr2 status), hw_version = low (cr2 status),
             mpeg_version = low (cr3 status), drive_version = high (cr4 status),
             drive_revision = low (cr4 status)\<rparr>), m))"

definition cd_block_cmd_get_toc ::
  "cd_hw \<Rightarrow> bool \<Rightarrow> bool \<Rightarrow> cd_machine \<Rightarrow> ((s32 \<times> u8 option \<times> u16 option) \<times> cd_machine) option" where
  "cd_block_cmd_get_toc hw status_ptr tocsize_ptr m =
     (case cd_block_cmd_execute hw (cd_regs 0 0x0200 0x0000 0x0000 0x0000) m of
        (Inl ret, m) \<Rightarrow> Some ((ret, None, None), m)
      | (Inr status, m) \<Rightarrow>
          hirq_flag_wait hw DRDY m \<bind> (\<lambda>m.
            Some ((0, stored status_ptr (high (cr1 status)), stored tocsize_ptr (cr2 status)), m)))"

definition cd_block_cmd_get_session_info ::
  "cd_hw \<Rightarrow> u8 \<Rightarrow> bool \<Rightarrow> bool \<Rightarrow> bool \<Rightarrow> cd_machine \<Rightarrow>
     (s32 \<times> u8 option \<times> u8 option \<times> u32 option) \<times> cd_machine" where
  "cd_block_cmd_get_session_info hw session_number status_ptr sessions_ptr lba_ptr m =
     (case cd_block_cmd_execute hw (cd_regs 0 0x0300 0x0000 0x0000 0x0000) m of
        (Inl ret, m) \<Rightarrow> ((ret, None, None, None), m)
      | (Inr status, m) \<Rightarrow>
          ((0, stored status_ptr (high (cr1 status)), stored sessions_ptr (high (cr3 status)),
            stored lba_ptr (long_of (cr3 status) (cr4 status))), m))"

text \<open>The commands that return the error of the execution only.\<close>

definition error_of :: "(s32 + cd_block_regs) \<times> cd_machine \<Rightarrow> s32 \<times> cd_machine" where
  "error_of r = (case r of (Inl ret, m) \<Rightarrow> (ret, m) | (Inr status, m) \<Rightarrow> (0, m))"

definition cd_block_cmd_init_cd_system :: "cd_hw \<Rightarrow> s16 \<Rightarrow> cd_machine \<Rightarrow> s32 \<times> cd_machine" where
  "cd_block_cmd_init_cd_system hw standby m =
     error_of (cd_block_cmd_execute hw (cd_regs 0 0x0400 standby 0x0000 0x040F) m)"

definition cd_block_cmd_open_tray :: "cd_hw \<Rightarrow> s16 \<Rightarrow> cd_machine \<Rightarrow> s32 \<times> cd_machine" where
  "cd_block_cmd_open_tray hw standby m =
     check_status (cd_block_cmd_execute hw (cd_regs 0 0x0500 0x0000 0x0000 0x0000) m)"

definition cd_block_cmd_end_data_transfer :: "cd_hw \<Rightarrow> cd_machine \<Rightarrow> s32 \<times> cd_machine" where
  "cd_block_cmd_end_data_transfer hw m =
     (case cd_block_cmd_execute hw (cd_regs 0 0x0600 0x0000 0x0000 0x0000) m of
        (Inl ret, m) \<Rightarrow> (ret, m)
      | (Inr status, m) \<Rightarrow>
          let m = cd_write_and hw HIRQ (NOT DRDY) m; m = cd_write_or hw HIRQ CMOK m in (0, m))"

definition play_regs :: "s32 \<Rightarrow> u32 \<Rightarrow> s32 \<Rightarrow> cd_block_regs" where
  "play_regs play_mode start_fad num_sectors =
     cd_regs 0 (ucast (0x1080 OR drop_bit 16 start_fad)) (ucast start_fad)
       (ucast (push_bit 8 play_mode OR 0x80 OR signed_drop_bit 16 num_sectors)) (ucast num_sectors)"


definition cd_block_cmd_seek_disk :: "cd_hw \<Rightarrow> u32 \<Rightarrow> cd_machine \<Rightarrow> s32 \<times> cd_machine" where
  "cd_block_cmd_seek_disk hw start_play_pos m =
     check_status (cd_block_cmd_execute hw
       (cd_regs 0 (ucast (0x1180 OR (drop_bit 16 start_play_pos AND 0xFF))) (ucast (start_play_pos AND 0xFFFF))
         0x0000 0x0000) m)"

text \<open>The commands that store values through pointers and then look at the status.\<close>

definition cd_block_cmd_scan_disk :: "cd_hw \<Rightarrow> u8 \<Rightarrow> bool \<Rightarrow> cd_machine \<Rightarrow> (s32 \<times> u8 option) \<times> cd_machine" where
  "cd_block_cmd_scan_disk hw scan_direction status_ptr m =
     (case cd_block_cmd_execute hw (cd_regs 0 (0x1200 OR ucast scan_direction) 0x0000 0x0000 0x0000) m of
        (Inl ret, m) \<Rightarrow> ((ret, None), m)
      | (Inr status, m) \<Rightarrow> ((return_status_check status, stored status_ptr (high (cr1 status))), m))"

definition cd_block_cmd_get_subcode ::
  "cd_hw \<Rightarrow> u8 \<Rightarrow> bool \<Rightarrow> bool \<Rightarrow> bool \<Rightarrow> cd_machine \<Rightarrow>
     (s32 \<times> u8 option \<times> u16 option \<times> u16 option) \<times> cd_machine" where
  "cd_block_cmd_get_subcode hw type status_ptr size_ptr flags_ptr m =
     (case cd_block_cmd_execute hw (cd_regs 0 (0x2000 OR ucast type) 0x0000 0x0000 0x0000) m of
        (Inl ret, m) \<Rightarrow> ((ret, None, None, None), m)
      | (Inr status, m) \<Rightarrow>
          ((0, stored status_ptr (high (cr1 status)), stored size_ptr (cr2 status), stored flags_ptr (cr4 status)), m))"


definition cd_block_cmd_get_cd_device_connection ::
  "cd_hw \<Rightarrow> bool \<Rightarrow> bool \<Rightarrow> cd_machine \<Rightarrow> (s32 \<times> u8 option \<times> u8 option) \<times> cd_machine" where
  "cd_block_cmd_get_cd_device_connection hw status_ptr filter_ptr m =
     (case cd_block_cmd_execute hw (cd_regs 0 0x3100 0x0000 0x0000 0x0000) m of
        (Inl ret, m) \<Rightarrow> ((ret, None, None), m)
      | (Inr status, m) \<Rightarrow>
          ((0, stored status_ptr (high (cr1 status)), stored filter_ptr (high (cr3 status))), m))"

definition cd_block_cmd_get_last_buffer_destination ::
  "cd_hw \<Rightarrow> bool \<Rightarrow> bool \<Rightarrow> cd_machine \<Rightarrow> (s32 \<times> u8 option \<times> u8 option) \<times> cd_machine" where
  "cd_block_cmd_get_last_buffer_destination hw status_ptr buff_ptr m =
     (case cd_block_cmd_execute hw (cd_regs 0 0x3200 0x0000 0x0000 0x0000) m of
        (Inl ret, m) \<Rightarrow> ((ret, None, None), m)
      | (Inr status, m) \<Rightarrow>
          ((0, stored status_ptr (high (cr1 status)), stored buff_ptr (high (cr3 status))), m))"

definition filter_range_regs :: "u8 \<Rightarrow> u32 \<Rightarrow> u32 \<Rightarrow> cd_block_regs" where
  "filter_range_regs filter_num start_fad fad_range =
     cd_regs 0 (ucast (0x4000 OR drop_bit 16 start_fad)) (ucast (start_fad AND 0xFFFF))
       (push_bit 8 (ucast filter_num) OR ucast (drop_bit 16 fad_range AND 0xFF)) (ucast (fad_range AND 0xFFFF))"

definition cd_block_cmd_set_filter_range ::
  "cd_hw \<Rightarrow> u8 \<Rightarrow> u32 \<Rightarrow> u32 \<Rightarrow> cd_machine \<Rightarrow> (s32 \<times> cd_machine) option" where
  "cd_block_cmd_set_filter_range hw filter_num start_fad fad_range m =
     (case cd_block_cmd_execute hw (filter_range_regs filter_num start_fad fad_range) m of
        (Inl ret, m) \<Rightarrow> Some (ret, m)
      | (Inr status, m) \<Rightarrow> hirq_flag_wait hw ESEL m \<bind> (\<lambda>m. Some (return_status_check status, m)))"

definition cd_block_cmd_reset_selector :: "cd_hw \<Rightarrow> u8 \<Rightarrow> u8 \<Rightarrow> cd_machine \<Rightarrow> (s32 \<times> cd_machine) option" where
  "cd_block_cmd_reset_selector hw sel_flags sel_num m =
     (case cd_block_cmd_execute hw
         (cd_regs EFLS (0x4800 OR ucast sel_flags) 0x0000 (push_bit 8 (ucast sel_num)) 0x0000) m of
        (Inl ret, m) \<Rightarrow> Some (ret, m)
      | (Inr status, m) \<Rightarrow> hirq_flag_wait hw ESEL m \<bind> (\<lambda>m. Some (return_status_check status, m)))"

definition cd_block_cmd_get_buffer_size ::
  "cd_hw \<Rightarrow> bool \<Rightarrow> bool \<Rightarrow> bool \<Rightarrow> bool \<Rightarrow> cd_machine \<Rightarrow>
     (s32 \<times> u8 option \<times> u16 option \<times> u8 option \<times> u16 option) \<times> cd_machine" where
  "cd_block_cmd_get_buffer_size hw status_ptr space_ptr selectors_ptr blocks_ptr m =
     (case cd_block_cmd_execute hw (cd_regs 0 0x5000 0x0000 0x0000 0x0000) m of
        (Inl ret, m) \<Rightarrow> ((ret, None, None, None, None), m)
      | (Inr status, m) \<Rightarrow>
          ((return_status_check status, stored status_ptr (high (cr1 status)), stored space_ptr (cr2 status),
            stored selectors_ptr (high (cr3 status)), stored blocks_ptr (cr4 status)), m))"


definition cd_block_cmd_set_sector_length :: "cd_hw \<Rightarrow> u16 \<Rightarrow> cd_machine \<Rightarrow> s32 \<times> cd_machine" where
  "cd_block_cmd_set_sector_length hw len m =
     check_status (cd_block_cmd_execute hw (cd_regs ESEL (0x6000 OR (len AND 0xFF)) (push_bit 8 len) 0x0000 0x0000) m)"

definition cd_block_cmd_get_sector_data :: "cd_hw \<Rightarrow> u16 \<Rightarrow> u8 \<Rightarrow> u16 \<Rightarrow> cd_machine \<Rightarrow> s32 \<times> cd_machine" where
  "cd_block_cmd_get_sector_data hw sec_offset buf_num sec_num m =
     check_status (cd_block_cmd_execute hw (cd_regs 0 0x6100 sec_offset (push_bit 8 (ucast buf_num)) sec_num) m)"

definition cd_block_cmd_delete_sector_data :: "cd_hw \<Rightarrow> u16 \<Rightarrow> u8 \<Rightarrow> u16 \<Rightarrow> cd_machine \<Rightarrow> s32 \<times> cd_machine" where
  "cd_block_cmd_delete_sector_data hw sec_position buf_num sec_num m =
     check_status (cd_block_cmd_execute hw (cd_regs EHST 0x6200 sec_position (push_bit 8 (ucast buf_num)) sec_num) m)"


definition cd_block_cmd_put_sector_data :: "cd_hw \<Rightarrow> u8 \<Rightarrow> u16 \<Rightarrow> cd_machine \<Rightarrow> s32 \<times> cd_machine" where
  "cd_block_cmd_put_sector_data hw buff_num sec_num m =
     check_status (cd_block_cmd_execute hw (cd_regs EHST 0x6400 0x0000 (push_bit 8 (ucast buff_num)) sec_num) m)"

definition cd_block_cmd_copy_sector_data ::
  "cd_hw \<Rightarrow> u8 \<Rightarrow> u16 \<Rightarrow> u8 \<Rightarrow> u16 \<Rightarrow> cd_machine \<Rightarrow> s32 \<times> cd_machine" where
  "cd_block_cmd_copy_sector_data hw dst_filter sec_offset buff_num sec_num m =
     check_status (cd_block_cmd_execute hw
       (cd_regs 0 (0x6500 OR ucast dst_filter) sec_offset (push_bit 8 (ucast buff_num)) sec_num) m)"

definition cd_block_cmd_move_sector_data ::
  "cd_hw \<Rightarrow> u8 \<Rightarrow> u16 \<Rightarrow> u8 \<Rightarrow> u16 \<Rightarrow> cd_machine \<Rightarrow> s32 \<times> cd_machine" where
  "cd_block_cmd_move_sector_data hw dst_filter sec_offset buff_num sec_num m =
     check_status (cd_block_cmd_execute hw
       (cd_regs 0 (0x6600 OR ucast dst_filter) sec_offset (push_bit 8 (ucast buff_num)) sec_num) m)"

definition cd_block_cmd_get_copy_error ::
  "cd_hw \<Rightarrow> bool \<Rightarrow> bool \<Rightarrow> cd_machine \<Rightarrow> (s32 \<times> u8 option \<times> u8 option) \<times> cd_machine" where
  "cd_block_cmd_get_copy_error hw status_ptr error_ptr m =
     (case cd_block_cmd_execute hw (cd_regs 0 0x6700 0x0000 0x0000 0x0000) m of
        (Inl ret, m) \<Rightarrow> ((ret, None, None), m)
      | (Inr status, m) \<Rightarrow>
          ((0, stored status_ptr (high (cr1 status)), stored error_ptr (low (cr1 status))), m))"

definition cd_block_cmd_abort_file :: "cd_hw \<Rightarrow> cd_machine \<Rightarrow> s32 \<times> cd_machine" where
  "cd_block_cmd_abort_file hw m =
     check_status (cd_block_cmd_execute hw (cd_regs EFLS 0x7500 0x0000 0x0000 0x0000) m)"

definition cd_block_cmd_auth_disk :: "cd_hw \<Rightarrow> cd_machine \<Rightarrow> s32 \<times> cd_machine" where
  "cd_block_cmd_auth_disk hw m = error_of (cd_block_cmd_execute hw (cd_regs EFLS 0xE000 0x0000 0x0000 0x0000) m)"

definition cd_block_cmd_is_auth :: "cd_hw \<Rightarrow> bool \<Rightarrow> cd_machine \<Rightarrow> (s32 \<times> u16 option) \<times> cd_machine" where
  "cd_block_cmd_is_auth hw type_ptr m =
     (case cd_block_cmd_execute hw (cd_regs 0 0xE100 0x0000 0x0000 0x0000) m of
        (Inl ret, m) \<Rightarrow> ((ret, None), m)
      | (Inr status, m) \<Rightarrow>
          ((if cr2 status \<noteq> 0x00 \<and> cr2 status \<noteq> 0x03 then 1 else 0, stored type_ptr (cr2 status)), m))"

section \<open>Start-up, sectors and authentication\<close>

definition SECTOR_LENGTH_2048 :: u16 where "SECTOR_LENGTH_2048 = 0"
definition SECTOR_LENGTH_2352 :: u16 where "SECTOR_LENGTH_2352 = 3"

text \<open>Go on unless the step returned an error: \<open>if ((ret = ...) != 0) return ret;\<close>\<close>

definition unless_error :: "s32 \<times> cd_machine \<Rightarrow> (cd_machine \<Rightarrow> (s32 \<times> cd_machine) option) \<Rightarrow> (s32 \<times> cd_machine) option" where
  "unless_error r k = (case r of (ret, m) \<Rightarrow> if ret \<noteq> 0 then Some (ret, m) else k m)"

definition cd_block_init :: "cd_hw \<Rightarrow> s16 \<Rightarrow> cd_machine \<Rightarrow> (s32 \<times> cd_machine) option" where
  "cd_block_init hw standby m =
     hirq_flag_wait hw CMOK m \<bind> (\<lambda>m.
     unless_error (cd_block_cmd_abort_file hw m) (\<lambda>m.
     unless_error (cd_block_cmd_init_cd_system hw standby m) (\<lambda>m.
     unless_error (cd_block_cmd_end_data_transfer hw m) (\<lambda>m.
     cd_block_cmd_reset_selector hw 0xFC 0 m \<bind> (\<lambda>r.
     unless_error r (\<lambda>m.
     hirq_flag_wait hw ESEL m \<bind> (\<lambda>m. Some (0, m))))))))"

text \<open>The wait for the drive to finish seeking; an inner delay loop has no effect.\<close>

partial_function (option) auth_seek_wait :: "cd_hw \<Rightarrow> cd_machine \<Rightarrow> (s32 \<times> cd_machine) option" where
  "auth_seek_wait hw m =
     (case cd_block_cmd_status_get hw True m of
        ((ret, Some st), m) \<Rightarrow>
          if ret \<noteq> 0 then auth_seek_wait hw m
          else if cd_status st = CD_STATUS_PAUSE then Some (0, m)
          else if cd_status st = CD_STATUS_FATAL then Some (- ucast CD_STATUS_FATAL, m)
          else auth_seek_wait hw m
      | ((ret, None), m) \<Rightarrow> auth_seek_wait hw m)"

declare auth_seek_wait.simps [code]

definition cd_sector_data_cd_auth_move ::
  "cd_hw \<Rightarrow> u8 \<Rightarrow> u16 \<Rightarrow> u8 \<Rightarrow> u16 \<Rightarrow> cd_machine \<Rightarrow> (s32 \<times> cd_machine) option" where
  "cd_sector_data_cd_auth_move hw dst_filter sector_pos sel_num num_sectors m =
     (let (_, m) = cd_block_cmd_move_sector_data hw dst_filter sector_pos sel_num num_sectors m;
          m = cd_write HIRQ (NOT (DCHG OR EFLS)) m
      in unless_error (cd_block_cmd_auth_disk hw m) (\<lambda>m.
         hirq_flag_wait hw EFLS m \<bind> (\<lambda>m.
         auth_seek_wait hw m \<bind> (\<lambda>r.
         unless_error r (\<lambda>m.
           let ((auth, _), m) = cd_block_cmd_is_auth hw True m in if auth = 0 then Some (- 1, m) else Some (0, m))))))"

function dtr_fill :: "nat \<Rightarrow> cd_machine \<Rightarrow> cd_machine" where
  "dtr_fill i m = (if i < 2352 div 4 then dtr_fill (i + 4) (cd_log (Wr32 (CD_BLOCK DTR) 0x00020002) m) else m)"
  by pat_completeness auto
termination
  by (relation "measure (\<lambda>(i, m). 2352 - i)") auto

declare dtr_fill.simps [simp del]

definition cd_block_security_bypass :: "cd_hw \<Rightarrow> cd_machine \<Rightarrow> (s32 \<times> cd_machine) option" where
  "cd_block_security_bypass hw m =
     unless_error (cd_block_cmd_set_sector_length hw SECTOR_LENGTH_2352 m) (\<lambda>m.
     unless_error (cd_block_cmd_put_sector_data hw 0 150 m) (\<lambda>m.
     let m = (dtr_fill 0 ^^ 150) m in
     unless_error (cd_block_cmd_end_data_transfer hw m) (\<lambda>m.
     hirq_flag_wait hw EHST m \<bind> (\<lambda>m.
     cd_sector_data_cd_auth_move hw 0 0 0 50 m \<bind> (\<lambda>(_, m).
     let (_, m) = cd_block_cmd_is_auth hw False m in
     hirq_flag_wait hw ECPY m \<bind> (\<lambda>m.
     unless_error (cd_block_cmd_end_data_transfer hw m) (\<lambda>m.
     unless_error (cd_block_cmd_set_sector_length hw SECTOR_LENGTH_2048 m) (\<lambda>m.
     cd_block_cmd_reset_selector hw 0xFC 0 m))))))))"








definition status_flags_get :: "cd_hw \<Rightarrow> cd_machine \<Rightarrow> (s32 \<times> u8 option) \<times> cd_machine" where
  "status_flags_get hw m =
     (let ((ret, st), m) = cd_block_cmd_status_get hw True m in ((ret, map_option cd_status st), m))"

partial_function (option) cd_block_auth_wait :: "cd_hw \<Rightarrow> cd_machine \<Rightarrow> (s32 \<times> cd_machine) option" where
  "cd_block_auth_wait hw m =
     (case status_flags_get hw m of
        ((ret, status_flags), m) \<Rightarrow>
          if ret \<noteq> 0 then Some (ret, m)
          else if status_flags = Some CD_STATUS_PAUSE then Some (0, m)
          else if status_flags = Some CD_STATUS_FATAL then Some (- ucast CD_STATUS_FATAL, m)
          else if status_flags = Some CD_STATUS_REJECT then Some (- ucast CD_STATUS_REJECT, m)
          else cd_block_auth_wait hw m)"

declare cd_block_auth_wait.simps [code]

definition cd_block_auth :: "cd_hw \<Rightarrow> cd_machine \<Rightarrow> (s32 \<times> cd_machine) option" where
  "cd_block_auth hw m =
     (let m = cd_write HIRQ (NOT (DCHG OR EFLS)) m
      in unless_error (error_of (cd_block_cmd_execute hw (cd_regs EFLS 0xE000 0x0000 0x0000 0x0000) m)) (\<lambda>m.
         hirq_flag_wait hw EFLS m \<bind> (\<lambda>m. cd_block_auth_wait hw m)))"

section \<open>What an execution does\<close>

text \<open>The writes to the CD block, oldest first.\<close>

fun writes :: "cd_event list \<Rightarrow> cd_event list" where
  "writes [] = []"
| "writes (Rd a # h) = writes h"
| "writes (Wr a v # h) = writes h @ [Wr a v]"
| "writes (Wr32 a v # h) = writes h @ [Wr32 a v]"

definition packet :: "cd_block_regs \<Rightarrow> cd_event list" where
  "packet regs = [Wr (CD_BLOCK CR1) (cr1 regs), Wr (CD_BLOCK CR2) (cr2 regs), Wr (CD_BLOCK CR3) (cr3 regs),
     Wr (CD_BLOCK CR4) (cr4 regs)]"

lemma writes_polls [simp]: "writes (replicate k (Rd a) @ h) = writes h"
  by (induction k) auto

lemma busy_eq: "busy hw m = (hw (history m) (CD_BLOCK HIRQ) AND CMOK = 0, cd_log (Rd (CD_BLOCK HIRQ)) m)"
  by (simp add: busy_def cd_read_def)

lemma busy_wait_eq: "\<exists>k. busy_wait hw w m = m\<lparr>history := replicate k (Rd (CD_BLOCK HIRQ)) @ history m\<rparr>"
proof (induction "0x00240000 - unat w" arbitrary: w m rule: less_induct)
  case less
  let ?m = "cd_log (Rd (CD_BLOCK HIRQ)) m"
  consider "\<not> w < 0x00240000" | "w < 0x00240000" "fst (busy hw m)" | "w < 0x00240000" "\<not> fst (busy hw m)" by blast
  then show ?case
  proof cases
    case 1
    then have "busy_wait hw w m = m\<lparr>history := replicate 0 (Rd (CD_BLOCK HIRQ)) @ history m\<rparr>"
      by (subst busy_wait.simps) simp
    then show ?thesis by blast
  next
    case 2
    obtain k where "busy_wait hw (w + 1) ?m = ?m\<lparr>history := replicate k (Rd (CD_BLOCK HIRQ)) @ history ?m\<rparr>"
      using less [OF counter_step [OF 2(1)], of ?m] by blast
    then have "busy_wait hw w m = m\<lparr>history := replicate (Suc k) (Rd (CD_BLOCK HIRQ)) @ history m\<rparr>"
      using 2 by (subst busy_wait.simps) (simp add: busy_eq cd_log_def replicate_app_Cons_same)
    then show ?thesis by blast
  next
    case 3
    then have "busy_wait hw w m = m\<lparr>history := replicate 1 (Rd (CD_BLOCK HIRQ)) @ history m\<rparr>"
      by (subst busy_wait.simps) (simp add: busy_eq cd_log_def)
    then show ?thesis by blast
  qed
qed

lemma cd_status_accepted: "drop_bit 8 (c :: u16) AND 0x80 = 0 \<longleftrightarrow> \<not> bit c 15"
proof -
  have "(0x80 :: u16) = push_bit 7 1" by code_simp
  then have "drop_bit 8 c AND 0x80 = 0 \<longleftrightarrow> \<not> bit (drop_bit 8 c) 7"
    by (simp only: and_exp_eq_0_iff_not_bit push_bit_of_1)
  then show ?thesis by (simp add: bit_drop_bit_eq)
qed

lemma execute_masked_cases:
  obtains (busy) "hw (history m) (CD_BLOCK HIRQ) AND CMOK = 0"
      "execute_masked hw regs m = (Inl (- 1), m\<lparr>history := Rd (CD_BLOCK HIRQ) # history m\<rparr>)"
  | (sent) r h where "hw (history m) (CD_BLOCK HIRQ) AND CMOK \<noteq> 0" "execute_masked hw regs m = (r, m\<lparr>history := h\<rparr>)"
      "writes h = writes (history m) @
         [Wr (CD_BLOCK HIRQ) ((hw (Rd (CD_BLOCK HIRQ) # history m) (CD_BLOCK HIRQ) AND 0xFFFE) AND NOT (hirq_mask regs))] @
         packet regs"
      "r = Inl (- 1) \<or> (\<exists>st. r = Inr st \<and> \<not> bit (cr1 st) 15)"
      "\<forall>h. hw h (CD_BLOCK HIRQ) AND CMOK \<noteq> 0 \<and> \<not> bit (hw h (CD_BLOCK CR1)) 15 \<Longrightarrow>
       \<exists>h. r = Inr (cd_regs 0 (hw h (CD_BLOCK CR1)) (hw (Rd (CD_BLOCK CR1) # h) (CD_BLOCK CR2))
         (hw (Rd (CD_BLOCK CR2) # Rd (CD_BLOCK CR1) # h) (CD_BLOCK CR3))
         (hw (Rd (CD_BLOCK CR3) # Rd (CD_BLOCK CR2) # Rd (CD_BLOCK CR1) # h) (CD_BLOCK CR4)))"
proof (cases "hw (history m) (CD_BLOCK HIRQ) AND CMOK = 0")
  case True
  then show thesis by (intro busy) (simp_all add: execute_masked_def busy_eq cd_log_def)
next
  case False
  let ?v = "(hw (Rd (CD_BLOCK HIRQ) # history m) (CD_BLOCK HIRQ) AND 0xFFFE) AND NOT (hirq_mask regs)"
  let ?h = "rev (Wr (CD_BLOCK HIRQ) ?v # packet regs) @ Rd (CD_BLOCK HIRQ) # Rd (CD_BLOCK HIRQ) # history m"
  obtain k where k: "busy_wait hw 0 (m\<lparr>history := ?h\<rparr>) = m\<lparr>history := replicate k (Rd (CD_BLOCK HIRQ)) @ ?h\<rparr>"
    using busy_wait_eq [of hw 0 "m\<lparr>history := ?h\<rparr>"] by auto
  let ?h1 = "Rd (CD_BLOCK HIRQ) # replicate k (Rd (CD_BLOCK HIRQ)) @ ?h"
  let ?c1 = "hw ?h1 (CD_BLOCK CR1)"
  let ?h2 = "Rd (CD_BLOCK CR4) # Rd (CD_BLOCK CR3) # Rd (CD_BLOCK CR2) # Rd (CD_BLOCK CR1) # ?h1"
  have w: "writes ?h = writes (history m) @ [Wr (CD_BLOCK HIRQ) ?v] @ packet regs" by (simp add: packet_def)
  note run = execute_masked_def busy_eq cd_log_def cd_read_def cd_write_def Let_def packet_def
  note k = k [unfolded packet_def, simplified]
  show thesis
  proof (cases "hw (replicate k (Rd (CD_BLOCK HIRQ)) @ ?h) (CD_BLOCK HIRQ) AND CMOK = 0")
    case True
    then have "execute_masked hw regs m = (Inl (- 1), m\<lparr>history := ?h1\<rparr>)" using False k by (simp add: run)
    then show thesis by (rule sent [of _ ?h1, OF False]) (use w True in auto)
  next
    case idle: False
    show thesis
    proof (cases "bit ?c1 15")
      case True
      then have "execute_masked hw regs m = (Inl (- 1), m\<lparr>history := ?h2\<rparr>)"
        using False idle k cd_status_accepted [of ?c1] by (simp add: run)
      then show thesis by (rule sent [of _ ?h2, OF False]) (use w True in auto)
    next
      case ok: False
      then have "drop_bit 8 ?c1 \<noteq> 0xFF" using cd_status_accepted [of ?c1] by auto
      then have "execute_masked hw regs m = (Inr (cd_regs 0 ?c1 (hw (Rd (CD_BLOCK CR1) # ?h1) (CD_BLOCK CR2))
         (hw (Rd (CD_BLOCK CR2) # Rd (CD_BLOCK CR1) # ?h1) (CD_BLOCK CR3))
         (hw (Rd (CD_BLOCK CR3) # Rd (CD_BLOCK CR2) # Rd (CD_BLOCK CR1) # ?h1) (CD_BLOCK CR4))), m\<lparr>history := ?h2\<rparr>)"
        using False idle ok k cd_status_accepted [of ?c1] by (simp add: run)
      then show thesis by (rule sent [of _ ?h2, OF False]) (use w ok in \<open>auto simp: cd_regs_def\<close>)
    qed
  qed
qed

lemma execute_eq:
  assumes "execute_masked hw regs (cpu_intc_mask_set 15 m) = (r, (cpu_intc_mask_set 15 m)\<lparr>history := h\<rparr>)"
  shows "cd_block_cmd_execute hw regs m = (r, m\<lparr>history := h\<rparr>)"
proof -
  have "cpu_intc_mask_set (cpu_intc_mask_get m) ((cpu_intc_mask_set 15 m)\<lparr>history := h\<rparr>)
      = (cpu_intc_mask_set 15 m)\<lparr>history := h\<rparr>\<lparr>sr := sr m\<rparr>"
    by (rule cpu_intc_mask_restore) simp
  then show ?thesis using assms by (simp add: cd_block_cmd_execute_def Let_def cpu_intc_mask_set_def)
qed

lemma history_masked [simp]: "history (cpu_intc_mask_set k m) = history m"
  by (simp add: cpu_intc_mask_set_def)

section \<open>A drive that answers\<close>


text \<open>The writes to the command registers, oldest first.\<close>

fun cr_writes :: "cd_event list \<Rightarrow> cd_event list" where
  "cr_writes [] = []"
| "cr_writes (Wr a v # h) = cr_writes h @ (if a = CD_BLOCK HIRQ then [] else [Wr a v])"
| "cr_writes (e # h) = cr_writes h"











lemma cr_writes_polls [simp]: "cr_writes (replicate k (Rd a) @ h) = cr_writes h"
  by (induction k) auto



section \<open>Properties\<close>

text \<open>C15: executing a command changes nothing but the CD block, and restores the interrupt mask on every
  path. A busy drive gets no write at all. Otherwise the completion flags of the command and CMOK are
  cleared first and the four command registers are written in order; success means that the command
  was not rejected.\<close>

theorem cd_block_cmd_execute_correct:
  "\<exists>r h. cd_block_cmd_execute hw regs m = (r, m\<lparr>history := h\<rparr>) \<and>
    (if hw (history m) (CD_BLOCK HIRQ) AND CMOK = 0
     then r = Inl (- 1) \<and> writes h = writes (history m)
     else (r = Inl (- 1) \<or> (\<exists>st. r = Inr st \<and> \<not> bit (cr1 st) 15)) \<and>
       writes h = writes (history m) @
         [Wr (CD_BLOCK HIRQ) ((hw (Rd (CD_BLOCK HIRQ) # history m) (CD_BLOCK HIRQ) AND 0xFFFE) AND NOT (hirq_mask regs)),
          Wr (CD_BLOCK CR1) (cr1 regs), Wr (CD_BLOCK CR2) (cr2 regs), Wr (CD_BLOCK CR3) (cr3 regs),
          Wr (CD_BLOCK CR4) (cr4 regs)])"
proof (cases rule: execute_masked_cases [of hw "cpu_intc_mask_set 15 m" regs])
  case busy
  then show ?thesis
    using execute_eq [OF busy(2)] by (intro exI [of _ "Inl (- 1)"] exI [of _ "Rd (CD_BLOCK HIRQ) # history m"]) simp
next
  case (sent r h)
  then show ?thesis
    using execute_eq [OF sent(2)] by (intro exI [of _ r] exI [of _ h]) (simp add: packet_def)
qed





lemma bit_less:
  assumes "x < (0x800000 :: u32)" "bit x n"
  shows "n < 23"
proof (rule ccontr)
  assume "\<not> n < 23"
  have "unat x < 2 ^ 23" using assms(1) by (simp add: word_less_nat_alt)
  also have "(2 :: nat) ^ 23 \<le> 2 ^ n" using \<open>\<not> n < 23\<close> by (intro power_increasing) auto
  finally have "\<not> bit (unat x) n" by (simp add: bit_iff_odd)
  then show False using assms(2) by (simp add: bit_unsigned_iff)
qed

lemma bit_pow2:
  "bit (0x80 :: u32) n \<longleftrightarrow> n = 7" "bit (0x800000 :: u32) n \<longleftrightarrow> n = 23" "bit (0x10 :: u8) n \<longleftrightarrow> n = 4"
  "bit (0x1080 :: u32) n \<longleftrightarrow> n = 7 \<or> n = 12" "bit (0xFF :: u16) n \<longleftrightarrow> n < 8"
proof -
  have "(0x80 :: u32) = push_bit 7 1" "(0x800000 :: u32) = push_bit 23 1" "(0x10 :: u8) = push_bit 4 1"
    "(0x1080 :: u32) = push_bit 7 1 OR push_bit 12 1" "(0xFF :: u16) = mask 8"
    by code_simp+
  note c = this
  show "bit (0x80 :: u32) n \<longleftrightarrow> n = 7" unfolding c(1) bit_push_bit_iff bit_1_iff by auto
  show "bit (0x800000 :: u32) n \<longleftrightarrow> n = 23" unfolding c(2) bit_push_bit_iff bit_1_iff by auto
  show "bit (0x10 :: u8) n \<longleftrightarrow> n = 4" unfolding c(3) bit_push_bit_iff bit_1_iff by auto
  show "bit (0x1080 :: u32) n \<longleftrightarrow> n = 7 \<or> n = 12" unfolding c(4) bit_or_iff bit_push_bit_iff bit_1_iff by auto
  show "bit (0xFF :: u16) n \<longleftrightarrow> n < 8" unfolding c(5) bit_mask_iff by auto
qed

lemmas bit_fields = bit_or_iff bit_and_iff bit_push_bit_iff bit_drop_bit_eq bit_ucast_iff bit_signed_drop_bit_iff bit_pow2

text \<open>C25: a play command for a frame address below 2^23 and at most as many sectors has the opcode 0x10
  and carries the address and the number of sectors, each marked by bit 23.\<close>

theorem play_regs_correct:
  assumes "start_fad < 0x800000" "num_sectors < 0x800000" "r = play_regs play_mode start_fad num_sectors"
  shows "high (cr1 r) = 0x10 \<and> long_of (cr1 r) (cr2 r) = start_fad OR 0x800000 \<and>
    high (cr3 r) = ucast play_mode \<and> long_of (cr3 r) (cr4 r) = num_sectors OR 0x800000"
proof -
  note fad = bit_less [OF assms(1)] and num = bit_less [OF assms(2)]
  note regs = assms(3) play_regs_def cd_regs_def high_def long_of_def cd_block_regs.select_convs
  have "high (cr1 r) = 0x10"
    unfolding regs by (rule bit_word_eqI) (use fad in \<open>fastforce simp: bit_fields simp del: bit_numeral_word_iff\<close>)
  moreover have "long_of (cr1 r) (cr2 r) = start_fad OR 0x800000"
    unfolding regs by (rule bit_word_eqI) (use fad in \<open>fastforce simp: bit_fields simp del: bit_numeral_word_iff\<close>)
  moreover have "high (cr3 r) = ucast play_mode"
    unfolding regs by (rule bit_word_eqI) (use num in \<open>fastforce simp: bit_fields simp del: bit_numeral_word_iff\<close>)
  moreover have "long_of (cr3 r) (cr4 r) = num_sectors OR 0x800000"
    unfolding regs by (rule bit_word_eqI) (use num in \<open>fastforce simp: bit_fields simp del: bit_numeral_word_iff\<close>)
  ultimately show ?thesis by blast
qed

theorem play_regs_correct_witness:
  "(150 :: u32) < 0x800000 \<and> (1 :: s32) < 0x800000 \<and> high (cr1 (play_regs 0 150 1)) = 0x10 \<and>
   long_of (cr1 (play_regs 0 150 1)) (cr2 (play_regs 0 150 1)) = 150 OR 0x800000"
  using play_regs_correct [of 150 1 "play_regs 0 150 1" 0] by simp


text \<open>C29: the status check looks at the flag byte only. It never reports an open tray, and reports no
  error exactly if the low four flags are clear, even if the status byte is the one of an error.\<close>

theorem return_status_check_correct:
  "return_status_check st \<noteq> - ucast CD_STATUS_OPEN \<and>
   (return_status_check st = 0 \<longleftrightarrow> low (cr1 st) AND 0x0F = 0) \<and>
   return_status_check (cd_regs 0 (push_bit 8 (ucast CD_STATUS_ERROR)) 0 0 0) = 0"
proof -
  define f where "f = low (cr1 st)"
  have "list_all (\<lambda>n. let f = word_of_nat n :: u8 in
      (f AND 0x0A = 0 \<and> f AND 0x07 = 0 \<longrightarrow> f AND 0x06 = 0) \<and>
      ((f AND 0x0A = 0 \<and> f AND 0x09 = 0 \<and> f AND 0x07 = 0) = (f AND 0x0F = 0))) [0..<256]"
    by code_simp
  moreover have "unat f \<in> set [0..<256]" using unsigned_less [of f] by simp
  moreover have f: "word_of_nat (unat f) = f" by simp
  ultimately have "f AND 0x0A = 0 \<and> f AND 0x07 = 0 \<longrightarrow> f AND 0x06 = 0"
    "(f AND 0x0A = 0 \<and> f AND 0x09 = 0 \<and> f AND 0x07 = 0) = (f AND 0x0F = 0)"
    unfolding list_all_iff Let_def using f by metis+
  moreover have "return_status_check (cd_regs 0 (push_bit 8 (ucast CD_STATUS_ERROR)) 0 0 0) = 0" by code_simp
  ultimately show ?thesis
    unfolding return_status_check_def Let_def low_def [symmetric] f_def [symmetric]
    by (auto simp: CD_STATUS_FATAL_def CD_STATUS_ERROR_def CD_STATUS_NO_DISC_def CD_STATUS_OPEN_def)
qed








end
