(* ===== verification/Memcpy.thy ===== *)
theory Memcpy
  imports Prelude
begin

text \<open>
  \<open>memcpy\<close>, \<open>libyaul/lib/string/memcpy.c\<close>. Memory is a partial map from addresses to bytes: an access to
  an address outside its domain has no defined result, and neither has a 32-bit access to an address
  that is not a multiple of 4 (the SH-2 raises an address error). Words are big endian. The routine
  is shown to equal a plain copy of bytes.
\<close>

section \<open>Memory accesses\<close>

type_synonym bytes = "nat \<Rightarrow> u8 option"

definition store8 :: "bytes \<Rightarrow> nat \<Rightarrow> u8 \<Rightarrow> bytes option" where
  "store8 m a v = (if m a = None then None else Some (m(a := Some v)))"

definition byte :: "nat \<Rightarrow> u32 \<Rightarrow> u8" where
  "byte j w = ucast (drop_bit (8 * (3 - j)) w)"

definition load32 :: "bytes \<Rightarrow> nat \<Rightarrow> u32 option" where
  "load32 m a =
     (if a mod 4 = 0 then
        m a \<bind> (\<lambda>b0. m (a + 1) \<bind> (\<lambda>b1. m (a + 2) \<bind> (\<lambda>b2. m (a + 3) \<bind> (\<lambda>b3.
          Some (push_bit 24 (ucast b0) OR push_bit 16 (ucast b1) OR push_bit 8 (ucast b2) OR ucast b3)))))
      else None)"

definition store32 :: "bytes \<Rightarrow> nat \<Rightarrow> u32 \<Rightarrow> bytes option" where
  "store32 m a w =
     (if a mod 4 = 0 then
        store8 m a (byte 0 w) \<bind> (\<lambda>m. store8 m (a + 1) (byte 1 w) \<bind> (\<lambda>m.
          store8 m (a + 2) (byte 2 w) \<bind> (\<lambda>m. store8 m (a + 3) (byte 3 w))))
      else None)"

section \<open>The routine\<close>

text \<open>\<open>*d++ = *s++\<close>, a number of times in a row; and the copy of one word.\<close>

fun move :: "nat \<Rightarrow> bytes \<Rightarrow> nat \<Rightarrow> nat \<Rightarrow> bytes option" where
  "move 0 m d s = Some m"
| "move (Suc k) m d s = m s \<bind> (\<lambda>b. store8 m d b \<bind> (\<lambda>m. move k m (d + 1) (s + 1)))"

definition move32 :: "bytes \<Rightarrow> nat \<Rightarrow> nat \<Rightarrow> bytes option" where
  "move32 m d s = load32 m s \<bind> store32 m d"

function memcpy_head :: "bytes \<Rightarrow> nat \<Rightarrow> nat \<Rightarrow> nat \<Rightarrow> (bytes \<times> nat \<times> nat \<times> nat) option" where
  "memcpy_head m d s n =
     (if s mod 4 \<noteq> 0 \<and> n \<noteq> 0 then move 1 m d s \<bind> (\<lambda>m. memcpy_head m (d + 1) (s + 1) (n - 1))
      else Some (m, d, s, n))"
  by pat_completeness auto
termination by (relation "measure (\<lambda>(m, d, s, n). n)") auto

function memcpy_words :: "bytes \<Rightarrow> nat \<Rightarrow> nat \<Rightarrow> nat \<Rightarrow> (bytes \<times> nat \<times> nat \<times> nat) option" where
  "memcpy_words m d s n =
     (if 16 \<le> n then
        move32 m (d + 0) (s + 0) \<bind> (\<lambda>m. move32 m (d + 4) (s + 4) \<bind> (\<lambda>m. move32 m (d + 8) (s + 8) \<bind> (\<lambda>m.
          move32 m (d + 12) (s + 12) \<bind> (\<lambda>m. memcpy_words m (d + 16) (s + 16) (n - 16)))))
      else Some (m, d, s, n))"
  by pat_completeness auto
termination by (relation "measure (\<lambda>(m, d, s, n). n)") auto

definition memcpy_aligned :: "bytes \<Rightarrow> nat \<Rightarrow> nat \<Rightarrow> nat \<Rightarrow> bytes option" where
  "memcpy_aligned m d s n =
     memcpy_words m d s n \<bind> (\<lambda>(m, d, s, n).
     (if bit n 3 then move32 m (d + 0) (s + 0) \<bind> (\<lambda>m. move32 m (d + 4) (s + 4) \<bind> (\<lambda>m. Some (m, d + 8, s + 8)))
      else Some (m, d, s)) \<bind> (\<lambda>(m, d, s).
     (if bit n 2 then move32 m (d + 0) (s + 0) \<bind> (\<lambda>m. Some (m, d + 4, s + 4)) else Some (m, d, s)) \<bind> (\<lambda>(m, d, s).
     (if bit n 1 then move 2 m d s \<bind> (\<lambda>m. Some (m, d + 2, s + 2)) else Some (m, d, s)) \<bind> (\<lambda>(m, d, s).
     if bit n 0 then move 1 m d s else Some m))))"

text \<open>One step of the loops for an unaligned destination, with \<open>t\<close> bytes left over in the word \<open>w\<close> that was
  read before: a word is put together from them and the next word \<open>x\<close> of the source.\<close>

definition shift_word :: "nat \<Rightarrow> bytes \<Rightarrow> nat \<Rightarrow> nat \<Rightarrow> u32 \<Rightarrow> (u32 \<times> bytes) option" where
  "shift_word t m d s w =
     load32 m (s + t) \<bind> (\<lambda>x.
       store32 m d (push_bit (32 - 8 * t) w OR drop_bit (8 * t) x) \<bind> (\<lambda>m. Some (x, m)))"

function memcpy_shift ::
  "nat \<Rightarrow> bytes \<Rightarrow> nat \<Rightarrow> nat \<Rightarrow> nat \<Rightarrow> u32 \<Rightarrow> (bytes \<times> nat \<times> nat \<times> nat) option" where
  "memcpy_shift t m d s n w =
     (if 16 + t \<le> n then
        shift_word t m (d + 0) s w \<bind> (\<lambda>(x, m). shift_word t m (d + 4) (s + 4) x \<bind> (\<lambda>(w, m).
        shift_word t m (d + 8) (s + 8) w \<bind> (\<lambda>(x, m). shift_word t m (d + 12) (s + 12) x \<bind> (\<lambda>(w, m).
          memcpy_shift t m (d + 16) (s + 16) (n - 16) w))))
      else Some (m, d, s, n))"
  by pat_completeness auto
termination by (relation "measure (\<lambda>(t, m, d, s, n, w). n)") auto

declare memcpy_head.simps [simp del] memcpy_words.simps [simp del] memcpy_shift.simps [simp del]

definition memcpy_unaligned :: "bytes \<Rightarrow> nat \<Rightarrow> nat \<Rightarrow> nat \<Rightarrow> (bytes \<times> nat \<times> nat \<times> nat) option" where
  "memcpy_unaligned m d s n =
     (if 32 \<le> n then
        let t = d mod 4
        in load32 m s \<bind> (\<lambda>w. move (4 - t) m d s \<bind> (\<lambda>m.
          memcpy_shift t m (d + (4 - t)) (s + (4 - t)) (n - (4 - t)) w))
      else Some (m, d, s, n))"

definition memcpy_tail :: "bytes \<Rightarrow> nat \<Rightarrow> nat \<Rightarrow> nat \<Rightarrow> bytes option" where
  "memcpy_tail m d s n =
     (if bit n 4 then move 16 m d s \<bind> (\<lambda>m. Some (m, d + 16, s + 16)) else Some (m, d, s)) \<bind> (\<lambda>(m, d, s).
     (if bit n 3 then move 8 m d s \<bind> (\<lambda>m. Some (m, d + 8, s + 8)) else Some (m, d, s)) \<bind> (\<lambda>(m, d, s).
     (if bit n 2 then move 4 m d s \<bind> (\<lambda>m. Some (m, d + 4, s + 4)) else Some (m, d, s)) \<bind> (\<lambda>(m, d, s).
     (if bit n 1 then move 2 m d s \<bind> (\<lambda>m. Some (m, d + 2, s + 2)) else Some (m, d, s)) \<bind> (\<lambda>(m, d, s).
     if bit n 0 then move 1 m d s else Some m))))"

definition memcpy :: "bytes \<Rightarrow> nat \<Rightarrow> nat \<Rightarrow> nat \<Rightarrow> (nat \<times> bytes) option" where
  "memcpy m dest src n =
     memcpy_head m dest src n \<bind> (\<lambda>(m, d, s, n).
     (if d mod 4 = 0 then memcpy_aligned m d s n
      else memcpy_unaligned m d s n \<bind> (\<lambda>(m, d, s, n). memcpy_tail m d s n)) \<bind> (\<lambda>m. Some (dest, m)))"

section \<open>Copied memory\<close>

text \<open>The memory after the first \<open>k\<close> bytes have been copied.\<close>

definition copied :: "bytes \<Rightarrow> nat \<Rightarrow> nat \<Rightarrow> nat \<Rightarrow> bytes" where
  "copied m d s k = (\<lambda>a. if d \<le> a \<and> a < d + k then m (s + (a - d)) else m a)"

text \<open>The ranges of a call: readable and writable, and no byte is overwritten before a copy in
  ascending order reads it.\<close>

definition ranges :: "bytes \<Rightarrow> nat \<Rightarrow> nat \<Rightarrow> nat \<Rightarrow> bool" where
  "ranges m d s n \<longleftrightarrow> (\<forall>i < n. m (s + i) \<noteq> None \<and> m (d + i) \<noteq> None) \<and> (d \<le> s \<or> s + n \<le> d)"

lemma copied_0: "copied m d s 0 = m"
  by (auto simp: copied_def fun_eq_iff)

lemma copied_source: "ranges m d s n \<Longrightarrow> k \<le> i \<Longrightarrow> i < n \<Longrightarrow> copied m d s k (s + i) = m (s + i)"
  by (auto simp: ranges_def copied_def)

lemma copied_dest: "ranges m d s n \<Longrightarrow> k \<le> n \<Longrightarrow> i < n \<Longrightarrow> copied m d s k (d + i) \<noteq> None"
  by (auto simp: ranges_def copied_def)

lemma copied_Suc: "(copied m d s k)(d + k := m (s + k)) = copied m d s (Suc k)"
  by (auto simp: copied_def fun_eq_iff)

lemma store8_copied:
  assumes "ranges m d s n" "k < n" "m (s + k) = Some b"
  shows "store8 (copied m d s k) (d + k) b = Some (copied m d s (Suc k))"
  using copied_dest [OF assms(1), of k k] assms(2,3) copied_Suc [of m d s k] by (auto simp: store8_def)

lemma move_copied:
  assumes "ranges m d s n"
  shows "k + j \<le> n \<Longrightarrow> move j (copied m d s k) (d + k) (s + k) = Some (copied m d s (k + j))"
proof (induction j arbitrary: k)
  case (Suc j)
  have "k < n" using Suc.prems by simp
  then obtain b where b: "m (s + k) = Some b" using assms unfolding ranges_def by blast
  have "copied m d s k (s + k) = Some b" using copied_source [OF assms] Suc.prems b by simp
  then show ?case
    using store8_copied [OF assms _ b] Suc.IH [of "Suc k"] Suc.prems by simp
qed simp

lemma store32_copied:
  assumes "ranges m d s n" "k + 4 \<le> n" "(d + k) mod 4 = 0" "\<forall>i < 4. m (s + (k + i)) = Some (byte i w)"
  shows "store32 (copied m d s k) (d + k) w = Some (copied m d s (k + 4))"
proof -
  have st: "store8 (copied m d s (k + i)) (d + k + i) (byte i w) = Some (copied m d s (k + (i + 1)))" if "i < 4" for i
    using store8_copied [OF assms(1), of "k + i" "byte i w"] that assms(2,4) by (simp add: ac_simps)
  have "store8 (copied m d s k) (d + k) (byte 0 w) = Some (copied m d s (k + 1))"
    using st [of 0] by simp
  moreover have "store8 (copied m d s (k + 1)) (d + k + 1) (byte 1 w) = Some (copied m d s (k + 2))"
    using st [of 1] by simp
  moreover have "store8 (copied m d s (k + 2)) (d + k + 2) (byte 2 w) = Some (copied m d s (k + 3))"
    using st [of 2] by simp
  moreover have "store8 (copied m d s (k + 3)) (d + k + 3) (byte 3 w) = Some (copied m d s (k + 4))"
    using st [of 3] by simp
  ultimately show ?thesis using assms(3) by (simp only: store32_def simp_thms if_True bind.bind_lunit)
qed

section \<open>Words\<close>

lemma u8_high: "8 \<le> k \<Longrightarrow> \<not> bit (b :: u8) k"
  using bit_imp_le_length [of b k] by auto

lemma u32_high: "32 \<le> k \<Longrightarrow> \<not> bit (b :: u32) k"
  using bit_imp_le_length [of b k] by auto

lemma byte_load32:
  assumes "a mod 4 = 0" "\<forall>i < 4. m (a + i) \<noteq> None"
  obtains w where "load32 m a = Some w" "\<forall>i < 4. m (a + i) = Some (byte i w)"
proof -
  obtain b0 b1 b2 b3 where b: "m a = Some b0" "m (a + 1) = Some b1" "m (a + 2) = Some b2" "m (a + 3) = Some b3"
    using assms(2)[rule_format, of 0] assms(2)[rule_format, of 1] assms(2)[rule_format, of 2] assms(2)[rule_format, of 3]
    by auto
  let ?w = "push_bit 24 (ucast b0) OR push_bit 16 (ucast b1) OR push_bit 8 (ucast b2) OR ucast b3 :: u32"
  have "byte 0 ?w = b0" "byte 1 ?w = b1" "byte 2 ?w = b2" "byte 3 ?w = b3"
    by (rule bit_word_eqI; simp add: byte_def bit_ucast_iff bit_drop_bit_eq bit_or_iff bit_push_bit_iff u8_high)+
  then have "\<forall>i < 4. m (a + i) = Some (byte i ?w)"
    using b by (auto simp: numeral_eq_Suc less_Suc_eq)
  then show thesis using that [of ?w] b assms(1) by (simp add: load32_def)
qed

lemma byte_shift:
  assumes "0 < t" "t < 4" "j < 4"
  shows "byte j (push_bit (32 - 8 * t) w OR drop_bit (8 * t) x) = (if j < t then byte (4 - t + j) w else byte (j - t) x)"
proof (rule bit_word_eqI)
  fix n assume n: "n < LENGTH(8)"
  consider "j < t" | "t \<le> j" by linarith
  then show "bit (byte j (push_bit (32 - 8 * t) w OR drop_bit (8 * t) x)) n =
      bit (if j < t then byte (4 - t + j) w else byte (j - t) x) n"
  proof cases
    case 1
    have "8 * (3 - j) + n - (32 - 8 * t) = 8 * (3 - (4 - t + j)) + n" "32 - 8 * t \<le> 8 * (3 - j) + n"
      "32 \<le> 8 * t + (8 * (3 - j) + n)" "8 * (3 - j) + n < 32"
      using 1 assms n by auto
    then show ?thesis
      using 1 n by (simp add: byte_def bit_ucast_iff bit_drop_bit_eq bit_or_iff bit_push_bit_iff u32_high)
  next
    case 2
    have e: "8 * (3 - j) + 8 * t + n = 8 * (3 + t - j) + n" and "\<not> 32 - 8 * t \<le> 8 * (3 - j) + n"
      using 2 assms n by auto
    then show ?thesis
      using 2 n arg_cong [OF e, of "bit x"] by (simp add: byte_def bit_ucast_iff bit_drop_bit_eq bit_or_iff bit_push_bit_iff)
  qed
qed

lemma ranges_byte: "ranges m d s n \<Longrightarrow> i < n \<Longrightarrow> m (s + i) \<noteq> None"
  by (simp add: ranges_def)

lemma load32_copied:
  assumes "ranges m d s n" "k \<le> j" "j + 4 \<le> n" "(s + j) mod 4 = 0"
  obtains w where "load32 (copied m d s k) (s + j) = Some w" "\<forall>i < 4. m (s + (j + i)) = Some (byte i w)"
proof -
  have eq: "copied m d s k (s + j + i) = m (s + (j + i))" if "i < 4" for i
    using copied_source [OF assms(1), of k "j + i"] that assms(2,3) by (simp add: ac_simps)
  have "\<forall>i < 4. copied m d s k (s + j + i) \<noteq> None"
    using eq ranges_byte [OF assms(1)] assms(3) by auto
  from byte_load32 [OF assms(4) this] show thesis using that eq by auto
qed

lemma move32_copied:
  assumes "ranges m d s n" "k + 4 \<le> n" "(d + k) mod 4 = 0" "(s + k) mod 4 = 0"
  shows "move32 (copied m d s k) (d + k) (s + k) = Some (copied m d s (k + 4))"
proof -
  obtain w where "load32 (copied m d s k) (s + k) = Some w" "\<forall>i < 4. m (s + (k + i)) = Some (byte i w)"
    using load32_copied [OF assms(1) _ assms(2,4), of k] assms(2) by auto
  then show ?thesis using store32_copied [OF assms(1-3)] by (simp add: move32_def)
qed

text \<open>The last \<open>t\<close> bytes of the word read before are the next bytes of the source.\<close>

definition carry :: "nat \<Rightarrow> bytes \<Rightarrow> nat \<Rightarrow> u32 \<Rightarrow> bool" where
  "carry t m a w \<longleftrightarrow> (\<forall>i < t. m (a + i) = Some (byte (4 - t + i) w))"

lemma shift_word_copied:
  assumes r: "ranges m d s n" and k: "k + t + 4 \<le> n" and t: "0 < t" "t < 4"
    and al: "(d + k) mod 4 = 0" "(s + k + t) mod 4 = 0" and c: "carry t m (s + k) w"
  obtains x where "shift_word t (copied m d s k) (d + k) (s + k) w = Some (x, copied m d s (k + 4))"
    "carry t m (s + (k + 4)) x"
proof -
  obtain x where x: "load32 (copied m d s k) (s + (k + t)) = Some x" "\<forall>i < 4. m (s + (k + t + i)) = Some (byte i x)"
    using load32_copied [OF r, of k "k + t"] k al(2) by (auto simp: ac_simps)
  let ?z = "push_bit (32 - 8 * t) w OR drop_bit (8 * t) x"
  have "m (s + (k + i)) = Some (byte i ?z)" if i: "i < 4" for i
  proof (cases "i < t")
    case True
    then show ?thesis using c byte_shift [OF t i, of w x] by (simp add: carry_def ac_simps)
  next
    case False
    then have "s + (k + t + (i - t)) = s + (k + i)" by simp
    then show ?thesis using x(2)[rule_format, of "i - t"] byte_shift [OF t i, of w x] False i by simp
  qed
  then have "store32 (copied m d s k) (d + k) ?z = Some (copied m d s (k + 4))"
    using k al(1) by (intro store32_copied [OF r]) auto
  then have "shift_word t (copied m d s k) (d + k) (s + k) w = Some (x, copied m d s (k + 4))"
    using x(1) by (simp add: shift_word_def ac_simps)
  moreover have "carry t m (s + (k + 4)) x"
    unfolding carry_def
  proof (intro allI impI)
    fix i assume "i < t"
    then show "m (s + (k + 4) + i) = Some (byte (4 - t + i) x)"
      using x(2)[rule_format, of "4 - t + i"] t by (simp add: ac_simps)
  qed
  ultimately show thesis by (rule that)
qed

section \<open>The parts of the routine\<close>

lemma memcpy_head_copied:
  assumes "ranges m d s n"
  shows "k \<le> n \<Longrightarrow> \<exists>j. k \<le> j \<and> j \<le> n \<and> (j = n \<or> (s + j) mod 4 = 0) \<and>
    memcpy_head (copied m d s k) (d + k) (s + k) (n - k) = Some (copied m d s j, d + j, s + j, n - j)"
proof (induction "n - k" arbitrary: k rule: less_induct)
  case less
  show ?case
  proof (cases "(s + k) mod 4 \<noteq> 0 \<and> n - k \<noteq> 0")
    case True
    then have "n - (k + 1) < n - k" "k + 1 \<le> n" by auto
    then obtain j where "k + 1 \<le> j" "j \<le> n" "j = n \<or> (s + j) mod 4 = 0"
      "memcpy_head (copied m d s (k + 1)) (d + (k + 1)) (s + (k + 1)) (n - (k + 1)) = Some (copied m d s j, d + j, s + j, n - j)"
      using less(1) [of "k + 1"] by auto
    moreover have "memcpy_head (copied m d s k) (d + k) (s + k) (n - k) =
        memcpy_head (copied m d s (k + 1)) (d + (k + 1)) (s + (k + 1)) (n - (k + 1))"
      using True move_copied [OF assms, of k 1] by (subst memcpy_head.simps) (simp del: move.simps)
    ultimately show ?thesis by (intro exI [of _ j]) auto
  next
    case False
    then show ?thesis using less(2) by (intro exI [of _ k]) (subst memcpy_head.simps, auto)
  qed
qed

lemma mod4_add: "(a + k) mod 4 = 0 \<Longrightarrow> i mod 4 = 0 \<Longrightarrow> (a + (k + i)) mod 4 = (0 :: nat)"
  by presburger

lemma memcpy_words_copied:
  assumes r: "ranges m d s n"
  shows "k \<le> n \<Longrightarrow> (d + k) mod 4 = 0 \<Longrightarrow> (s + k) mod 4 = 0 \<Longrightarrow>
    \<exists>j. j \<le> n \<and> n - j < 16 \<and> (d + j) mod 4 = 0 \<and> (s + j) mod 4 = 0 \<and>
    memcpy_words (copied m d s k) (d + k) (s + k) (n - k) = Some (copied m d s j, d + j, s + j, n - j)"
proof (induction "n - k" arbitrary: k rule: less_induct)
  case less
  show ?case
  proof (cases "16 \<le> n - k")
    case True
    have mv: "move32 (copied m d s (k + i)) (d + (k + i)) (s + (k + i)) = Some (copied m d s (k + i + 4))"
      if "i \<in> {0, 4, 8, 12}" for i
      by (rule move32_copied [OF r]) (use that True less(3,4) in \<open>auto intro: mod4_add\<close>)
    have "memcpy_words (copied m d s k) (d + k) (s + k) (n - k) =
        memcpy_words (copied m d s (k + 16)) (d + (k + 16)) (s + (k + 16)) (n - (k + 16))"
      using True mv [of 0] mv [of 4] mv [of 8] mv [of 12] by (subst memcpy_words.simps) (simp add: ac_simps)
    moreover have "(d + (k + 16)) mod 4 = 0" "(s + (k + 16)) mod 4 = 0" using less(3,4) by (auto intro: mod4_add)
    ultimately show ?thesis using less(1) [of "k + 16"] True by auto
  next
    case False
    then show ?thesis using less(2-4) by (intro exI [of _ k]) (subst memcpy_words.simps, auto)
  qed
qed

lemma memcpy_shift_copied:
  assumes r: "ranges m d s n" and t: "0 < t" "t < 4"
  shows "k \<le> n \<Longrightarrow> (d + k) mod 4 = 0 \<Longrightarrow> (s + k + t) mod 4 = 0 \<Longrightarrow> carry t m (s + k) w \<Longrightarrow>
    \<exists>j. j \<le> n \<and> n - j < 16 + t \<and>
    memcpy_shift t (copied m d s k) (d + k) (s + k) (n - k) w = Some (copied m d s j, d + j, s + j, n - j)"
proof (induction "n - k" arbitrary: k w rule: less_induct)
  case less
  show ?case
  proof (cases "16 + t \<le> n - k")
    case True
    have sh: "\<exists>x. shift_word t (copied m d s (k + i)) (d + (k + i)) (s + (k + i)) v = Some (x, copied m d s (k + i + 4)) \<and>
        carry t m (s + (k + (i + 4))) x"
      if i: "i \<in> {0, 4, 8, 12}" and c: "carry t m (s + (k + i)) v" for i v
    proof -
      have al: "(d + (k + i)) mod 4 = 0" "(s + (k + i) + t) mod 4 = 0" and le: "k + i + t + 4 \<le> n"
        using mod4_add [OF less(3), of i] mod4_add [of "s + t" k i] less(4) True i by (auto simp: ac_simps)
      show ?thesis by (rule shift_word_copied [OF r le t al c]) (auto simp: add.assoc)
    qed
    obtain x0 where x0: "shift_word t (copied m d s k) (d + k) (s + k) w = Some (x0, copied m d s (k + 4))"
        "carry t m (s + (k + 4)) x0"
      using sh [of 0] less(5) by auto
    obtain x1 where x1: "shift_word t (copied m d s (k + 4)) (d + k + 4) (s + k + 4) x0 = Some (x1, copied m d s (k + 8))"
        "carry t m (s + (k + 8)) x1"
      using sh [of 4] x0(2) by (auto simp: add.assoc)
    obtain x2 where x2: "shift_word t (copied m d s (k + 8)) (d + k + 8) (s + k + 8) x1 = Some (x2, copied m d s (k + 12))"
        "carry t m (s + (k + 12)) x2"
      using sh [of 8] x1(2) by (auto simp: add.assoc)
    obtain x3 where x3: "shift_word t (copied m d s (k + 12)) (d + k + 12) (s + k + 12) x2 = Some (x3, copied m d s (k + 16))"
        "carry t m (s + (k + 16)) x3"
      using sh [of 12] x2(2) by (auto simp: add.assoc)
    have "memcpy_shift t (copied m d s k) (d + k) (s + k) (n - k) w =
        memcpy_shift t (copied m d s (k + 16)) (d + (k + 16)) (s + (k + 16)) (n - (k + 16)) x3"
      using True x0(1) x1(1) x2(1) x3(1) by (subst memcpy_shift.simps) (simp add: add.assoc)
    moreover have "(d + (k + 16)) mod 4 = 0" "(s + (k + 16) + t) mod 4 = 0"
      using mod4_add [OF less(3), of 16] mod4_add [of "s + t" k 16] less(4) by (auto simp: ac_simps)
    ultimately show ?thesis using less(1) [of "k + 16" x3] True x3(2) by auto
  next
    case False
    then show ?thesis using less(2) by (intro exI [of _ k]) (subst memcpy_shift.simps, auto)
  qed
qed

text \<open>The remainders below 16 and 32 are the sums of the bits that the tails test.\<close>

definition part :: "nat \<Rightarrow> nat \<Rightarrow> nat" where
  "part q b = (if bit q b then 2 ^ b else 0)"

lemma parts:
  assumes "q < 32"
  shows "q = part q 4 + part q 3 + part q 2 + part q 1 + part q 0"
proof -
  have "list_all (\<lambda>q. q = part q 4 + part q 3 + part q 2 + part q 1 + part q 0) [0..<32]"
    by code_simp
  then show ?thesis using assms unfolding list_all_iff by auto
qed

lemma part_4: "q < 16 \<Longrightarrow> part q 4 = 0"
  by (simp add: part_def bit_iff_odd)

lemma tail_step:
  assumes "ranges m d s n" "k + part q b \<le> n" "c = 2 ^ b"
  shows "(if bit q b then move c (copied m d s k) (d + k) (s + k) \<bind> (\<lambda>m. Some (m, d + k + c, s + k + c))
      else Some (copied m d s k, d + k, s + k)) =
    Some (copied m d s (k + part q b), d + (k + part q b), s + (k + part q b))"
  using move_copied [OF assms(1), of k c] assms(2,3) by (auto simp: part_def)

lemma last_step:
  assumes "ranges m d s n" "k + part q 0 = n"
  shows "(if bit q 0 then move 1 (copied m d s k) (d + k) (s + k) else Some (copied m d s k)) = Some (copied m d s n)"
  using move_copied [OF assms(1), of k 1] assms(2) by (auto simp: part_def simp del: One_nat_def)

lemma memcpy_tail_copied:
  assumes r: "ranges m d s n" and k: "k \<le> n" "n - k < 32"
  shows "memcpy_tail (copied m d s k) (d + k) (s + k) (n - k) = Some (copied m d s n)"
proof -
  define q where "q = n - k"
  have n: "k + part q 4 + part q 3 + part q 2 + part q 1 + part q 0 = n"
    using parts [of q] k unfolding q_def by linarith
  have step: "k' + part q b \<le> n \<Longrightarrow> c = 2 ^ b \<Longrightarrow>
    (if bit q b then move c (copied m d s k') (d + k') (s + k') \<bind> (\<lambda>m. Some (m, d + k' + c, s + k' + c))
      else Some (copied m d s k', d + k', s + k')) =
    Some (copied m d s (k' + part q b), d + (k' + part q b), s + (k' + part q b))" for k' b c
    by (rule tail_step [OF r])
  show ?thesis
    unfolding memcpy_tail_def q_def [symmetric]
    apply ((subst step, use n in simp, simp, simp only: bind.bind_lunit case_prod_conv)+)
    apply (rule last_step [OF r n])
    done
qed

lemma word_step:
  assumes "ranges m d s n" "k + part q 2 \<le> n" "(d + k) mod 4 = 0" "(s + k) mod 4 = 0"
  shows "(if bit q 2 then move32 (copied m d s k) (d + k + 0) (s + k + 0) \<bind> (\<lambda>m. Some (m, d + k + 4, s + k + 4))
      else Some (copied m d s k, d + k, s + k)) =
    Some (copied m d s (k + part q 2), d + (k + part q 2), s + (k + part q 2))"
proof (cases "bit q 2")
  case True
  then have p: "part q 2 = 4" by (simp add: part_def)
  then show ?thesis using True move32_copied [OF assms(1) _ assms(3,4)] assms(2) by simp
qed (simp add: part_def)

lemma words_step:
  assumes "ranges m d s n" "k + part q 3 \<le> n" "(d + k) mod 4 = 0" "(s + k) mod 4 = 0"
  shows "(if bit q 3 then move32 (copied m d s k) (d + k + 0) (s + k + 0) \<bind>
        (\<lambda>m. move32 m (d + k + 4) (s + k + 4) \<bind> (\<lambda>m. Some (m, d + k + 8, s + k + 8)))
      else Some (copied m d s k, d + k, s + k)) =
    Some (copied m d s (k + part q 3), d + (k + part q 3), s + (k + part q 3))"
proof (cases "bit q 3")
  case True
  then have p: "part q 3 = 8" by (simp add: part_def)
  have "move32 (copied m d s (k + 4)) (d + (k + 4)) (s + (k + 4)) = Some (copied m d s (k + 4 + 4))"
    by (rule move32_copied [OF assms(1)]) (use assms p mod4_add in auto)
  then show ?thesis using True p move32_copied [OF assms(1) _ assms(3,4)] assms(2) by (simp add: add.assoc)
qed (simp add: part_def)

lemma memcpy_aligned_0: "memcpy_aligned m d s 0 = Some m"
  by (simp add: memcpy_aligned_def memcpy_words.simps)

lemma memcpy_aligned_copied:
  assumes r: "ranges m d s n" and k: "k \<le> n" "(d + k) mod 4 = 0" "(s + k) mod 4 = 0"
  shows "memcpy_aligned (copied m d s k) (d + k) (s + k) (n - k) = Some (copied m d s n)"
proof -
  obtain j where j: "j \<le> n" "n - j < 16" "(d + j) mod 4 = 0" "(s + j) mod 4 = 0"
    "memcpy_words (copied m d s k) (d + k) (s + k) (n - k) = Some (copied m d s j, d + j, s + j, n - j)"
    using memcpy_words_copied [OF r k] by (elim exE conjE) (rule that)
  define q where "q = n - j"
  have n: "j + part q 3 + part q 2 + part q 1 + part q 0 = n"
    using parts [of q] part_4 [of q] j(1,2) unfolding q_def by linarith
  have "part q 3 mod 4 = 0" by (simp add: part_def)
  then have al: "(d + (j + part q 3)) mod 4 = 0" "(s + (j + part q 3)) mod 4 = 0"
    by (rule mod4_add [OF j(3)], rule mod4_add [OF j(4)])
  have le: "j + part q 3 \<le> n" "j + part q 3 + part q 2 \<le> n" "j + part q 3 + part q 2 + part q 1 \<le> n"
    using n by simp_all
  have two: "(2 :: nat) = 2 ^ 1" by simp
  show ?thesis
    unfolding memcpy_aligned_def j(5) bind.bind_lunit case_prod_conv q_def [symmetric]
      words_step [OF r le(1) j(3,4)] word_step [OF r le(2) al] tail_step [OF r le(3) two]
    by (rule last_step [OF r n])
qed

lemma round_up4: "(a :: nat) mod 4 = t \<Longrightarrow> 0 < t \<Longrightarrow> (a + (4 - t)) mod 4 = 0"
  by presburger

lemma memcpy_unaligned_copied:
  assumes r: "ranges m d s n" and k: "k \<le> n" "(d + k) mod 4 \<noteq> 0" "32 \<le> n - k \<Longrightarrow> (s + k) mod 4 = 0"
  shows "\<exists>j. j \<le> n \<and> n - j < 32 \<and>
    memcpy_unaligned (copied m d s k) (d + k) (s + k) (n - k) = Some (copied m d s j, d + j, s + j, n - j)"
proof (cases "32 \<le> n - k")
  case True
  define t where "t = (d + k) mod 4"
  have t: "0 < t" "t < 4" using k(2) by (auto simp: t_def)
  have al: "(d + (k + (4 - t))) mod 4 = 0"
    using round_up4 [OF t_def [symmetric] t(1)] by (simp only: add.assoc)
  have al': "(s + (k + (4 - t)) + t) mod 4 = 0"
    using mod4_add [OF k(3) [OF True], of 4] t by (simp add: add.assoc)
  have le: "k + (4 - t) \<le> n" using True t by linarith
  obtain w where w: "load32 (copied m d s k) (s + k) = Some w" "\<forall>i < 4. m (s + (k + i)) = Some (byte i w)"
    by (rule load32_copied [OF r order_refl, of k]) (use True k(3) in auto)
  have c: "carry t m (s + (k + (4 - t))) w"
    unfolding carry_def
  proof (intro allI impI)
    fix i assume "i < t"
    then show "m (s + (k + (4 - t)) + i) = Some (byte (4 - t + i) w)"
      using w(2)[rule_format, of "4 - t + i"] t by (simp add: add.assoc)
  qed
  obtain j where "j \<le> n" "n - j < 16 + t"
    "memcpy_shift t (copied m d s (k + (4 - t))) (d + (k + (4 - t))) (s + (k + (4 - t))) (n - (k + (4 - t))) w =
      Some (copied m d s j, d + j, s + j, n - j)"
    using memcpy_shift_copied [OF r t le al al' c] by (elim exE conjE) (rule that)
  moreover have "move (4 - t) (copied m d s k) (d + k) (s + k) = Some (copied m d s (k + (4 - t)))"
    by (rule move_copied [OF r le])
  ultimately have "memcpy_unaligned (copied m d s k) (d + k) (s + k) (n - k) = Some (copied m d s j, d + j, s + j, n - j)"
    using w(1) True by (simp add: memcpy_unaligned_def Let_def t_def [symmetric] add.assoc)
  then show ?thesis using \<open>j \<le> n\<close> \<open>n - j < 16 + t\<close> t(2) by (intro exI [of _ j]) simp
next
  case False
  then show ?thesis using k(1) by (intro exI [of _ k]) (simp add: memcpy_unaligned_def)
qed

section \<open>Correctness\<close>

lemma memcpy_copied:
  assumes r: "ranges m dest src n"
  shows "memcpy m dest src n = Some (dest, copied m dest src n)"
proof -
  obtain k where k: "k \<le> n" "k = n \<or> (src + k) mod 4 = 0"
    "memcpy_head m dest src n = Some (copied m dest src k, dest + k, src + k, n - k)"
    using memcpy_head_copied [OF r, of 0] by (auto simp: copied_0)
  show ?thesis
  proof (cases "(dest + k) mod 4 = 0")
    case True
    then have "memcpy_aligned (copied m dest src k) (dest + k) (src + k) (n - k) = Some (copied m dest src n)"
      using memcpy_aligned_copied [OF r k(1)] k(2) by (auto simp: memcpy_aligned_0)
    then show ?thesis using True k(3) by (simp add: memcpy_def)
  next
    case False
    then obtain j where "j \<le> n" "n - j < 32"
      "memcpy_unaligned (copied m dest src k) (dest + k) (src + k) (n - k) =
        Some (copied m dest src j, dest + j, src + j, n - j)"
      using memcpy_unaligned_copied [OF r k(1)] k(2) by auto
    then show ?thesis using False k(3) memcpy_tail_copied [OF r] by (simp add: memcpy_def)
  qed
qed

text \<open>C11: \<open>memcpy\<close> copies \<open>n\<close> bytes between two disjoint ranges whatever their alignment and the length: it returns its
  first argument, the destination holds the bytes of the source and nothing else changes. No access
  leaves the two ranges and every 32-bit access is aligned, since the call has a defined result.\<close>

theorem memcpy_correct:
  assumes "\<forall>i < n. m (src + i) \<noteq> None \<and> m (dest + i) \<noteq> None" "dest + n \<le> src \<or> src + n \<le> dest"
  shows "memcpy m dest src n =
    Some (dest, \<lambda>a. if dest \<le> a \<and> a < dest + n then m (src + (a - dest)) else m a)"
proof -
  have "ranges m dest src n" using assms by (auto simp: ranges_def)
  from memcpy_copied [OF this] show ?thesis by (simp add: copied_def)
qed

theorem memcpy_correct_witness:
  "memcpy (\<lambda>a. if a < 100 then Some (of_nat a) else None) 45 2 40 =
    Some (45, \<lambda>a. if 45 \<le> a \<and> a < 45 + 40 then if 2 + (a - 45) < 100 then Some (of_nat (2 + (a - 45))) else None
      else if a < 100 then Some (of_nat a) else None)"
  using memcpy_correct [of 40 "\<lambda>a. if a < 100 then Some (of_nat a) else None" 2 45] by simp

end
