(* ===== verification/Spec2Isabelle.thy ===== *)
theory Spec2Isabelle
  imports Memb Dma_Queue Tlsf_Correct Bcl_Lz Cd_Block Memcpy
begin

text \<open>
  Verification of libyaul, the C library for the Sega Saturn (SH-2, ILP32, big endian).

  \<^bold>\<open>Parts and theories.\<close>
  \<^item> \<open>Prelude\<close>: machine integers, the assertion trap, bounds-checked array accesses, and the shared
    lemmas on words and lists. \<open>None\<close> is "no defined result" (a failed assertion, an access outside an
    array, a loop that does not end); assertions are active.
  \<^item> \<open>Memb\<close> models \<open>libyaul/kernel/mm/memb.c\<close> and \<open>memb.h\<close>, the pool of fixed-size blocks: record
    \<open>memb\<close>, functions \<open>memb_init\<close>, \<open>memb_alloc\<close>, \<open>memb_free\<close>, \<open>memb_size\<close>. The locale \<open>block_pool\<close> is the
    contract of such a pool; it is interpreted on this implementation.
  \<^item> \<open>Callback_List\<close> models \<open>libyaul/kernel/sys/callback-list.c\<close>: arrays of callback slots. User
    callbacks are a function parameter.
  \<^item> \<open>Scu_Dma\<close> models \<open>libyaul/scu/scu_dma.c\<close> and the interrupt-mask primitives it uses. The registers a
    driver writes are recorded in order; the status register and the completion interrupts come
    from a hardware parameter, with named hypotheses (\<open>live_hardware\<close>, \<open>quiet_callback\<close>).
  \<^item> \<open>Dma_Queue\<close> models \<open>libyaul/kernel/sys/dma-queue.c\<close>, three ring buffers of transfer requests that
    are carried out through the driver of \<open>Scu_Dma\<close>.
  \<^item> \<open>Tlsf_Mapping\<close>, \<open>Tlsf\<close> model \<open>libyaul/kernel/mm/tlsf.c\<close>, the general allocator: size classes and
    alignment first, then every function of the file over a word memory that holds the block
    headers where the code puts them.
  \<^item> \<open>Tlsf_Blocks\<close>, \<open>Tlsf_Lists\<close>, \<open>Tlsf_Heap\<close> carry its proof: the row of blocks that tiles the pools, the
    segregated free lists with their bitmaps, and the invariant \<open>heap\<close> that joins them, each with one
    lemma per internal operation. \<open>Tlsf_Memalign\<close> and \<open>Tlsf_Realloc\<close> add aligned
    allocation and reallocation. \<open>Tlsf_Correct\<close> has the resulting contract.

  \<^item> \<open>Bcl_Rle\<close>, \<open>Bcl_Lz\<close> model the coders \<open>libbcl/rle.c\<close> and \<open>libbcl/lz.c\<close> (compressors and decompressors on
    byte lists). The locale \<open>match_finder\<close> is what the LZ77 main loop needs of a search for matches; it
    is interpreted on the window search and on the jump-table walk.
  \<^item> \<open>Cd_Block\<close> models the CD block driver under \<open>libyaul/scu/bus/a/cs2/cd-block\<close>: the execution of a
    command, every command, start-up, sector reads and authentication. The drive is a function of
    the history of register accesses.
  \<^item> \<open>Memcpy\<close> models \<open>libyaul/lib/string/memcpy.c\<close> over a memory of bytes in which an access outside the
    memory and a misaligned 32-bit access have no defined result.

  \<^bold>\<open>What is shown.\<close> Allocation and release are correct for both allocators (freshness,
  disjointness, exhaustion, contents of other blocks, round trips); the self check of the TLSF
  heap succeeds and no assertion fails in any reachable state; callback lists call every
  registered function once; an SCU-DMA level is programmed with exactly the handle given; a DMA
  queue refines a bounded FIFO, and a flush followed by a wait carries out all its requests; both coders
  restore what they compress and stay within the documented output size; a CD block command restores the
  interrupt mask, and a sector read terminates with a drive that answers; the word-wise \<open>memcpy\<close> equals a copy
  of bytes. Runs
  evaluated in the logic show where the code departs from its documentation.

  \<^bold>\<open>Bounds.\<close> Loops that may not end (polling, list walks) are \<open>partial_function (option)\<close>; the theorems
  show that they return. Heap addresses are below 2^30, as they are on the Saturn.

  \<^bold>\<open>Not modelled.\<close> Drivers whose meaning is the behaviour of other hardware: the display processors (\<open>vdp\<close>),
  the SMPC and its controllers, the on-chip peripherals of the CPU, the SCU timers and DSP, the
  cartridges; interrupt vectors and start-up code in assembly; fixed-point mathematics, which is partly inline
  assembly; the file systems, the debug console, \<open>libsega3d\<close>, \<open>libtga\<close>, the other coders
  of \<open>libbcl\<close>, the string functions other than \<open>memcpy\<close>, and the host tools.
\<close>

end
